(* ===== verification/Saio_Prelude.thy ===== *)
theory Saio_Prelude
  imports Main "HOL-Library.Word" "HOL-Library.Signed_Division"
begin

text \<open>
  Shared vocabulary of the development: the ways a piece of C code can stop other than by
  returning, the sequencing of code that may stop, the conversion of a C \<open>int\<close> to a
  \<open>short\<close>, and the arithmetic on cyclic positions that the ring of table entries rests on.
\<close>

section \<open>Stops and sequencing\<close>

text \<open>
  \<open>Blocked\<close> is a busy-wait loop whose exit condition is false in the current shared state,
  \<open>Exited\<close> a call of \<open>exit\<close> with its status; the other values are the undefined or trapping operations of the C code.
\<close>

datatype stop =
    NullDeref
  | OutOfBounds
  | DivByZero
  | IntOverflow
  | UnresolvedSymbol
  | WriteProtected
  | Blocked
  | Exited int

type_synonym 'a res = "stop + 'a"

definition bind_res :: "'a res \<Rightarrow> ('a \<Rightarrow> 'b res) \<Rightarrow> 'b res" where
  "bind_res m f = (case m of Inl e \<Rightarrow> Inl e | Inr x \<Rightarrow> f x)"

definition guard_res :: "bool \<Rightarrow> stop \<Rightarrow> unit res" where
  "guard_res b e = (if b then Inr () else Inl e)"

definition deref :: "'a option \<Rightarrow> 'a res" where
  "deref p = (case p of None \<Rightarrow> Inl NullDeref | Some x \<Rightarrow> Inr x)"

named_theorems res_simps

lemma bind_res_simps [simp, res_simps]:
  "bind_res (Inl e) f = Inl e"
  "bind_res (Inr x) f = f x"
  by (simp_all add: bind_res_def)

lemma guard_res_simps [simp, res_simps]:
  "b \<Longrightarrow> guard_res b e = Inr ()"
  "\<not> b \<Longrightarrow> guard_res b e = Inl e"
  by (simp_all add: guard_res_def)

lemma deref_simps [simp, res_simps]:
  "deref None = Inl NullDeref"
  "deref (Some x) = Inr x"
  by (simp_all add: deref_def)

lemma bind_res_Inr_iff [res_simps]:
  "bind_res m f = Inr y \<longleftrightarrow> (\<exists>x. m = Inr x \<and> f x = Inr y)"
  by (cases m) simp_all

lemma guard_res_Inr_iff [res_simps]: "guard_res b e = Inr u \<longleftrightarrow> b"
  by (simp add: guard_res_def)

lemma deref_Inr_iff [res_simps]: "deref p = Inr x \<longleftrightarrow> p = Some x"
  by (cases p) simp_all

lemma bind_res_assoc: "bind_res (bind_res m f) g = bind_res m (\<lambda>x. bind_res (f x) g)"
  by (cases m) simp_all

lemma bind_res_cong [fundef_cong]:
  "m = m' \<Longrightarrow> (\<And>x. m' = Inr x \<Longrightarrow> f x = f' x) \<Longrightarrow> bind_res m f = bind_res m' f'"
  by (cases m') auto

text \<open>A counting loop whose body may stop.\<close>

fun fold_res :: "('a \<Rightarrow> 's \<Rightarrow> 's res) \<Rightarrow> 'a list \<Rightarrow> 's \<Rightarrow> 's res" where
  "fold_res f [] s = Inr s"
| "fold_res f (x # xs) s = bind_res (f x s) (fold_res f xs)"

lemma fold_res_append: "fold_res f (xs @ ys) s = bind_res (fold_res f xs s) (fold_res f ys)"
proof (induction xs arbitrary: s)
  case (Cons x xs)
  then show ?case by (cases "f x s") simp_all
qed simp

text \<open>The invariant rule for such a loop, indexed by the iterations done.\<close>

lemma fold_res_upto_rule:
  assumes "P a s" and "a \<le> b"
    and "\<And>k s. a \<le> k \<Longrightarrow> k < b \<Longrightarrow> P k s \<Longrightarrow> \<exists>s'. f k s = Inr s' \<and> P (k + 1) s'"
  shows "\<exists>s'. fold_res f [a..b - 1] s = Inr s' \<and> P (b::int) s'"
  using assms
proof (induction "nat (b - a)" arbitrary: a s)
  case 0
  then show ?case by simp
next
  case (Suc n)
  then have ab: "a < b" by simp
  with Suc.prems obtain s1 where s1: "f a s = Inr s1" "P (a + 1) s1" by blast
  have "\<exists>s'. fold_res f [a + 1..b - 1] s1 = Inr s' \<and> P b s'"
    using Suc.hyps(2) Suc.prems s1 ab by (intro Suc.hyps(1)) auto
  with s1 ab show ?case by (simp add: upto_rec1)
qed

text \<open>The same for a loop that can be left early: the body's boolean says whether to go on.\<close>

fun loop_res :: "('a \<Rightarrow> 's \<Rightarrow> (bool \<times> 's) res) \<Rightarrow> 'a list \<Rightarrow> 's \<Rightarrow> (bool \<times> 's) res" where
  "loop_res f [] s = Inr (True, s)"
| "loop_res f (x # xs) s =
     bind_res (f x s) (\<lambda>(go, s). if go then loop_res f xs s else Inr (False, s))"

lemma loop_res_upto_rule:
  assumes "P a s" and "a \<le> b"
    and "\<And>k s. a \<le> k \<Longrightarrow> k < b \<Longrightarrow> P k s \<Longrightarrow> \<exists>s'. f k s = Inr (True, s') \<and> P (k + 1) s'"
  shows "\<exists>s'. loop_res f [a..b - 1] s = Inr (True, s') \<and> P (b::int) s'"
  using assms
proof (induction "nat (b - a)" arbitrary: a s)
  case 0
  then show ?case by simp
next
  case (Suc n)
  then have ab: "a < b" by simp
  with Suc.prems obtain s1 where s1: "f a s = Inr (True, s1)" "P (a + 1) s1" by blast
  have "\<exists>s'. loop_res f [a + 1..b - 1] s1 = Inr (True, s') \<and> P b s'"
    using Suc.hyps(2) Suc.prems s1 ab by (intro Suc.hyps(1)) auto
  with s1 ab show ?case by (simp add: upto_rec1)
qed

section \<open>C integers\<close>

text \<open>
  A C \<open>int\<close> is an \<open>int\<close>; storing one in a \<open>short\<close> keeps its low 16 bits, read as two's
  complement.
\<close>

definition int_ok :: "int \<Rightarrow> bool" where
  "int_ok x \<longleftrightarrow> - (2 ^ 31) \<le> x \<and> x < 2 ^ 31"

definition short_of :: "int \<Rightarrow> int" where
  "short_of x = signed_take_bit 15 x"

lemma short_of_id: "- 32768 \<le> x \<Longrightarrow> x < 32768 \<Longrightarrow> short_of x = x"
  by (simp add: short_of_def signed_take_bit_int_eq_self)

lemma short_of_range: "- 32768 \<le> short_of x \<and> short_of x < 32768"
  using signed_take_bit_int_greater_eq_minus_exp [of 15 x] signed_take_bit_int_less_exp [of 15 x]
  by (simp add: short_of_def)

text \<open>C's truncating division and remainder; a zero divisor traps.\<close>

definition c_div :: "int \<Rightarrow> int \<Rightarrow> int res" where
  "c_div a b = (if b = 0 then Inl DivByZero
                else if int_ok (a sdiv b) then Inr (a sdiv b) else Inl IntOverflow)"

definition c_mod :: "int \<Rightarrow> int \<Rightarrow> int res" where
  "c_mod a b = (if b = 0 then Inl DivByZero
                else if int_ok (a sdiv b) then Inr (a smod b) else Inl IntOverflow)"

lemma sdiv_nonneg: "0 \<le> (a::int) \<Longrightarrow> 0 < b \<Longrightarrow> a sdiv b = a div b"
  by (simp add: signed_divide_int_def sgn_if)

lemma smod_nonneg: "0 \<le> (a::int) \<Longrightarrow> 0 < b \<Longrightarrow> a smod b = a mod b"
  by (simp add: signed_modulo_int_def sgn_if)

lemma div_le_self_int:
  assumes "0 \<le> (a::int)" and "0 < b"
  shows "0 \<le> a div b \<and> a div b \<le> a"
  using assms zdiv_mono2 [of a 1 b] by (simp add: pos_imp_zdiv_nonneg_iff)

lemma c_div_nonneg:
  assumes "0 \<le> a" and "0 < b" and "int_ok a"
  shows "c_div a b = Inr (a div b)"
  using assms div_le_self_int [of a b] by (simp add: c_div_def sdiv_nonneg int_ok_def)

lemma c_mod_nonneg:
  assumes "0 \<le> a" and "0 < b" and "int_ok a"
  shows "c_mod a b = Inr (a mod b)"
  using assms div_le_self_int [of a b] by (simp add: c_mod_def sdiv_nonneg smod_nonneg int_ok_def)

section \<open>Cyclic positions\<close>

text \<open>Two counters closer together than the ring is long address different slots.\<close>

lemma mod_neq_of_close:
  assumes "a < b" and "b - a < (n::nat)"
  shows "a mod n \<noteq> b mod n"
proof
  assume "a mod n = b mod n"
  then have "n dvd b - a"
    using assms(1) by (metis mod_eq_dvd_iff_nat less_imp_le)
  with assms show False
    using dvd_imp_le [of n "b - a"] by simp
qed

lemma mod_eq_close_iff:
  assumes "(a::nat) \<le> b" and "b - a < n"
  shows "a mod n = b mod n \<longleftrightarrow> a = b"
  using assms mod_neq_of_close [of a b n] by (cases "a = b") auto

text \<open>The distance from one cyclic position to another, read off the two residues.\<close>

lemma cyclic_distance:
  assumes "(a::nat) \<le> b" and "b - a < n"
  shows "b - a = (if a mod n \<le> b mod n then b mod n - a mod n else n - a mod n + b mod n)"
proof -
  define d where "d = b - a"
  have b: "b = a + d" and d: "d < n" using assms by (auto simp: d_def)
  have an: "a mod n < n" using d by simp
  have bm: "b mod n = (a mod n + d) mod n" by (simp add: b mod_add_left_eq)
  show ?thesis
  proof (cases "a mod n + d < n")
    case True
    then show ?thesis using bm by (simp add: d_def)
  next
    case False
    then have r: "b mod n = a mod n + d - n"
      using bm an d le_mod_geq [of n "a mod n + d"] by simp
    have "\<not> a mod n \<le> b mod n" unfolding r using False d by linarith
    then show ?thesis using False an r by (simp add: d_def [symmetric])
  qed
qed

lemma Suc_mod_if: "m < n \<Longrightarrow> Suc m mod n = (if Suc m = n then 0 else Suc m)"
  by simp

end
