(* ===== verification/Esca_Types.thy ===== *)
theory Esca_Types
  imports Saio_Prelude
begin

unbundle bit_operations_syntax

text \<open>
  The data shared by the kernel module and the preloaded library (\<open>module/include/esca.h\<close>,
  \<open>module/syscall.h\<close> and the two system-call number headers): limits, configuration, flags,
  the table entry and the table header, and how the two sides address the same entry.
\<close>

section \<open>Limits, configuration and flags\<close>

definition CPU_NUM_LIMIT :: int where "CPU_NUM_LIMIT = 100"
definition TABLE_LEN_LIMIT :: int where "TABLE_LEN_LIMIT = 30"
definition TABLE_ENT_LIMIT :: int where "TABLE_ENT_LIMIT = 64"
definition CONFIG_ARG_MAX_BYTES :: nat where "CONFIG_ARG_MAX_BYTES = 128"

lemmas limit_defs [simp] =
  CPU_NUM_LIMIT_def TABLE_LEN_LIMIT_def TABLE_ENT_LIMIT_def CONFIG_ARG_MAX_BYTES_def

record config_option =
  key :: string
  val :: int

record esca_config =
  esca_localize :: int
  max_table_entry :: int
  max_table_len :: int
  max_usr_worker :: int
  max_ker_worker :: int
  default_idle_time :: int
  affinity_offset :: int

definition default_config :: esca_config where
  "default_config = \<lparr>esca_localize = 1, max_table_entry = 64, max_table_len = 1,
     max_usr_worker = 1, max_ker_worker = 1, default_idle_time = 150, affinity_offset = 0\<rparr>"

definition ESCA_WORKER_NEED_WAKEUP :: "32 word" where "ESCA_WORKER_NEED_WAKEUP = push_bit 1 1"
definition ESCA_START_WAKEUP :: "32 word" where "ESCA_START_WAKEUP = push_bit 2 1"

definition BENTRY_EMPTY :: int where "BENTRY_EMPTY = 0"
definition BENTRY_BUSY :: int where "BENTRY_BUSY = 1"

section \<open>System-call numbers\<close>

datatype arch = X86_64 | AARCH64

definition ESCA_sendfile :: "arch \<Rightarrow> 32 word" where
  "ESCA_sendfile a = (case a of X86_64 \<Rightarrow> 40 | AARCH64 \<Rightarrow> 71)"
definition ESCA_shutdown :: "arch \<Rightarrow> 32 word" where
  "ESCA_shutdown a = (case a of X86_64 \<Rightarrow> 48 | AARCH64 \<Rightarrow> 210)"
definition ESCA_close :: "arch \<Rightarrow> 32 word" where
  "ESCA_close a = (case a of X86_64 \<Rightarrow> 3 | AARCH64 \<Rightarrow> 57)"
definition ESCA_write :: "arch \<Rightarrow> 32 word" where
  "ESCA_write a = (case a of X86_64 \<Rightarrow> 1 | AARCH64 \<Rightarrow> 64)"
definition ESCA_sendto :: "arch \<Rightarrow> 32 word" where
  "ESCA_sendto a = (case a of X86_64 \<Rightarrow> 44 | AARCH64 \<Rightarrow> 206)"
definition ESCA_sendmsg :: "arch \<Rightarrow> 32 word" where
  "ESCA_sendmsg a = (case a of X86_64 \<Rightarrow> 46 | AARCH64 \<Rightarrow> 211)"

definition NR_esca_register :: nat where "NR_esca_register = 400"
definition NR_esca_wakeup :: nat where "NR_esca_wakeup = 401"
definition NR_esca_wait :: nat where "NR_esca_wait = 402"
definition NR_esca_config :: nat where "NR_esca_config = 403"

lemmas nr_defs = NR_esca_register_def NR_esca_wakeup_def NR_esca_wait_def NR_esca_config_def

section \<open>Entries, headers and the memory they live in\<close>

record esca_table_entry =
  pid :: "32 word"
  nargs :: int
  rstatus :: int
  sysnum :: "32 word"
  sysret :: "32 word"
  args :: "64 word list"

text \<open>
  The entry pointers of the header: \<open>tables[j]\<close> is the kernel mapping of one pinned page, so
  it is the number of that page within the buffer; \<open>user_tables[j]\<close> points into the same
  buffer from the process's side, so it is an offset counted in entries. \<open>None\<close> is a pointer
  that was never set.
\<close>

record esca_table =
  tables :: "int option list"
  user_tables :: "int option list"
  head_table :: int
  tail_table :: int
  head_entry :: int
  tail_entry :: int
  idle_time :: "32 word"
  flags :: "32 word"

text \<open>The sizes of the two structures in bytes (LP64 layout).\<close>

definition sizeof_entry :: int where
  "sizeof_entry = 4 + 2 + 2 + 4 + 4 + 6 * 8"

definition sizeof_table :: int where
  "sizeof_table = TABLE_LEN_LIMIT * 8 + TABLE_LEN_LIMIT * 8 + 4 * 2 + 4 + 4"

lemma sizeof_vals [simp]: "sizeof_entry = 64" "sizeof_table = 496"
  by (simp_all add: sizeof_entry_def sizeof_table_def)

text \<open>
  One channel: a header and the page-aligned buffer of \<open>npages\<close> pages of \<open>psz\<close> bytes behind
  it, seen as an array of entries per page.
\<close>

record chan =
  hdr :: esca_table
  ents :: "int \<Rightarrow> int \<Rightarrow> esca_table_entry"
  psz :: int
  npages :: int

type_synonym cell = "int \<times> int"

definition epp :: "chan \<Rightarrow> int" where
  "epp ch = psz ch div sizeof_entry"

text \<open>
  The cell the process reaches through \<open>user_tables[i][j]\<close>, and the one the kernel reaches
  through \<open>tables[i][j]\<close>. Both stop when the access leaves the memory behind the pointer: the
  whole buffer for the process, one page for the kernel.
\<close>

definition user_cell :: "chan \<Rightarrow> int \<Rightarrow> int \<Rightarrow> cell res" where
  "user_cell ch i j =
     bind_res (guard_res (0 \<le> i \<and> i < TABLE_LEN_LIMIT) OutOfBounds) (\<lambda>_.
     bind_res (deref (user_tables (hdr ch) ! nat i)) (\<lambda>off.
     let n = off + j in
     bind_res (guard_res (0 \<le> n \<and> n < npages ch * epp ch) OutOfBounds) (\<lambda>_.
     Inr (n div epp ch, n mod epp ch))))"

definition kernel_cell :: "chan \<Rightarrow> int \<Rightarrow> int \<Rightarrow> cell res" where
  "kernel_cell ch i j =
     bind_res (guard_res (0 \<le> i \<and> i < TABLE_LEN_LIMIT) OutOfBounds) (\<lambda>_.
     bind_res (deref (tables (hdr ch) ! nat i)) (\<lambda>page.
     bind_res (guard_res (0 \<le> j \<and> j < epp ch) OutOfBounds) (\<lambda>_.
     Inr (page, j))))"

definition read_cell :: "chan \<Rightarrow> cell \<Rightarrow> esca_table_entry" where
  "read_cell ch c = ents ch (fst c) (snd c)"

definition write_cell :: "cell \<Rightarrow> esca_table_entry \<Rightarrow> chan \<Rightarrow> chan" where
  "write_cell c e ch = ch\<lparr>ents := (ents ch)(fst c := (ents ch (fst c))(snd c := e))\<rparr>"

text \<open>The array \<open>args\<close> of an entry has six elements.\<close>

definition entries_ok :: "chan \<Rightarrow> bool" where
  "entries_ok ch \<longleftrightarrow> (\<forall>c. length (args (read_cell ch c)) = 6)"

lemma read_write_cell: "read_cell (write_cell c e ch) d = (if c = d then e else read_cell ch d)"
  by (cases c; cases d) (auto simp: read_cell_def write_cell_def)

lemma write_cell_frame [simp]:
  "hdr (write_cell c e ch) = hdr ch" "psz (write_cell c e ch) = psz ch"
  "npages (write_cell c e ch) = npages ch" "epp (write_cell c e ch) = epp ch"
  "user_cell (write_cell c e ch) = user_cell ch" "kernel_cell (write_cell c e ch) = kernel_cell ch"
  by (simp_all add: write_cell_def epp_def user_cell_def kernel_cell_def fun_eq_iff)

lemma read_cell_hdr [simp]: "read_cell (ch\<lparr>hdr := h\<rparr>) c = read_cell ch c"
  by (simp add: read_cell_def)

text \<open>The addressing depends on the pointers of the header only.\<close>

lemma cells_hdr_cong:
  "user_tables h = user_tables (hdr ch) \<Longrightarrow> user_cell (ch\<lparr>hdr := h\<rparr>) = user_cell ch"
  "tables h = tables (hdr ch) \<Longrightarrow> kernel_cell (ch\<lparr>hdr := h\<rparr>) = kernel_cell ch"
  by (simp_all add: user_cell_def kernel_cell_def epp_def fun_eq_iff)

text \<open>The call an entry describes: the arguments past \<open>nargs\<close> are left over from earlier calls.\<close>

type_synonym request = "32 word \<times> int \<times> 64 word list"

definition req_of :: "esca_table_entry \<Rightarrow> request" where
  "req_of e = (sysnum e, nargs e, take (nat (nargs e)) (args e))"

lemma req_of_rstatus [simp]: "req_of (e\<lparr>rstatus := v\<rparr>) = req_of e"
  by (simp add: req_of_def)

lemma req_of_sysret [simp]: "req_of (e\<lparr>sysret := v\<rparr>) = req_of e"
  by (simp add: req_of_def)

end
