(* ===== verification/Esca_Config.thy ===== *)
theory Esca_Config
  imports Esca_Types "HOL-Library.Sublist"
begin

text \<open>
  Reading the configuration: the loop of \<open>setup\<close> over \<open>fscanf(fp, "%s = %d", ...)\<close> in
  \<open>wrapper/preload.c\<close>, and the two functions that turn the configuration into the global
  variables of the library (\<open>init_config\<close>) and of the module (\<open>sys_esca_init_config\<close>).
\<close>

section \<open>Scanning one option\<close>

definition c_isspace :: "char \<Rightarrow> bool" where
  "c_isspace c \<longleftrightarrow> of_char c = (32::nat) \<or> (9 \<le> (of_char c :: nat) \<and> (of_char c :: nat) \<le> 13)"

definition c_isdigit :: "char \<Rightarrow> bool" where
  "c_isdigit c \<longleftrightarrow> 48 \<le> (of_char c :: nat) \<and> (of_char c :: nat) \<le> 57"

definition digit_val :: "char \<Rightarrow> int" where
  "digit_val c = int (of_char c) - 48"

definition skip_ws :: "string \<Rightarrow> string" where
  "skip_ws s = dropWhile c_isspace s"

definition digits_val :: "string \<Rightarrow> int" where
  "digits_val ds = foldl (\<lambda>n c. 10 * n + digit_val c) 0 ds"

text \<open>
  The conversion \<open>%d\<close>: white space, an optional sign, digits. Without a digit nothing is
  assigned and the sign stays consumed.
\<close>

definition scan_sign :: "string \<Rightarrow> int \<times> string" where
  "scan_sign s = (case s of
      [] \<Rightarrow> (1, [])
    | c # cs \<Rightarrow> if c = CHR ''-'' then (-1, cs) else if c = CHR ''+'' then (1, cs) else (1, s))"

definition scan_int :: "string \<Rightarrow> int option \<times> string" where
  "scan_int s =
     (let (sg, s1) = scan_sign (skip_ws s);
          ds = takeWhile c_isdigit s1
      in if ds = [] then (None, s1) else (Some (sg * digits_val ds), dropWhile c_isdigit s1))"

text \<open>
  One call of \<open>fscanf\<close>: its return value, what it stored, and the input left. A word of
  \<open>CONFIG_ARG_MAX_BYTES\<close> bytes or more overruns \<open>option.key\<close>, and a number that is no
  \<open>int\<close> is not representable in \<open>option.val\<close>.
\<close>

definition scan_tail :: "string \<Rightarrow> string \<Rightarrow> (int \<times> config_option \<times> string) res" where
  "scan_tail k s =
     (case s of
        [] \<Rightarrow> Inr (1, \<lparr>key = k, val = 0\<rparr>, [])
      | c # cs \<Rightarrow>
          if c \<noteq> CHR ''='' then Inr (1, \<lparr>key = k, val = 0\<rparr>, s)
          else (case scan_int cs of
              (None, r) \<Rightarrow> Inr (1, \<lparr>key = k, val = 0\<rparr>, r)
            | (Some v, r) \<Rightarrow>
                if int_ok v then Inr (2, \<lparr>key = k, val = v\<rparr>, r) else Inl IntOverflow))"

definition fscanf_kv :: "string \<Rightarrow> (int \<times> config_option \<times> string) res" where
  "fscanf_kv s =
     (let s1 = skip_ws s;
          k = takeWhile (\<lambda>c. \<not> c_isspace c) s1;
          s2 = skip_ws (dropWhile (\<lambda>c. \<not> c_isspace c) s1)
      in if s1 = [] then Inr (-1, \<lparr>key = [], val = 0\<rparr>, [])
         else if length k \<ge> CONFIG_ARG_MAX_BYTES then Inl OutOfBounds
         else scan_tail k s2)"

definition apply_option :: "esca_config \<Rightarrow> config_option \<Rightarrow> esca_config" where
  "apply_option c opt =
     (if key opt = ''esca_localize'' then c\<lparr>esca_localize := val opt\<rparr>
      else if key opt = ''max_table_entry'' then c\<lparr>max_table_entry := val opt\<rparr>
      else if key opt = ''max_table_len'' then c\<lparr>max_table_len := val opt\<rparr>
      else if key opt = ''max_usr_worker'' then c\<lparr>max_usr_worker := val opt\<rparr>
      else if key opt = ''max_ker_worker'' then c\<lparr>max_ker_worker := val opt\<rparr>
      else if key opt = ''default_idle_time'' then c\<lparr>default_idle_time := val opt\<rparr>
      else if key opt = ''affinity_offset'' then c\<lparr>affinity_offset := val opt\<rparr>
      else c)"

section \<open>The scanner makes progress\<close>

lemma length_skip_ws [simp]: "length (skip_ws s) \<le> length s"
  by (simp add: skip_ws_def length_dropWhile_le)

lemma length_scan_sign: "length (snd (scan_sign s)) \<le> length s"
  by (simp add: scan_sign_def split: list.split)

lemma length_scan_int: "length (snd (scan_int s)) \<le> length s"
proof -
  obtain sg s1 where s1: "scan_sign (skip_ws s) = (sg, s1)" by fastforce
  then have "length s1 \<le> length s"
    using length_scan_sign [of "skip_ws s"] by (auto intro: le_trans [OF _ length_skip_ws])
  then show ?thesis
    using length_dropWhile_le [of c_isdigit s1] by (simp add: scan_int_def s1 Let_def)
qed

lemma skip_ws_hd: "skip_ws s = c # cs \<Longrightarrow> \<not> c_isspace c"
  by (simp add: skip_ws_def dropWhile_eq_Cons_conv)

text \<open>
  Unless it reports the end of the input, a call consumes at least the first character of a
  word; so the loop of \<open>setup\<close> ends on every file.
\<close>

lemma word_shorter:
  assumes "skip_ws s \<noteq> []"
  shows "length (skip_ws (dropWhile (\<lambda>c. \<not> c_isspace c) (skip_ws s))) < length s"
proof -
  from assms obtain c cs where c: "skip_ws s = c # cs" by (cases "skip_ws s") auto
  then have "\<not> c_isspace c" by (rule skip_ws_hd)
  with c have "dropWhile (\<lambda>c. \<not> c_isspace c) (skip_ws s) = dropWhile (\<lambda>c. \<not> c_isspace c) cs"
    by simp
  moreover have "length (skip_ws (dropWhile (\<lambda>c. \<not> c_isspace c) cs)) \<le> length cs"
    by (rule le_trans [OF length_skip_ws length_dropWhile_le])
  moreover have "length cs < length s"
    using le_trans [OF _ length_skip_ws, of "length (c # cs)" s] c by simp
  ultimately show ?thesis by simp
qed

lemma scan_tail_length: "scan_tail k s = Inr (n, opt, r) \<Longrightarrow> length r \<le> length s \<and> n \<noteq> -1"
  using length_scan_int [of "tl s"]
  by (auto simp: scan_tail_def split: list.splits if_splits prod.splits option.splits)

lemma fscanf_kv_shorter:
  assumes "fscanf_kv s = Inr (n, opt, r)" and "n \<noteq> -1"
  shows "length r < length s"
proof -
  from assms have ne: "skip_ws s \<noteq> []" by (auto simp: fscanf_kv_def Let_def)
  with assms have "length r \<le> length (skip_ws (dropWhile (\<lambda>c. \<not> c_isspace c) (skip_ws s)))"
    by (auto simp: fscanf_kv_def Let_def dest: scan_tail_length split: if_splits)
  with word_shorter [OF ne] show ?thesis by simp
qed

lemma fscanf_kv_eof: "fscanf_kv s = Inr (-1, opt, r) \<Longrightarrow> r = []"
  by (auto simp: fscanf_kv_def Let_def dest: scan_tail_length split: if_splits)

section \<open>The loop of setup\<close>

text \<open>
  The loop reads until a call that did not match leaves the stream at its end; what does not
  match is reported and skipped.
\<close>

function parse_conf :: "string \<Rightarrow> esca_config \<Rightarrow> esca_config res" where
  "parse_conf s c =
     (case fscanf_kv s of
        Inl e \<Rightarrow> Inl e
      | Inr (n, opt, r) \<Rightarrow>
          if n \<noteq> 2 then (if r = [] then Inr c else parse_conf r c)
          else parse_conf r (apply_option c opt))"
  by pat_completeness auto
termination
proof (relation "measure (\<lambda>(s, c). length s)")
  fix s :: string and c :: esca_config and x n y opt r
  assume a: "fscanf_kv s = Inr x" "(n, y) = x" "(opt, r) = y"
  {
    assume "n \<noteq> 2" and "r \<noteq> []"
    then have "n \<noteq> -1" using a fscanf_kv_eof by blast
    then show "((r, c), s, c) \<in> measure (\<lambda>(s, c). length s)"
      using a fscanf_kv_shorter [of s n opt r] by auto
  next
    assume "\<not> n \<noteq> 2"
    then show "((r, apply_option c opt), s, c) \<in> measure (\<lambda>(s, c). length s)"
      using a fscanf_kv_shorter [of s n opt r] by auto
  }
qed simp

declare parse_conf.simps [simp del]

section \<open>The global variables\<close>

record globals =
  ESCA_LOCALIZE :: int
  MAX_TABLE_ENTRY :: int
  MAX_TABLE_LEN :: int
  MAX_USR_WORKER :: int
  MAX_CPU_NUM :: int
  RATIO :: int
  DEFAULT_IDLE_TIME :: int
  AFF_OFF :: int

definition init_config :: "esca_config \<Rightarrow> globals res" where
  "init_config c =
     bind_res (c_div (max_ker_worker c) (max_usr_worker c)) (\<lambda>ratio.
     Inr \<lparr>ESCA_LOCALIZE = esca_localize c, MAX_TABLE_ENTRY = max_table_entry c,
       MAX_TABLE_LEN = max_table_len c, MAX_USR_WORKER = max_usr_worker c,
       MAX_CPU_NUM = max_ker_worker c, RATIO = ratio,
       DEFAULT_IDLE_TIME = default_idle_time c, AFF_OFF = affinity_offset c\<rparr>)"

text \<open>
  The module's side. A failed \<open>kmalloc\<close> is reported and then used; \<open>kbuf\<close> is the block it
  returned, \<open>copied\<close> what \<open>copy_from_user\<close> (whose result is ignored) leaves in the block.
\<close>

definition sys_esca_init_config ::
  "esca_config option \<Rightarrow> (esca_config \<Rightarrow> esca_config) \<Rightarrow> globals res" where
  "sys_esca_init_config kbuf copied =
     bind_res (deref kbuf) (\<lambda>blk.
     let kconfig = copied blk in
     bind_res (c_div (max_ker_worker kconfig) (max_usr_worker kconfig)) (\<lambda>ratio.
     Inr \<lparr>ESCA_LOCALIZE = esca_localize kconfig, MAX_TABLE_ENTRY = max_table_entry kconfig,
       MAX_TABLE_LEN = max_table_len kconfig, MAX_USR_WORKER = max_usr_worker kconfig,
       MAX_CPU_NUM = max_ker_worker kconfig, RATIO = ratio,
       DEFAULT_IDLE_TIME = default_idle_time kconfig, AFF_OFF = affinity_offset kconfig\<rparr>))"

text \<open>
  The constructor of the library: \<open>blk\<close> is what \<open>malloc\<close> returned, \<open>fp\<close> the contents of
  the configuration file when it could be opened. It yields the configuration handed to the
  module and the library's own variables.
\<close>

definition setup_conf ::
  "esca_config option \<Rightarrow> string option \<Rightarrow> (esca_config \<times> globals) res" where
  "setup_conf blk fp =
     bind_res (case fp of None \<Rightarrow> Inr default_config
               | Some text \<Rightarrow> bind_res (deref blk) (parse_conf text)) (\<lambda>config.
     bind_res (init_config config) (\<lambda>g. Inr (config, g)))"

section \<open>Writing a configuration file\<close>

text \<open>
  The text of a configuration file, one \<open>key = value\<close> line per option, as in \<open>esca.conf\<close>.
\<close>

definition digit_char :: "nat \<Rightarrow> char" where
  "digit_char d = char_of (48 + d)"

fun show_nat :: "nat \<Rightarrow> string" where
  "show_nat n = (if n < 10 then [digit_char n] else show_nat (n div 10) @ [digit_char (n mod 10)])"

declare show_nat.simps [simp del]

definition show_int :: "int \<Rightarrow> string" where
  "show_int v = (if v < 0 then CHR ''-'' # show_nat (nat (- v)) else show_nat (nat v))"

definition conf_line :: "config_option \<Rightarrow> string" where
  "conf_line opt = key opt @ '' = '' @ show_int (val opt) @ [CHR 0x0A]"

definition conf_text :: "config_option list \<Rightarrow> string" where
  "conf_text opts = concat (map conf_line opts)"

definition conf_options :: "esca_config \<Rightarrow> config_option list" where
  "conf_options c =
     [\<lparr>key = ''esca_localize'', val = esca_localize c\<rparr>,
      \<lparr>key = ''max_table_entry'', val = max_table_entry c\<rparr>,
      \<lparr>key = ''max_table_len'', val = max_table_len c\<rparr>,
      \<lparr>key = ''max_usr_worker'', val = max_usr_worker c\<rparr>,
      \<lparr>key = ''max_ker_worker'', val = max_ker_worker c\<rparr>,
      \<lparr>key = ''default_idle_time'', val = default_idle_time c\<rparr>,
      \<lparr>key = ''affinity_offset'', val = affinity_offset c\<rparr>]"

text \<open>An option that can stand on a line: a word that fits the buffer and an \<open>int\<close>.\<close>

definition option_ok :: "config_option \<Rightarrow> bool" where
  "option_ok opt \<longleftrightarrow> key opt \<noteq> [] \<and> length (key opt) < CONFIG_ARG_MAX_BYTES \<and>
     list_all (\<lambda>c. \<not> c_isspace c) (key opt) \<and> int_ok (val opt)"

subsection \<open>Scanning what was written\<close>

lemma of_digit_char [simp]: "d < 10 \<Longrightarrow> of_char (digit_char d) = 48 + d"
  by (simp add: digit_char_def)

lemma digit_char_props:
  assumes "d < 10"
  shows "c_isdigit (digit_char d)" and "digit_val (digit_char d) = int d"
  using assms by (simp_all add: c_isdigit_def digit_val_def)

lemma show_nat_digits: "list_all c_isdigit (show_nat n)"
proof (induction n rule: show_nat.induct)
  case (1 n)
  then show ?case
    by (subst show_nat.simps) (auto simp: digit_char_props)
qed

lemma show_nat_nonempty: "show_nat n \<noteq> []"
  by (subst show_nat.simps) simp

lemma digits_val_snoc: "digits_val (ds @ [c]) = 10 * digits_val ds + digit_val c"
  by (simp add: digits_val_def)

lemma digits_val_show_nat: "digits_val (show_nat n) = int n"
proof (induction n rule: show_nat.induct)
  case (1 n)
  show ?case
  proof (cases "n < 10")
    case True
    then show ?thesis by (subst show_nat.simps) (simp add: digits_val_def digit_char_props)
  next
    case False
    with "1" have "digits_val (show_nat (n div 10)) = int (n div 10)" by simp
    with False show ?thesis
      by (subst show_nat.simps) (simp add: digits_val_snoc digit_char_props zdiv_int zmod_int)
  qed
qed

lemma take_drop_show_nat:
  assumes "\<not> c_isdigit c"
  shows "takeWhile c_isdigit (show_nat n @ c # s) = show_nat n"
    and "dropWhile c_isdigit (show_nat n @ c # s) = c # s"
  using assms show_nat_digits [of n]
  by (auto simp: takeWhile_append list_all_iff takeWhile_eq_all_conv [THEN iffD2]
      dropWhile_append dropWhile_eq_Nil_conv [THEN iffD2])

lemma show_nat_hd: "\<exists>c cs. show_nat n = c # cs \<and> c_isdigit c"
  using show_nat_digits [of n] show_nat_nonempty [of n] by (cases "show_nat n") auto

lemma isdigit_not_special:
  assumes "c_isdigit c"
  shows "\<not> c_isspace c" and "c \<noteq> CHR ''-''" and "c \<noteq> CHR ''+''"
  using assms by (auto simp: c_isdigit_def c_isspace_def)

lemma scan_int_show:
  assumes "\<not> c_isdigit c"
  shows "scan_int (show_int v @ c # s) = (Some v, c # s)"
proof (cases "v < 0")
  case True
  then show ?thesis
    using take_drop_show_nat [OF assms] show_nat_nonempty
    by (simp add: scan_int_def show_int_def skip_ws_def c_isspace_def scan_sign_def
        digits_val_show_nat)
next
  case False
  obtain d ds where d: "show_nat (nat v) = d # ds" "c_isdigit d" using show_nat_hd by blast
  from d have "scan_sign (skip_ws (show_int v @ c # s)) = (1, show_nat (nat v) @ c # s)"
    using False isdigit_not_special [OF d(2)]
    by (simp add: show_int_def skip_ws_def scan_sign_def)
  with False show ?thesis
    using take_drop_show_nat [OF assms] show_nat_nonempty
    by (simp add: scan_int_def digits_val_show_nat)
qed

lemma skip_ws_space: "scan_int (CHR '' '' # s) = scan_int s"
  by (simp add: scan_int_def skip_ws_def c_isspace_def)

lemma fscanf_kv_line:
  assumes "option_ok opt"
  shows "fscanf_kv (conf_line opt @ s) = Inr (2, opt, CHR 0x0A # s)"
proof -
  from assms have k: "key opt \<noteq> []" "length (key opt) < 128"
    "\<And>c. c \<in> set (key opt) \<Longrightarrow> \<not> c_isspace c" and v: "int_ok (val opt)"
    by (auto simp: option_ok_def list_all_iff)
  then obtain d ds where d: "key opt = d # ds" "\<not> c_isspace d" by (cases "key opt") auto
  let ?t = "'' = '' @ show_int (val opt) @ CHR 0x0A # s"
  have sp: "c_isspace (CHR '' '')" "\<not> c_isspace (CHR ''='')" "\<not> c_isdigit (CHR 0x0A)"
    by (simp_all add: c_isspace_def c_isdigit_def)
  have line: "conf_line opt @ s = key opt @ ?t" by (simp add: conf_line_def)
  have w: "skip_ws (key opt @ ?t) = key opt @ ?t"
    using d by (simp add: skip_ws_def)
  have tk: "takeWhile (\<lambda>c. \<not> c_isspace c) (key opt @ ?t) = key opt"
    using k(3) sp(1) by (simp add: takeWhile_append)
  have dr: "dropWhile (\<lambda>c. \<not> c_isspace c) (key opt @ ?t) = ?t"
    using k(3) sp(1) by (simp add: dropWhile_append)
  have "skip_ws ?t = CHR ''='' # CHR '' '' # show_int (val opt) @ CHR 0x0A # s"
    using sp by (simp add: skip_ws_def)
  then have "scan_tail (key opt) (skip_ws ?t) = Inr (2, opt, CHR 0x0A # s)"
    using scan_int_show [OF sp(3), of "val opt" s] v by (simp add: scan_tail_def skip_ws_space)
  then show ?thesis
    using k(1,2) unfolding line fscanf_kv_def Let_def w tk dr by simp
qed

section \<open>What the loop computes\<close>

lemma fscanf_kv_newline: "fscanf_kv (CHR 0x0A # s) = fscanf_kv s"
  by (simp add: fscanf_kv_def skip_ws_def c_isspace_def)

lemma parse_conf_newline: "parse_conf (CHR 0x0A # s) c = parse_conf s c"
  by (simp add: parse_conf.simps [of "CHR 0x0A # s"] parse_conf.simps [of s] fscanf_kv_newline)

lemma parse_conf_line:
  "option_ok opt \<Longrightarrow> parse_conf (conf_line opt @ s) c = parse_conf s (apply_option c opt)"
  by (subst parse_conf.simps) (simp add: fscanf_kv_line parse_conf_newline)

lemma parse_conf_Nil: "parse_conf [] c = Inr c"
  by (subst parse_conf.simps) (simp add: fscanf_kv_def skip_ws_def)

lemma parse_conf_lines_aux:
  "list_all option_ok opts \<Longrightarrow> parse_conf (conf_text opts) c = Inr (foldl apply_option c opts)"
  by (induction opts arbitrary: c) (simp_all add: conf_text_def parse_conf_Nil parse_conf_line)

lemma foldl_conf_options: "foldl apply_option c0 (conf_options c) = c"
  by (simp add: conf_options_def apply_option_def)

lemma conf_options_ok:
  assumes "list_all int_ok [esca_localize c, max_table_entry c, max_table_len c,
    max_usr_worker c, max_ker_worker c, default_idle_time c, affinity_offset c]"
  shows "list_all option_ok (conf_options c)"
  using assms by (simp add: conf_options_def option_ok_def c_isspace_def)

subsection \<open>Where it can stop\<close>

lemma suffix_skip_ws: "suffix (skip_ws s) s"
  by (simp add: skip_ws_def suffix_dropWhile)

lemma suffix_scan_sign: "suffix (snd (scan_sign s)) s"
  by (auto simp: scan_sign_def suffix_Cons split: list.splits)

lemma suffix_scan_int: "suffix (snd (scan_int s)) s"
proof -
  obtain sg s1 where s1: "scan_sign (skip_ws s) = (sg, s1)" by fastforce
  then have "suffix s1 s"
    using suffix_scan_sign [of "skip_ws s"] suffix_skip_ws [of s] suffix_order.trans by fastforce
  then show ?thesis
    using suffix_dropWhile [of c_isdigit s1] suffix_order.trans
    by (auto simp: scan_int_def s1 Let_def)
qed

lemma suffix_scan_tail: "scan_tail k s = Inr (n, opt, r) \<Longrightarrow> suffix r s"
  using suffix_scan_int [of "tl s"]
  by (auto simp: scan_tail_def suffix_Cons split: list.splits if_splits prod.splits option.splits)

lemma suffix_word: "suffix (skip_ws (dropWhile (\<lambda>c. \<not> c_isspace c) (skip_ws s))) s"
  by (meson suffix_dropWhile suffix_order.trans suffix_skip_ws)

lemma suffix_fscanf_kv: "fscanf_kv s = Inr (n, opt, r) \<Longrightarrow> suffix r s"
  by (auto simp: fscanf_kv_def Let_def split: if_splits
      dest!: suffix_scan_tail intro: suffix_order.trans [OF _ suffix_word])

definition long_word :: "string \<Rightarrow> bool" where
  "long_word w \<longleftrightarrow> CONFIG_ARG_MAX_BYTES \<le> length w \<and> list_all (\<lambda>c. \<not> c_isspace c) w"

definition big_number :: "string \<Rightarrow> bool" where
  "big_number w \<longleftrightarrow> list_all c_isdigit w \<and> 2 ^ 31 \<le> digits_val w"

lemma digits_val_nonneg: "list_all c_isdigit ds \<Longrightarrow> 0 \<le> digits_val ds"
proof (induction ds rule: rev_induct)
  case Nil
  then show ?case by (simp add: digits_val_def)
next
  case (snoc c ds)
  then show ?case by (auto simp: digits_val_snoc c_isdigit_def digit_val_def)
qed

lemma sublist_run: "suffix t s \<Longrightarrow> sublist (takeWhile P t) s"
  by (rule sublist_order.order.trans [OF prefix_imp_sublist [OF takeWhile_is_prefix]])
    (rule suffix_imp_sublist)

lemma list_all_takeWhile: "list_all P (takeWhile P s)"
  by (auto simp: list_all_iff dest: set_takeWhileD)

lemma scan_int_overflow:
  assumes "scan_int s = (Some v, r)" and "\<not> int_ok v"
  shows "\<exists>w. sublist w s \<and> big_number w"
proof -
  obtain sg s1 where s1: "scan_sign (skip_ws s) = (sg, s1)" by fastforce
  let ?w = "takeWhile c_isdigit s1"
  have d: "list_all c_isdigit ?w" by (rule list_all_takeWhile)
  have sg: "sg = 1 \<or> sg = -1"
    using s1 by (auto simp: scan_sign_def split: list.splits if_splits)
  from assms(1) have v: "v = sg * digits_val ?w"
    by (auto simp: scan_int_def s1 Let_def split: if_splits)
  have "2 ^ 31 \<le> digits_val ?w"
    using assms(2) digits_val_nonneg [OF d] sg unfolding v int_ok_def by auto
  moreover have "suffix s1 s"
    using s1 suffix_scan_sign [of "skip_ws s"] suffix_skip_ws [of s] suffix_order.trans by fastforce
  then have "sublist ?w s" by (rule sublist_run)
  ultimately show ?thesis using d by (auto simp: big_number_def)
qed

lemma fscanf_kv_stop:
  assumes "fscanf_kv s = Inl e"
  shows "e = OutOfBounds \<and> (\<exists>w. sublist w s \<and> long_word w) \<or>
         e = IntOverflow \<and> (\<exists>w. sublist w s \<and> big_number w)"
proof -
  define k where "k = takeWhile (\<lambda>c. \<not> c_isspace c) (skip_ws s)"
  define s2 where "s2 = skip_ws (dropWhile (\<lambda>c. \<not> c_isspace c) (skip_ws s))"
  have k: "sublist k s" "list_all (\<lambda>c. \<not> c_isspace c) k"
    unfolding k_def by (rule sublist_run [OF suffix_skip_ws], rule list_all_takeWhile)
  have s2: "suffix s2 s" unfolding s2_def by (rule suffix_word)
  show ?thesis
  proof (cases "length k \<ge> CONFIG_ARG_MAX_BYTES")
    case True
    with assms k show ?thesis
      by (auto simp: fscanf_kv_def Let_def k_def [symmetric] long_word_def split: if_splits)
  next
    case False
    with assms have "scan_tail k s2 = Inl e"
      by (auto simp: fscanf_kv_def Let_def k_def [symmetric] s2_def [symmetric] split: if_splits)
    then obtain cs v r where cs: "s2 = CHR ''='' # cs" and v: "scan_int cs = (Some v, r)"
        "\<not> int_ok v" and e: "e = IntOverflow"
      by (auto simp: scan_tail_def split: list.splits if_splits prod.splits option.splits)
    from scan_int_overflow [OF v] obtain w where "sublist w cs" "big_number w" by blast
    moreover have "sublist cs s"
      using s2 cs by (metis suffix_ConsD suffix_imp_sublist)
    ultimately show ?thesis using e sublist_order.order.trans by blast
  qed
qed

lemma parse_conf_stop_aux:
  "parse_conf s c = Inl e \<Longrightarrow>
   e = OutOfBounds \<and> (\<exists>w. sublist w s \<and> long_word w) \<or>
   e = IntOverflow \<and> (\<exists>w. sublist w s \<and> big_number w)"
proof (induction s c rule: parse_conf.induct)
  case (1 s c)
  show ?case
  proof (cases "fscanf_kv s")
    case (Inl a)
    with "1.prems" show ?thesis
      using fscanf_kv_stop [of s] by (simp add: parse_conf.simps [of s])
  next
    case (Inr x)
    obtain n opt r where x: "x = (n, opt, r)" by (cases x) auto
    have "sublist r s" using Inr x suffix_fscanf_kv suffix_imp_sublist by blast
    moreover have "e = OutOfBounds \<and> (\<exists>w. sublist w r \<and> long_word w) \<or>
        e = IntOverflow \<and> (\<exists>w. sublist w r \<and> big_number w)"
      using "1.IH" "1.prems" Inr x
      by (auto simp: parse_conf.simps [of s] split: if_splits)
    ultimately show ?thesis using sublist_order.order.trans by blast
  qed
qed

section \<open>Properties\<close>

text \<open>
  Reading a file of \<open>key = value\<close> lines applies the options one after the other to the
  block \<open>malloc\<close> returned: a later line overrides an earlier one, an unknown key changes
  nothing, and a field that no line names keeps what was in the block.
\<close>

theorem parse_conf_lines:
  assumes "list_all option_ok opts"
  shows "parse_conf (conf_text opts) c = Inr (foldl apply_option c opts)"
  using assms by (rule parse_conf_lines_aux)

theorem parse_conf_lines_witness:
  "parse_conf (conf_text [\<lparr>key = ''max_table_len'', val = 10\<rparr>, \<lparr>key = ''colour'', val = 7\<rparr>,
      \<lparr>key = ''max_table_len'', val = -3\<rparr>]) default_config
   = Inr (default_config\<lparr>max_table_len := -3\<rparr>)"
proof -
  let ?opts = "[\<lparr>key = ''max_table_len'', val = 10\<rparr>, \<lparr>key = ''colour'', val = 7\<rparr>,
      \<lparr>key = ''max_table_len'', val = -3\<rparr>]"
  have "list_all option_ok ?opts" by (simp add: option_ok_def c_isspace_def int_ok_def)
  from parse_conf_lines [OF this, of default_config] show ?thesis
    by (simp add: apply_option_def default_config_def)
qed

text \<open>
  C39: a configuration written to a file and read back by \<open>setup\<close> is the same configuration,
  whatever \<open>malloc\<close> left in the block, and the library's variables are those of
  \<open>init_config\<close> on it.
\<close>

theorem setup_conf_roundtrip:
  assumes "list_all int_ok [esca_localize c, max_table_entry c, max_table_len c,
    max_usr_worker c, max_ker_worker c, default_idle_time c, affinity_offset c]"
  shows "setup_conf (Some junk) (Some (conf_text (conf_options c))) =
    bind_res (init_config c) (\<lambda>g. Inr (c, g))"
  using conf_options_ok [OF assms]
  by (simp add: setup_conf_def parse_conf_lines_aux foldl_conf_options)

theorem setup_conf_roundtrip_witness:
  "setup_conf (Some (default_config\<lparr>max_ker_worker := 77\<rparr>))
     (Some (conf_text (conf_options default_config))) =
   bind_res (init_config default_config) (\<lambda>g. Inr (default_config, g))"
  by (rule setup_conf_roundtrip) (simp add: default_config_def int_ok_def)

text \<open>
  C40: the loop over the file ends on every input, and it fails in two ways only: the buffer
  \<open>option.key\<close> is overrun, which needs a run of \<open>CONFIG_ARG_MAX_BYTES\<close> or more characters
  without white space in the file, or a number does not fit an \<open>int\<close>, which needs a run of
  digits of at least $2^{31}$.
\<close>

theorem parse_conf_stop:
  "(\<exists>c'. parse_conf s c = Inr c') \<or>
   (parse_conf s c = Inl OutOfBounds \<and> (\<exists>w. sublist w s \<and> long_word w)) \<or>
   (parse_conf s c = Inl IntOverflow \<and> (\<exists>w. sublist w s \<and> big_number w))"
proof (cases "parse_conf s c")
  case (Inl e)
  then show ?thesis using parse_conf_stop_aux [OF Inl] by auto
qed simp

text \<open>
  When the configuration asks for at least one user worker and no fewer kernel workers,
  the library and the module compute the same variables from it, each user worker gets
  \<open>RATIO\<close> \<open>\<ge> 1\<close> kernel workers, all of them among the \<open>MAX_CPU_NUM\<close> configured ones, and fewer
  kernel workers than there are user workers are left over.
\<close>

theorem init_config_ratio:
  assumes "1 \<le> max_usr_worker c" and "max_usr_worker c \<le> max_ker_worker c"
    and "int_ok (max_ker_worker c)"
  shows "\<exists>g. init_config c = Inr g \<and> sys_esca_init_config (Some blk) (\<lambda>_. c) = Inr g \<and>
    1 \<le> RATIO g \<and> MAX_USR_WORKER g * RATIO g \<le> MAX_CPU_NUM g \<and>
    MAX_CPU_NUM g - MAX_USR_WORKER g * RATIO g < MAX_USR_WORKER g"
proof -
  let ?k = "max_ker_worker c" and ?u = "max_usr_worker c"
  have d: "c_div ?k ?u = Inr (?k div ?u)" using assms by (intro c_div_nonneg) auto
  have "1 \<le> ?k div ?u"
    using assms(1,2) by (simp add: pos_imp_zdiv_pos_iff int_one_le_iff_zero_less)
  moreover have "?u * (?k div ?u) \<le> ?k \<and> ?k - ?u * (?k div ?u) < ?u"
    using assms(1) mult_div_mod_eq [of ?u ?k] pos_mod_bound [of ?u ?k] pos_mod_sign [of ?u ?k]
    by linarith
  ultimately show ?thesis
    by (simp add: init_config_def sys_esca_init_config_def d)
qed

theorem init_config_ratio_witness:
  "\<exists>g. init_config (default_config\<lparr>max_usr_worker := 3, max_ker_worker := 8\<rparr>) = Inr g \<and>
    sys_esca_init_config (Some default_config)
      (\<lambda>_. default_config\<lparr>max_usr_worker := 3, max_ker_worker := 8\<rparr>) = Inr g \<and>
    1 \<le> RATIO g \<and> MAX_USR_WORKER g * RATIO g \<le> MAX_CPU_NUM g \<and>
    MAX_CPU_NUM g - MAX_USR_WORKER g * RATIO g < MAX_USR_WORKER g"
  by (rule init_config_ratio) (simp_all add: default_config_def int_ok_def)

end
