(* ===== verification/Ring_Index.thy ===== *)
theory Ring_Index
  imports Esca_Config
begin

text \<open>
  The head and tail of one table: the producer's \<open>update_index\<close> (\<open>wrapper/preload.c\<close>), the
  consumer's advance and its count of submitted entries (the loop of \<open>worker\<close> in
  \<open>module/lioo.c\<close>). Both walks are instances of one cyclic walk over the
  \<open>MAX_TABLE_LEN * MAX_TABLE_ENTRY\<close> slots.
\<close>

section \<open>The producer's index\<close>

text \<open>The condition of the busy-wait loop.\<close>

definition wait_full :: "esca_table \<Rightarrow> bool" where
  "wait_full h \<longleftrightarrow> tail_entry h + 1 = head_entry h \<and> tail_table h = head_table h"

definition next_table :: "globals \<Rightarrow> int \<Rightarrow> int" where
  "next_table g t = (if t = MAX_TABLE_LEN g - 1 then 0 else t + 1)"

definition advance_tail :: "globals \<Rightarrow> esca_table \<Rightarrow> esca_table" where
  "advance_tail g h =
     (if tail_entry h = MAX_TABLE_ENTRY g - 1
      then (h\<lparr>tail_entry := 0\<rparr>)\<lparr>tail_table := short_of (next_table g (tail_table h))\<rparr>
      else h\<lparr>tail_entry := short_of (tail_entry h + 1)\<rparr>)"

definition update_index :: "globals \<Rightarrow> esca_table \<Rightarrow> esca_table res" where
  "update_index g h = (if wait_full h then Inl Blocked else Inr (advance_tail g h))"

section \<open>The consumer's index\<close>

definition worker_next :: "globals \<Rightarrow> int \<times> int \<Rightarrow> int \<times> int" where
  "worker_next g p = (case p of (i, j) \<Rightarrow>
     if j = MAX_TABLE_ENTRY g - 1 then (if i = MAX_TABLE_LEN g - 1 then 0 else i + 1, 0)
     else (i, j + 1))"

definition slot_index :: "globals \<Rightarrow> int \<Rightarrow> int \<Rightarrow> int" where
  "slot_index g i j = i * MAX_TABLE_ENTRY g + j"

text \<open>The count the worker stores in the \<open>short\<close> variable \<open>submitted[cur_cpuid]\<close>.\<close>

definition submitted_count :: "globals \<Rightarrow> esca_table \<Rightarrow> int \<Rightarrow> int \<Rightarrow> 16 word" where
  "submitted_count g h i j =
     (let head_index = slot_index g i j;
          tail_index = slot_index g (tail_table h) (tail_entry h)
      in word_of_int (if tail_index \<ge> head_index then tail_index - head_index
                      else MAX_TABLE_ENTRY g * MAX_TABLE_LEN g - head_index + tail_index))"

section \<open>Ranges\<close>

text \<open>
  The ring shapes for which indices stay inside the arrays of the header and the counter
  inside a \<open>short\<close>.
\<close>

definition ring_ok :: "globals \<Rightarrow> bool" where
  "ring_ok g \<longleftrightarrow> 1 \<le> MAX_TABLE_ENTRY g \<and> 1 \<le> MAX_TABLE_LEN g \<and>
     MAX_TABLE_LEN g \<le> TABLE_LEN_LIMIT \<and> MAX_TABLE_ENTRY g * MAX_TABLE_LEN g < 32768"

definition idx_ok :: "globals \<Rightarrow> int \<Rightarrow> int \<Rightarrow> bool" where
  "idx_ok g i j \<longleftrightarrow> 0 \<le> i \<and> i < MAX_TABLE_LEN g \<and> 0 \<le> j \<and> j < MAX_TABLE_ENTRY g"

definition hdr_ok :: "globals \<Rightarrow> esca_table \<Rightarrow> bool" where
  "hdr_ok g h \<longleftrightarrow> idx_ok g (head_table h) (head_entry h) \<and> idx_ok g (tail_table h) (tail_entry h)"

definition slots :: "globals \<Rightarrow> nat" where
  "slots g = nat (MAX_TABLE_ENTRY g * MAX_TABLE_LEN g)"

definition spos :: "globals \<Rightarrow> int \<Rightarrow> int \<Rightarrow> nat" where
  "spos g i j = nat (slot_index g i j)"

abbreviation tail_pos :: "globals \<Rightarrow> esca_table \<Rightarrow> nat" where
  "tail_pos g h \<equiv> spos g (tail_table h) (tail_entry h)"

abbreviation head_pos :: "globals \<Rightarrow> esca_table \<Rightarrow> nat" where
  "head_pos g h \<equiv> spos g (head_table h) (head_entry h)"

section \<open>A walk around a ring\<close>

locale cyclic_walk =
  fixes ok :: "'s \<Rightarrow> bool" and pos :: "'s \<Rightarrow> nat" and nxt :: "'s \<Rightarrow> 's" and n :: nat
  assumes ok_nxt: "ok s \<Longrightarrow> ok (nxt s)"
    and pos_less: "ok s \<Longrightarrow> pos s < n"
    and pos_nxt: "ok s \<Longrightarrow> pos (nxt s) = Suc (pos s) mod n"
begin

lemma ok_iter: "ok s \<Longrightarrow> ok ((nxt ^^ k) s)"
  by (induction k) (simp_all add: ok_nxt)

lemma pos_iter: "ok s \<Longrightarrow> pos ((nxt ^^ k) s) = (pos s + k) mod n"
proof (induction k)
  case 0
  then show ?case by (simp add: pos_less)
next
  case (Suc k)
  then show ?case by (simp add: pos_nxt ok_iter mod_Suc_eq)
qed

text \<open>One turn visits every slot once and ends where it began.\<close>

lemma pos_turn: "ok s \<Longrightarrow> pos ((nxt ^^ n) s) = pos s"
  by (simp add: pos_iter pos_less)

lemma pos_iter_inj:
  assumes "ok s" and "a < n" and "b < n" and "pos ((nxt ^^ a) s) = pos ((nxt ^^ b) s)"
  shows "a = b"
proof (rule ccontr)
  assume "a \<noteq> b"
  then consider "a < b" | "b < a" by linarith
  moreover have "(pos s + a) mod n = (pos s + b) mod n"
    using assms pos_iter by metis
  moreover have "a - b < n" "b - a < n" using assms(2,3) by linarith+
  ultimately show False
    using mod_neq_of_close [of "pos s + a" "pos s + b" n]
      mod_neq_of_close [of "pos s + b" "pos s + a" n]
    by cases auto
qed

end

section \<open>Both indices walk the same ring\<close>

lemma ring_okD:
  assumes "ring_ok g"
  shows "1 \<le> MAX_TABLE_ENTRY g" "1 \<le> MAX_TABLE_LEN g" "MAX_TABLE_LEN g \<le> 30"
    "MAX_TABLE_ENTRY g < 32768" "MAX_TABLE_LEN g < 32768" "0 < slots g" "slots g < 32768"
    "int (slots g) = MAX_TABLE_ENTRY g * MAX_TABLE_LEN g"
proof -
  let ?E = "MAX_TABLE_ENTRY g" and ?L = "MAX_TABLE_LEN g"
  from assms show a: "1 \<le> ?E" "1 \<le> ?L" "?L \<le> 30" by (simp_all add: ring_ok_def)
  then have "?E * 1 \<le> ?E * ?L" by (intro mult_left_mono) auto
  then show "?E < 32768" using assms unfolding ring_ok_def by linarith
  show "?L < 32768" using a by simp
  have p: "0 < ?E * ?L" using a by (intro mult_pos_pos) auto
  then show "0 < slots g" "int (slots g) = ?E * ?L" by (simp_all add: slots_def)
  show "slots g < 32768" using assms p unfolding slots_def ring_ok_def by linarith
qed

lemma slot_index_bounds:
  assumes "ring_ok g" and "idx_ok g i j"
  shows "0 \<le> slot_index g i j" and "slot_index g i j < MAX_TABLE_ENTRY g * MAX_TABLE_LEN g"
proof -
  let ?E = "MAX_TABLE_ENTRY g" and ?L = "MAX_TABLE_LEN g"
  have b: "0 \<le> i" "i \<le> ?L - 1" "0 \<le> j" "j < ?E" "1 \<le> ?E"
    using assms ring_okD(1) [of g] by (auto simp: idx_ok_def)
  have "i * ?E \<le> (?L - 1) * ?E" using b by (intro mult_right_mono) auto
  then have "i * ?E \<le> ?E * ?L - ?E" by (simp add: algebra_simps)
  then show "slot_index g i j < ?E * ?L" using b by (simp add: slot_index_def)
  have "0 \<le> i * ?E" using b by (intro mult_nonneg_nonneg) auto
  then show "0 \<le> slot_index g i j" using b by (simp add: slot_index_def)
qed

lemma spos_less: "ring_ok g \<Longrightarrow> idx_ok g i j \<Longrightarrow> spos g i j < slots g"
  using slot_index_bounds [of g i j] by (simp add: spos_def slots_def)

lemma int_spos: "ring_ok g \<Longrightarrow> idx_ok g i j \<Longrightarrow> int (spos g i j) = slot_index g i j"
  using slot_index_bounds [of g i j] by (simp add: spos_def)

text \<open>The two coordinates are the quotient and the remainder of the slot number.\<close>

lemma idx_of_spos:
  assumes "ring_ok g" and "idx_ok g i j"
  shows "i = int (spos g i j) div MAX_TABLE_ENTRY g" and "j = int (spos g i j) mod MAX_TABLE_ENTRY g"
  using assms by (simp_all add: int_spos slot_index_def idx_ok_def)

lemma spos_inj:
  assumes "ring_ok g" and "idx_ok g i j" and "idx_ok g i' j'" and "spos g i j = spos g i' j'"
  shows "i = i' \<and> j = j'"
  using idx_of_spos [OF assms(1,2)] idx_of_spos [OF assms(1,3)] assms(4) by simp

lemma worker_next_ok:
  assumes "ring_ok g" and "idx_ok g i j"
  shows "(case worker_next g (i, j) of (i', j') \<Rightarrow> idx_ok g i' j')"
  using assms ring_okD(1,2) [OF assms(1)] by (auto simp: worker_next_def idx_ok_def)

lemma spos_next:
  assumes r: "ring_ok g" and k: "idx_ok g i j" and w: "worker_next g (i, j) = (i', j')"
  shows "spos g i' j' = Suc (spos g i j) mod slots g"
proof -
  let ?E = "MAX_TABLE_ENTRY g" and ?L = "MAX_TABLE_LEN g"
  have k': "idx_ok g i' j'" using worker_next_ok [OF r k] w by simp
  note S = int_spos [OF r k] int_spos [OF r k'] ring_okD(8) [OF r]
  have lt: "spos g i j < slots g" using r k by (rule spos_less)
  show ?thesis
  proof (cases "j = ?E - 1 \<and> i = ?L - 1")
    case True
    then have z: "i' = 0" "j' = 0" using w by (auto simp: worker_next_def)
    from True have "?L = i + 1" by simp
    then have "?E * ?L = i * ?E + ?E" by (simp add: distrib_left)
    with True have "int (Suc (spos g i j)) = int (slots g)"
      using S by (simp add: slot_index_def)
    then have "Suc (spos g i j) = slots g" by (simp only: of_nat_eq_iff)
    with z show ?thesis by (simp add: spos_def slot_index_def)
  next
    case False
    then have "slot_index g i' j' = slot_index g i j + 1"
      using w by (auto simp: worker_next_def slot_index_def algebra_simps split: if_splits)
    then have "int (spos g i' j') = int (Suc (spos g i j))" using S by simp
    then have e: "spos g i' j' = Suc (spos g i j)" by (simp only: of_nat_eq_iff)
    with spos_less [OF r k'] show ?thesis by simp
  qed
qed

text \<open>The producer's step is the consumer's step on the tail: no \<open>short\<close> wraps around.\<close>

lemma advance_tail_next:
  assumes "ring_ok g" and "hdr_ok g h"
  shows "(tail_table (advance_tail g h), tail_entry (advance_tail g h)) =
    worker_next g (tail_table h, tail_entry h)"
  using assms(2) ring_okD(3,4) [OF assms(1)]
  by (auto simp: advance_tail_def worker_next_def next_table_def hdr_ok_def idx_ok_def short_of_id)

lemma advance_tail_frame [simp]:
  "head_table (advance_tail g h) = head_table h" "head_entry (advance_tail g h) = head_entry h"
  "tables (advance_tail g h) = tables h" "user_tables (advance_tail g h) = user_tables h"
  "flags (advance_tail g h) = flags h" "idle_time (advance_tail g h) = idle_time h"
  by (simp_all add: advance_tail_def)

lemma hdr_ok_advance:
  assumes "ring_ok g" and "hdr_ok g h"
  shows "hdr_ok g (advance_tail g h)"
  using worker_next_ok [OF assms(1), of "tail_table h" "tail_entry h"]
    advance_tail_next [OF assms] assms(2)
  by (simp add: hdr_ok_def split: prod.splits)

interpretation consumer: cyclic_walk
  "\<lambda>p. ring_ok g \<and> idx_ok g (fst p) (snd p)" "\<lambda>p. spos g (fst p) (snd p)" "worker_next g" "slots g"
  for g
proof (unfold_locales, goal_cases)
  case (1 p)
  then show ?case using worker_next_ok [of g "fst p" "snd p"] by (auto split: prod.splits)
next
  case (2 p)
  then show ?case by (simp add: spos_less)
next
  case (3 p)
  then show ?case by (metis prod.collapse spos_next)
qed

interpretation producer: cyclic_walk
  "\<lambda>h. ring_ok g \<and> hdr_ok g h" "tail_pos g" "advance_tail g" "slots g"
  for g
proof (unfold_locales, goal_cases)
  case (1 h)
  then show ?case by (simp add: hdr_ok_advance)
next
  case (2 h)
  then show ?case by (simp add: hdr_ok_def spos_less)
next
  case (3 h)
  then show ?case
    using spos_next [of g "tail_table h" "tail_entry h"] advance_tail_next [of g h]
    by (simp add: hdr_ok_def)
qed

section \<open>Counting what was submitted\<close>

lemma unat_word16: "0 \<le> x \<Longrightarrow> x < 32768 \<Longrightarrow> unat (word_of_int x :: 16 word) = nat x"
  by (simp add: unat_eq_nat_uint uint_word_of_int_eq take_bit_int_eq_self)

lemma submitted_count_distance:
  assumes r: "ring_ok g" and k: "idx_ok g i j" and t: "idx_ok g (tail_table h) (tail_entry h)"
    and a: "spos g i j = a mod slots g" and b: "tail_pos g h = b mod slots g"
    and ab: "a \<le> b" "b - a < slots g"
  shows "unat (submitted_count g h i j) = b - a"
proof -
  let ?H = "slot_index g i j" and ?T = "slot_index g (tail_table h) (tail_entry h)"
  let ?N = "MAX_TABLE_ENTRY g * MAX_TABLE_LEN g"
  note S = int_spos [OF r k] int_spos [OF r t] ring_okD(8) [OF r]
  have "int (b - a) = (if ?H \<le> ?T then ?T - ?H else ?N - ?H + ?T)"
    using cyclic_distance [OF ab] S spos_less [OF r k]
    unfolding a [symmetric] b [symmetric] by (auto simp: of_nat_diff)
  then have "submitted_count g h i j = word_of_int (int (b - a))"
    by (simp add: submitted_count_def)
  with ab(2) ring_okD(7) [OF r] show ?thesis
    using unat_word16 [of "int (b - a)"] by simp
qed

lemma wait_full_iff:
  assumes r: "ring_ok g" and h: "hdr_ok g h" and e: "tail_entry h \<noteq> MAX_TABLE_ENTRY g - 1"
  shows "wait_full h \<longleftrightarrow> Suc (tail_pos g h) mod slots g = head_pos g h"
proof -
  have t: "idx_ok g (tail_table h) (tail_entry h)" and d: "idx_ok g (head_table h) (head_entry h)"
    using h by (simp_all add: hdr_ok_def)
  have n: "worker_next g (tail_table h, tail_entry h) = (tail_table h, tail_entry h + 1)"
    using e by (simp add: worker_next_def)
  have ok: "idx_ok g (tail_table h) (tail_entry h + 1)" using t e by (auto simp: idx_ok_def)
  have "Suc (tail_pos g h) mod slots g = spos g (tail_table h) (tail_entry h + 1)"
    using spos_next [OF r t n] by simp
  then show ?thesis using spos_inj [OF r ok d] by (auto simp: wait_full_def)
qed

lemma wait_full_last:
  assumes "hdr_ok g h" and "tail_entry h = MAX_TABLE_ENTRY g - 1"
  shows "\<not> wait_full h"
  using assms by (auto simp: wait_full_def hdr_ok_def idx_ok_def)

section \<open>A sample ring\<close>

text \<open>Two tables of 64 entries, one process with two kernel workers.\<close>

definition sample_globals :: globals where
  "sample_globals = \<lparr>ESCA_LOCALIZE = 1, MAX_TABLE_ENTRY = 64, MAX_TABLE_LEN = 2, MAX_USR_WORKER = 1,
     MAX_CPU_NUM = 2, RATIO = 2, DEFAULT_IDLE_TIME = 150, AFF_OFF = 0\<rparr>"

definition sample_hdr :: "int \<Rightarrow> int \<Rightarrow> int \<Rightarrow> int \<Rightarrow> esca_table" where
  "sample_hdr ht he tt te = \<lparr>tables = replicate 30 None, user_tables = replicate 30 None,
     head_table = ht, tail_table = tt, head_entry = he, tail_entry = te, idle_time = 0, flags = 0\<rparr>"

lemma sample_globals_simps [simp]:
  "MAX_TABLE_ENTRY sample_globals = 64" "MAX_TABLE_LEN sample_globals = 2" "RATIO sample_globals = 2"
  "MAX_USR_WORKER sample_globals = 1" "MAX_CPU_NUM sample_globals = 2" "slots sample_globals = 128"
  "DEFAULT_IDLE_TIME sample_globals = 150" "ring_ok sample_globals"
  by (simp_all add: sample_globals_def slots_def ring_ok_def)

lemma sample_hdr_simps [simp]:
  "head_table (sample_hdr ht he tt te) = ht" "head_entry (sample_hdr ht he tt te) = he"
  "tail_table (sample_hdr ht he tt te) = tt" "tail_entry (sample_hdr ht he tt te) = te"
  "flags (sample_hdr ht he tt te) = 0"
  by (simp_all add: sample_hdr_def)

lemma sample_hdr_ok:
  "0 \<le> ht \<and> ht < 2 \<and> 0 \<le> he \<and> he < 64 \<and> 0 \<le> tt \<and> tt < 2 \<and> 0 \<le> te \<and> te < 64 \<Longrightarrow>
   hdr_ok sample_globals (sample_hdr ht he tt te)"
  by (simp add: hdr_ok_def idx_ok_def)

section \<open>Properties\<close>

text \<open>
  C19: when \<open>update_index\<close> returns, the tail has moved to the next slot of the ring, the head
  and every other field of the header is as before, and all four indices are in range.
\<close>

theorem update_index_spec:
  assumes "ring_ok g" and "hdr_ok g h" and "update_index g h = Inr h'"
  shows "hdr_ok g h' \<and> tail_pos g h' = Suc (tail_pos g h) mod slots g \<and>
    h'\<lparr>tail_table := tail_table h, tail_entry := tail_entry h\<rparr> = h"
proof -
  have h': "h' = advance_tail g h" using assms(3) by (simp add: update_index_def split: if_splits)
  show ?thesis
    using producer.pos_nxt [of g h] hdr_ok_advance [of g h] assms(1,2)
    unfolding h' by (simp add: advance_tail_def)
qed

theorem update_index_spec_witness:
  "\<exists>h'. update_index sample_globals (sample_hdr 0 0 0 63) = Inr h' \<and> tail_pos sample_globals h' = 64"
proof -
  have "update_index sample_globals (sample_hdr 0 0 0 63) = Inr (advance_tail sample_globals (sample_hdr 0 0 0 63))"
    by (simp add: update_index_def wait_full_def)
  with update_index_spec [OF _ _ this] sample_hdr_ok [of 0 0 0 63] show ?thesis
    by (simp add: spos_def slot_index_def)
qed

text \<open>
  Away from the last entry of a table, the busy-wait loop of \<open>update_index\<close> is exactly the
  test that the ring is full: it spins if and only if the slot after the tail is the head.
\<close>

theorem update_index_blocks_iff:
  assumes "ring_ok g" and "hdr_ok g h" and "tail_entry h \<noteq> MAX_TABLE_ENTRY g - 1"
  shows "update_index g h = Inl Blocked \<longleftrightarrow> Suc (tail_pos g h) mod slots g = head_pos g h"
  using wait_full_iff [OF assms] by (simp add: update_index_def)

theorem update_index_blocks_iff_witness:
  "update_index sample_globals (sample_hdr 1 5 1 4) = Inl Blocked"
  using update_index_blocks_iff [of sample_globals "sample_hdr 1 5 1 4"] sample_hdr_ok [of 1 5 1 4]
  by (simp add: spos_def slot_index_def)

text \<open>
  At the last entry of a table the loop never spins. If the ring is full there, the tail
  moves onto the head, and the worker that looks at the full ring counts no submitted entry.
\<close>

theorem update_index_cross_table:
  assumes "ring_ok g" and "hdr_ok g h" and "tail_entry h = MAX_TABLE_ENTRY g - 1"
    and "Suc (tail_pos g h) mod slots g = head_pos g h"
  shows "\<exists>h'. update_index g h = Inr h' \<and> tail_pos g h' = head_pos g h' \<and>
    submitted_count g h' (head_table h') (head_entry h') = 0"
proof -
  let ?h' = "advance_tail g h"
  have u: "update_index g h = Inr ?h'"
    using wait_full_last [OF assms(2,3)] by (simp add: update_index_def)
  have ok: "hdr_ok g ?h'" using assms(1,2) by (rule hdr_ok_advance)
  have e: "tail_pos g ?h' = head_pos g ?h'"
    using producer.pos_nxt [of g h] assms(1,2,4) by simp
  have "unat (submitted_count g ?h' (head_table ?h') (head_entry ?h')) = head_pos g ?h' - head_pos g ?h'"
    using ok e assms(1) spos_less ring_okD(6) [OF assms(1)]
    by (intro submitted_count_distance) (auto simp: hdr_ok_def)
  with u e show ?thesis by (simp add: unat_eq_zero)
qed

theorem update_index_cross_table_witness:
  "\<exists>h'. update_index sample_globals (sample_hdr 1 0 0 63) = Inr h' \<and>
    tail_pos sample_globals h' = head_pos sample_globals h' \<and>
    submitted_count sample_globals h' (head_table h') (head_entry h') = 0"
  using update_index_cross_table [of sample_globals "sample_hdr 1 0 0 63"] sample_hdr_ok [of 1 0 0 63]
  by (simp add: spos_def slot_index_def)

text \<open>
  The worker's advance and \<open>update_index\<close> walk the same ring: \<open>k\<close> steps of either from the
  same place reach the same slot, \<open>k\<close> further on; the first \<open>slots g\<close> steps visit pairwise
  different slots and then the walk is back where it started.
\<close>

theorem producer_consumer_walk:
  assumes "ring_ok g" and "hdr_ok g h" and "k < slots g" and "k' < slots g" and "k \<noteq> k'"
  shows "(worker_next g ^^ k) (tail_table h, tail_entry h) =
      (tail_table ((advance_tail g ^^ k) h), tail_entry ((advance_tail g ^^ k) h)) \<and>
    tail_pos g ((advance_tail g ^^ k) h) = (tail_pos g h + k) mod slots g \<and>
    tail_pos g ((advance_tail g ^^ k) h) \<noteq> tail_pos g ((advance_tail g ^^ k') h) \<and>
    tail_pos g ((advance_tail g ^^ slots g) h) = tail_pos g h"
proof -
  let ?p = "\<lambda>h. (tail_table h, tail_entry h)"
  have "(worker_next g ^^ k) (?p h) = ?p ((advance_tail g ^^ k) h)"
  proof (induction k)
    case (Suc k)
    have "hdr_ok g ((advance_tail g ^^ k) h)"
      using producer.ok_iter [of g h k] assms(1,2) by simp
    with Suc show ?case using advance_tail_next [OF assms(1)] by simp
  qed simp
  then show ?thesis
    using producer.pos_iter [of g h k] producer.pos_iter_inj [of g h k k'] producer.pos_turn [of g h]
      assms by auto
qed

theorem producer_consumer_walk_witness:
  "tail_pos sample_globals ((advance_tail sample_globals ^^ 3) (sample_hdr 0 0 1 62)) = 1 \<and>
   tail_pos sample_globals ((advance_tail sample_globals ^^ 128) (sample_hdr 0 0 1 62)) = 126"
  using producer_consumer_walk [of sample_globals "sample_hdr 0 0 1 62" 3 5] sample_hdr_ok [of 0 0 1 62]
  by (simp add: spos_def slot_index_def)

end
