(* ===== verification/Shared_Layout.thy ===== *)
theory Shared_Layout
  imports Ring_Index
begin

text \<open>
  How a user worker and its kernel workers come to share their tables: \<open>init_worker\<close>
  (\<open>wrapper/preload.c\<close>) allocates one page of headers and the table buffers, the system call
  \<open>sys_esca_register\<close> (\<open>module/lioo.c\<close>) pins and maps them.
\<close>

section \<open>The state of the process and of the module\<close>

record iovec =
  iov_base :: "64 word"
  iov_len :: "64 word"

record msghdr =
  msg_name :: "64 word"
  msg_namelen :: "32 word"
  msg_iov :: "64 word"
  msg_iovlen :: "64 word"
  msg_control :: "64 word"
  msg_controllen :: "64 word"
  msg_flags :: "32 word"

text \<open>A header pointer: the page of headers it points into and the element of that page.\<close>

type_synonym hptr = "int \<times> int"

record saio =
  mem :: "int \<Rightarrow> int \<Rightarrow> chan"
  pgsize :: int
  \<comment> \<open>the process\<close>
  glob :: globals
  in_segment :: int
  batch_num :: int
  syscall_num :: int
  this_worker_id :: int
  utable :: "int \<Rightarrow> hptr option"
  mpool_addr :: "64 word"
  iovpool_addr :: "64 word"
  msgpool_addr :: "64 word"
  pool_offset :: "64 word"
  iov_offset :: "64 word"
  msg_offset :: "64 word"
  mpool :: "nat \<Rightarrow> 8 word"
  iovpool :: "nat \<Rightarrow> iovec"
  msgpool :: "nat \<Rightarrow> msghdr"
  off_arr :: "int \<Rightarrow> int \<Rightarrow> 64 word"
  \<comment> \<open>the module\<close>
  kglob :: globals
  ktable :: "int \<Rightarrow> hptr option"
  submitted :: "int \<Rightarrow> 16 word"
  worker_task :: "int \<Rightarrow> bool"

text \<open>
  A header is reached through a pointer only while it lies in its page; the arrays of pointers
  have \<open>CPU_NUM_LIMIT\<close> elements.
\<close>

definition hdr_at :: "saio \<Rightarrow> hptr \<Rightarrow> chan res" where
  "hdr_at s p = (case p of (pg, k) \<Rightarrow>
     if 0 \<le> k \<and> (k + 1) * sizeof_table \<le> pgsize s then Inr (mem s pg k) else Inl OutOfBounds)"

definition put_hdr :: "hptr \<Rightarrow> chan \<Rightarrow> saio \<Rightarrow> saio" where
  "put_hdr p ch s = s\<lparr>mem := (mem s)(fst p := (mem s (fst p))(snd p := ch))\<rparr>"

definition cpu_index :: "int \<Rightarrow> unit res" where
  "cpu_index i = guard_res (0 \<le> i \<and> i < CPU_NUM_LIMIT) OutOfBounds"

definition ktable_at :: "saio \<Rightarrow> int \<Rightarrow> hptr res" where
  "ktable_at s i = bind_res (cpu_index i) (\<lambda>_. deref (ktable s i))"

definition utable_at :: "saio \<Rightarrow> int \<Rightarrow> hptr res" where
  "utable_at s i = bind_res (cpu_index i) (\<lambda>_. deref (utable s i))"

section \<open>Registering a table\<close>

text \<open>\<open>npin\<close> pages of the buffer were pinned; the code maps \<open>MAX_TABLE_LEN\<close> of them regardless.\<close>

definition kmap_one :: "int \<Rightarrow> int \<Rightarrow> chan \<Rightarrow> chan res" where
  "kmap_one npin j ch =
     bind_res (guard_res (j < TABLE_LEN_LIMIT) OutOfBounds) (\<lambda>_.
     bind_res (guard_res (j < npin) NullDeref) (\<lambda>_.
     Inr (ch\<lparr>hdr := (hdr ch)\<lparr>tables := (tables (hdr ch))[nat j := Some j]\<rparr>\<rparr>)))"

definition kmap_tables :: "globals \<Rightarrow> int \<Rightarrow> chan \<Rightarrow> chan res" where
  "kmap_tables g npin = fold_res (kmap_one npin) [0..MAX_TABLE_LEN g - 1]"

definition clear_one :: "int \<Rightarrow> int \<Rightarrow> chan \<Rightarrow> chan res" where
  "clear_one j k ch =
     bind_res (kernel_cell ch j k) (\<lambda>c.
     Inr (write_cell c ((read_cell ch c)\<lparr>rstatus := BENTRY_EMPTY\<rparr>) ch))"

definition clear_entries :: "globals \<Rightarrow> chan \<Rightarrow> chan res" where
  "clear_entries g =
     fold_res (\<lambda>j. fold_res (clear_one j) [0..MAX_TABLE_ENTRY g - 1]) [0..MAX_TABLE_LEN g - 1]"

text \<open>
  What the environment does for a registration: how many pages \<open>get_user_pages\<close> pinned and
  the conversion \<open>msecs_to_jiffies\<close>.
\<close>

definition sys_esca_register ::
  "(int \<Rightarrow> 32 word) \<Rightarrow> int \<Rightarrow> int option \<Rightarrow> int \<Rightarrow> saio \<Rightarrow> saio res" where
  "sys_esca_register msecs_to_jiffies npin header wid s =
     (let g = kglob s in
     bind_res (case header of
         Some page \<Rightarrow>
           fold_res (\<lambda>i s. bind_res (cpu_index i) (\<lambda>_.
             Inr (s\<lparr>ktable := (ktable s)(i := Some (page, i - wid))\<rparr>))) [wid..wid + RATIO g - 1] s
       | None \<Rightarrow>
           bind_res (cpu_index wid) (\<lambda>_. if ktable s wid = None then Inl Blocked else Inr s)) (\<lambda>s.
     bind_res (ktable_at s wid) (\<lambda>p.
     bind_res (hdr_at s p) (\<lambda>ch.
     bind_res (kmap_tables g npin ch) (\<lambda>ch.
     bind_res (clear_entries g ch) (\<lambda>ch.
     let h = (hdr ch)\<lparr>head_table := 0, tail_table := 0, head_entry := 0, tail_entry := 0,
               flags := 0 OR ESCA_WORKER_NEED_WAKEUP,
               idle_time := msecs_to_jiffies (DEFAULT_IDLE_TIME g)\<rparr> in
     Inr ((put_hdr p (ch\<lparr>hdr := h\<rparr>) s)
       \<lparr>submitted := (submitted s)(wid := 0), worker_task := (worker_task s)(wid := True)\<rparr>)))))))"

section \<open>Starting a user worker\<close>

text \<open>
  The environment of \<open>init_worker\<close>: the number of the fresh page of headers (\<open>None\<close> when
  \<open>aligned_alloc\<close> failed), the contents of the fresh memory behind it, the buffers for the
  tables (\<open>None\<close> likewise), the pages pinned per registration, and the three pools.
\<close>

record alloc_env =
  header_page :: "int option"
  table_buf :: "int \<Rightarrow> (int \<Rightarrow> int \<Rightarrow> esca_table_entry) option"
  pinned :: "int \<Rightarrow> int"
  pool_bases :: "64 word \<times> 64 word \<times> 64 word"
  to_jiffies :: "int \<Rightarrow> 32 word"

definition set_user_one :: "globals \<Rightarrow> int \<Rightarrow> chan \<Rightarrow> chan res" where
  "set_user_one g j ch =
     bind_res (guard_res (j < TABLE_LEN_LIMIT) OutOfBounds) (\<lambda>_.
     Inr (ch\<lparr>hdr := (hdr ch)\<lparr>user_tables :=
       (user_tables (hdr ch))[nat j := Some (j * MAX_TABLE_ENTRY g)]\<rparr>\<rparr>))"

definition set_user_tables :: "globals \<Rightarrow> chan \<Rightarrow> chan res" where
  "set_user_tables g = fold_res (set_user_one g) [0..MAX_TABLE_LEN g - 1]"

text \<open>
  The pointer to the header of table \<open>i\<close>: the first table of the set gets the fresh page, the
  others the following elements of it.
\<close>

definition set_utable :: "int option \<Rightarrow> int \<Rightarrow> int \<Rightarrow> (int \<Rightarrow> hptr option) \<Rightarrow> int \<Rightarrow> hptr option" where
  "set_utable header first i ut =
     (let ut = (if i = first then ut(i := map_option (\<lambda>pg. (pg, 0)) header) else ut)
      in ut(i := map_option (\<lambda>(pg, k). (pg, k + (i - first))) (ut first)))"

text \<open>The fresh buffer becomes the memory behind the header the module registers.\<close>

definition attach_buf :: "globals \<Rightarrow> int \<Rightarrow> (int \<Rightarrow> int \<Rightarrow> esca_table_entry) \<Rightarrow> saio \<Rightarrow> saio" where
  "attach_buf g i buf s =
     (case utable s i of
        None \<Rightarrow> s
      | Some (pg, k) \<Rightarrow>
          put_hdr (pg, k) ((mem s pg k)\<lparr>ents := buf, psz := pgsize s, npages := MAX_TABLE_LEN g\<rparr>) s)"

text \<open>
  One turn of the loop of \<open>init_worker\<close>. The boolean tells whether the loop goes on: a failed
  buffer allocation leaves the function.
\<close>

definition init_one :: "alloc_env \<Rightarrow> int \<Rightarrow> int \<Rightarrow> saio \<Rightarrow> (bool \<times> saio) res" where
  "init_one env idx i s =
     (let g = glob s; first = idx * RATIO g;
          header = (if i = first then header_page env else None) in
     bind_res (cpu_index i) (\<lambda>_.
     let s = s\<lparr>utable := set_utable header first i (utable s)\<rparr> in
     case table_buf env i of
       None \<Rightarrow> Inr (False, s)
     | Some buf \<Rightarrow>
         bind_res (sys_esca_register (to_jiffies env) (pinned env i) header i (attach_buf g i buf s)) (\<lambda>s.
         bind_res (utable_at s i) (\<lambda>p.
         bind_res (hdr_at s p) (\<lambda>ch.
         bind_res (set_user_tables g ch) (\<lambda>ch.
         Inr (True, put_hdr p ch s)))))))"

definition init_worker :: "alloc_env \<Rightarrow> int \<Rightarrow> saio \<Rightarrow> saio res" where
  "init_worker env idx s =
     (let s = s\<lparr>in_segment := 0, batch_num := 0, syscall_num := 0, this_worker_id := idx\<rparr>;
          g = glob s in
     if idx \<ge> MAX_USR_WORKER g then Inr s
     else bind_res (loop_res (init_one env idx) [idx * RATIO g..idx * RATIO g + RATIO g - 1] s) (\<lambda>(go, s).
       Inr (if \<not> go then s
            else (case pool_bases env of (m, v, h) \<Rightarrow>
              s\<lparr>mpool_addr := m, pool_offset := 0, iovpool_addr := v, iov_offset := 0,
                msgpool_addr := h, msg_offset := 0\<rparr>))))"

section \<open>Where the two sides see the same entry\<close>

definition layout_ok :: "int \<Rightarrow> globals \<Rightarrow> bool" where
  "layout_ok pg g \<longleftrightarrow> ring_ok g \<and> MAX_TABLE_ENTRY g * sizeof_entry \<le> pg \<and>
     (MAX_TABLE_LEN g = 1 \<or> MAX_TABLE_ENTRY g * sizeof_entry = pg)"

text \<open>The pointers of a registered header.\<close>

definition mapped :: "globals \<Rightarrow> chan \<Rightarrow> bool" where
  "mapped g ch \<longleftrightarrow> npages ch = MAX_TABLE_LEN g \<and>
     (\<forall>j \<in> {0..<MAX_TABLE_LEN g}. tables (hdr ch) ! nat j = Some j \<and>
        user_tables (hdr ch) ! nat j = Some (j * MAX_TABLE_ENTRY g))"

definition chan_ok :: "globals \<Rightarrow> chan \<Rightarrow> bool" where
  "chan_ok g ch \<longleftrightarrow> layout_ok (psz ch) g \<and> mapped g ch"

lemma epp_ge:
  assumes "MAX_TABLE_ENTRY g * sizeof_entry \<le> psz ch"
  shows "MAX_TABLE_ENTRY g \<le> epp ch"
  using assms zdiv_mono1 [of "MAX_TABLE_ENTRY g * 64" "psz ch" 64] by (simp add: epp_def)

lemma kernel_cell_ok:
  assumes "\<forall>j \<in> {0..<MAX_TABLE_LEN g}. tables (hdr ch) ! nat j = Some j" and "MAX_TABLE_ENTRY g * sizeof_entry \<le> psz ch"
    and "MAX_TABLE_LEN g \<le> TABLE_LEN_LIMIT" and "idx_ok g i j"
  shows "kernel_cell ch i j = Inr (i, j)"
  using assms epp_ge [of g ch] by (simp add: kernel_cell_def idx_ok_def)

lemma user_cell_ok:
  assumes "mapped g ch" and "MAX_TABLE_LEN g \<le> TABLE_LEN_LIMIT" and "idx_ok g i j"
    and "MAX_TABLE_ENTRY g * sizeof_entry \<le> psz ch"
  shows "user_cell ch i j = Inr ((i * MAX_TABLE_ENTRY g + j) div epp ch,
    (i * MAX_TABLE_ENTRY g + j) mod epp ch)"
proof -
  let ?E = "MAX_TABLE_ENTRY g" and ?L = "MAX_TABLE_LEN g"
  have b: "0 \<le> i" "i \<le> ?L - 1" "0 \<le> j" "j < ?E" using assms(3) by (auto simp: idx_ok_def)
  have "i * ?E \<le> (?L - 1) * ?E" using b by (intro mult_right_mono) auto
  then have "i * ?E + j < ?L * ?E" using b by (simp add: algebra_simps)
  also have "\<dots> \<le> ?L * epp ch" using b epp_ge [OF assms(4)] by (intro mult_left_mono) auto
  finally have "i * ?E + j < ?L * epp ch" .
  moreover have "0 \<le> i * ?E" using b by (intro mult_nonneg_nonneg) auto
  ultimately show ?thesis
    using assms(1,2) b by (simp add: user_cell_def mapped_def Let_def)
qed

lemma chan_cells:
  assumes "chan_ok g ch" and "idx_ok g i j"
  shows "user_cell ch i j = Inr (i, j)" and "kernel_cell ch i j = Inr (i, j)"
proof -
  from assms(1) have l: "ring_ok g" "MAX_TABLE_ENTRY g * sizeof_entry \<le> psz ch" "mapped g ch"
      "MAX_TABLE_LEN g = 1 \<or> MAX_TABLE_ENTRY g * sizeof_entry = psz ch"
    by (auto simp: chan_ok_def layout_ok_def)
  have lim: "MAX_TABLE_LEN g \<le> TABLE_LEN_LIMIT" using ring_okD(3) [OF l(1)] by simp
  show "kernel_cell ch i j = Inr (i, j)"
    using l lim assms(2) by (intro kernel_cell_ok [of g]) (auto simp: mapped_def)
  have b: "0 \<le> i" "i < MAX_TABLE_LEN g" "0 \<le> j" "j < MAX_TABLE_ENTRY g"
    using assms(2) by (auto simp: idx_ok_def)
  show "user_cell ch i j = Inr (i, j)"
  proof (cases "MAX_TABLE_LEN g = 1")
    case True
    with b have "i = 0" by simp
    with user_cell_ok [OF l(3) lim assms(2) l(2)] b epp_ge [OF l(2)] show ?thesis
      by simp
  next
    case False
    with l(4) have "epp ch = MAX_TABLE_ENTRY g" by (simp add: epp_def)
    with user_cell_ok [OF l(3) lim assms(2) l(2)] b show ?thesis by simp
  qed
qed

section \<open>What registration and start-up leave behind\<close>

text \<open>Setting the first \<open>n\<close> elements of a pointer array one after the other.\<close>

definition ptrs_set :: "(int \<Rightarrow> int) \<Rightarrow> int \<Rightarrow> int option list \<Rightarrow> bool" where
  "ptrs_set f n T \<longleftrightarrow> length T = nat TABLE_LEN_LIMIT \<and> (\<forall>j \<in> {0..<n}. T ! nat j = Some (f j))"

lemma ptrs_set_step:
  assumes "ptrs_set f k T" and "0 \<le> k" and "k < TABLE_LEN_LIMIT"
  shows "ptrs_set f (k + 1) (T[nat k := Some (f k)])"
  using assms by (auto simp: ptrs_set_def nth_list_update eq_nat_nat_iff)

lemma kmap_tables_ok:
  assumes "1 \<le> MAX_TABLE_LEN g" and "MAX_TABLE_LEN g \<le> TABLE_LEN_LIMIT" and "MAX_TABLE_LEN g \<le> npin"
    and "length (tables (hdr ch)) = nat TABLE_LEN_LIMIT"
  shows "\<exists>T. kmap_tables g npin ch = Inr (ch\<lparr>hdr := (hdr ch)\<lparr>tables := T\<rparr>\<rparr>) \<and>
    ptrs_set (\<lambda>j. j) (MAX_TABLE_LEN g) T"
proof -
  let ?P = "\<lambda>k ch'. \<exists>T. ch' = ch\<lparr>hdr := (hdr ch)\<lparr>tables := T\<rparr>\<rparr> \<and> ptrs_set (\<lambda>j. j) k T"
  have "\<exists>ch'. kmap_tables g npin ch = Inr ch' \<and> ?P (MAX_TABLE_LEN g) ch'"
    unfolding kmap_tables_def
  proof (rule fold_res_upto_rule)
    show "?P 0 ch" using assms(4) by (intro exI [of _ "tables (hdr ch)"]) (simp add: ptrs_set_def)
  next
    fix k ch' assume k: "0 \<le> k" "k < MAX_TABLE_LEN g" and "?P k ch'"
    then show "\<exists>s'. kmap_one npin k ch' = Inr s' \<and> ?P (k + 1) s'"
      using assms(2,3) ptrs_set_step [of "\<lambda>j. j" k] by (auto simp: kmap_one_def)
  qed (use assms in simp)
  then show ?thesis by blast
qed

lemma set_user_tables_ok:
  assumes "1 \<le> MAX_TABLE_LEN g" and "MAX_TABLE_LEN g \<le> TABLE_LEN_LIMIT"
    and "length (user_tables (hdr ch)) = nat TABLE_LEN_LIMIT"
  shows "\<exists>T. set_user_tables g ch = Inr (ch\<lparr>hdr := (hdr ch)\<lparr>user_tables := T\<rparr>\<rparr>) \<and>
    ptrs_set (\<lambda>j. j * MAX_TABLE_ENTRY g) (MAX_TABLE_LEN g) T"
proof -
  let ?f = "\<lambda>j. j * MAX_TABLE_ENTRY g"
  let ?P = "\<lambda>k ch'. \<exists>T. ch' = ch\<lparr>hdr := (hdr ch)\<lparr>user_tables := T\<rparr>\<rparr> \<and> ptrs_set ?f k T"
  have "\<exists>ch'. set_user_tables g ch = Inr ch' \<and> ?P (MAX_TABLE_LEN g) ch'"
    unfolding set_user_tables_def
  proof (rule fold_res_upto_rule)
    show "?P 0 ch"
      using assms(3) by (intro exI [of _ "user_tables (hdr ch)"]) (simp add: ptrs_set_def)
  next
    fix k ch' assume k: "0 \<le> k" "k < MAX_TABLE_LEN g" and "?P k ch'"
    then show "\<exists>s'. set_user_one g k ch' = Inr s' \<and> ?P (k + 1) s'"
      using assms(2) ptrs_set_step [of ?f k] by (auto simp: set_user_one_def)
  qed (use assms in simp)
  then show ?thesis by blast
qed

text \<open>The entries with \<open>rstatus\<close> cleared where the predicate holds.\<close>

definition cleared :: "(int \<Rightarrow> int \<Rightarrow> bool) \<Rightarrow> chan \<Rightarrow> chan" where
  "cleared Q ch = ch\<lparr>ents := (\<lambda>i j. if Q i j then (ents ch i j)\<lparr>rstatus := BENTRY_EMPTY\<rparr> else ents ch i j)\<rparr>"

lemma cleared_simps [simp]:
  "cleared Q (ch\<lparr>hdr := h\<rparr>) = (cleared Q ch)\<lparr>hdr := h\<rparr>" "hdr (cleared Q ch) = hdr ch"
  "psz (cleared Q ch) = psz ch" "npages (cleared Q ch) = npages ch"
  "ents (cleared Q ch) i j = (if Q i j then (ents ch i j)\<lparr>rstatus := BENTRY_EMPTY\<rparr> else ents ch i j)"
  by (simp_all add: cleared_def cong: if_cong)

lemma clear_one_ok:
  assumes "kernel_cell ch j k = Inr (j, k)"
  shows "clear_one j k (cleared Q ch) = Inr (cleared (\<lambda>i l. Q i l \<or> i = j \<and> l = k) ch)"
  using assms
  by (auto simp: clear_one_def cleared_def kernel_cell_def epp_def write_cell_def read_cell_def fun_eq_iff)

lemma clear_entries_ok:
  assumes "1 \<le> MAX_TABLE_LEN g" and "1 \<le> MAX_TABLE_ENTRY g"
    and c: "\<And>i j. idx_ok g i j \<Longrightarrow> kernel_cell ch i j = Inr (i, j)"
  shows "clear_entries g ch = Inr (cleared (idx_ok g) ch)"
proof -
  let ?Q = "\<lambda>a b i j. idx_ok g i j \<and> (i < a \<or> i = a \<and> j < b)"
  have "?Q 0 0 = (\<lambda>_ _. False)" by (auto simp: fun_eq_iff idx_ok_def)
  then have z: "cleared (?Q 0 0) ch = ch" by (simp add: cleared_def)
  have "\<exists>ch'. clear_entries g (cleared (?Q 0 0) ch) = Inr ch' \<and> ch' = cleared (?Q (MAX_TABLE_LEN g) 0) ch"
    unfolding clear_entries_def
  proof (rule fold_res_upto_rule)
    fix a ch' assume a: "0 \<le> a" "a < MAX_TABLE_LEN g" and ch': "ch' = cleared (?Q a 0) ch"
    have "\<exists>ch''. fold_res (clear_one a) [0..MAX_TABLE_ENTRY g - 1] ch' = Inr ch'' \<and>
        ch'' = cleared (?Q a (MAX_TABLE_ENTRY g)) ch"
    proof (rule fold_res_upto_rule)
      fix b ch'' assume b: "0 \<le> b" "b < MAX_TABLE_ENTRY g" and ch'': "ch'' = cleared (?Q a b) ch"
      have "idx_ok g a b" using a b by (simp add: idx_ok_def)
      moreover from this have "(\<lambda>i l. ?Q a b i l \<or> i = a \<and> l = b) = ?Q a (b + 1)"
        by (auto simp: fun_eq_iff)
      ultimately show "\<exists>s'. clear_one a b ch'' = Inr s' \<and> s' = cleared (?Q a (b + 1)) ch"
        using clear_one_ok [OF c, of a b "?Q a b"] ch'' by simp
    qed (use ch' assms in auto)
    moreover have "?Q a (MAX_TABLE_ENTRY g) = ?Q (a + 1) 0" by (auto simp: fun_eq_iff idx_ok_def)
    ultimately show "\<exists>s'. fold_res (clear_one a) [0..MAX_TABLE_ENTRY g - 1] ch' = Inr s' \<and>
        s' = cleared (?Q (a + 1) 0) ch" by simp
  qed (use assms in auto)
  moreover have "?Q (MAX_TABLE_LEN g) 0 = idx_ok g" by (auto simp: fun_eq_iff idx_ok_def)
  ultimately show ?thesis using z by simp
qed

text \<open>The header a registration leaves behind, and the one \<open>init_worker\<close> leaves behind.\<close>

definition reset_hdr :: "globals \<Rightarrow> 32 word \<Rightarrow> esca_table \<Rightarrow> esca_table" where
  "reset_hdr g idle h = h\<lparr>head_table := 0, tail_table := 0, head_entry := 0, tail_entry := 0,
     flags := ESCA_WORKER_NEED_WAKEUP, idle_time := idle\<rparr>"

definition ready_chan :: "globals \<Rightarrow> chan \<Rightarrow> bool" where
  "ready_chan g ch \<longleftrightarrow> chan_ok g ch \<and> entries_ok ch \<and> head_table (hdr ch) = 0 \<and> tail_table (hdr ch) = 0 \<and>
     head_entry (hdr ch) = 0 \<and> tail_entry (hdr ch) = 0 \<and>
     flags (hdr ch) = ESCA_WORKER_NEED_WAKEUP \<and>
     (\<forall>i \<in> {0..<MAX_TABLE_LEN g}. \<forall>j \<in> {0..<MAX_TABLE_ENTRY g}.
        rstatus (read_cell ch (i, j)) = BENTRY_EMPTY)"

definition typed_hdr :: "chan \<Rightarrow> bool" where
  "typed_hdr ch \<longleftrightarrow> length (tables (hdr ch)) = nat TABLE_LEN_LIMIT \<and>
     length (user_tables (hdr ch)) = nat TABLE_LEN_LIMIT"

text \<open>The kernel's table of header pointers once the first table of a set is registered.\<close>

definition set_ktable :: "int \<Rightarrow> int \<Rightarrow> int \<Rightarrow> (int \<Rightarrow> hptr option) \<Rightarrow> int \<Rightarrow> hptr option" where
  "set_ktable page a n kt = (\<lambda>i. if a \<le> i \<and> i < a + n then Some (page, i - a) else kt i)"

lemma set_ktable_0 [simp]: "set_ktable page a 0 kt = kt"
  by (auto simp: set_ktable_def fun_eq_iff)

lemma set_ktable_loop:
  assumes "0 \<le> a" and "0 \<le> n" and "a + n \<le> CPU_NUM_LIMIT"
  shows "fold_res (\<lambda>i s. bind_res (cpu_index i) (\<lambda>_.
      Inr (s\<lparr>ktable := (ktable s)(i := Some (page, i - a))\<rparr>))) [a..a + n - 1] s =
    Inr (s\<lparr>ktable := set_ktable page a n (ktable s)\<rparr>)"
proof -
  have "\<exists>s'. fold_res (\<lambda>i s. bind_res (cpu_index i) (\<lambda>_.
      Inr (s\<lparr>ktable := (ktable s)(i := Some (page, i - a))\<rparr>))) [a..(a + n) - 1] s = Inr s' \<and>
      s' = s\<lparr>ktable := set_ktable page a (a + n - a) (ktable s)\<rparr>"
  proof (rule fold_res_upto_rule [where P = "\<lambda>k s'. s' = s\<lparr>ktable := set_ktable page a (k - a) (ktable s)\<rparr>"])
    show "s = s\<lparr>ktable := set_ktable page a (a - a) (ktable s)\<rparr>"
      by simp
  next
    fix k s' assume "a \<le> k" "k < a + n" and s': "s' = s\<lparr>ktable := set_ktable page a (k - a) (ktable s)\<rparr>"
    moreover from this have "(set_ktable page a (k - a) (ktable s))(k := Some (page, k - a)) =
        set_ktable page a (k + 1 - a) (ktable s)"
      by (auto simp: set_ktable_def fun_eq_iff)
    ultimately show "\<exists>s''. bind_res (cpu_index k) (\<lambda>_.
        Inr (s'\<lparr>ktable := (ktable s')(k := Some (page, k - a))\<rparr>)) = Inr s'' \<and>
        s'' = s\<lparr>ktable := set_ktable page a (k + 1 - a) (ktable s)\<rparr>"
      using assms by (simp add: cpu_index_def)
  qed (use assms in simp)
  then show ?thesis by simp
qed

lemma register_body:
  assumes l: "layout_ok (psz ch) g" and n: "MAX_TABLE_LEN g \<le> npin" and t: "typed_hdr ch"
  shows "\<exists>T. bind_res (kmap_tables g npin ch) (clear_entries g) =
      Inr (cleared (idx_ok g) (ch\<lparr>hdr := (hdr ch)\<lparr>tables := T\<rparr>\<rparr>)) \<and>
    ptrs_set (\<lambda>j. j) (MAX_TABLE_LEN g) T"
proof -
  have r: "ring_ok g" and e: "MAX_TABLE_ENTRY g * sizeof_entry \<le> psz ch"
    using l by (auto simp: layout_ok_def)
  note R = ring_okD [OF r]
  obtain T where T: "kmap_tables g npin ch = Inr (ch\<lparr>hdr := (hdr ch)\<lparr>tables := T\<rparr>\<rparr>)"
    "ptrs_set (\<lambda>j. j) (MAX_TABLE_LEN g) T"
    using kmap_tables_ok [of g npin ch] R n t by (auto simp: typed_hdr_def)
  let ?c = "ch\<lparr>hdr := (hdr ch)\<lparr>tables := T\<rparr>\<rparr>"
  have "\<And>i j. idx_ok g i j \<Longrightarrow> kernel_cell ?c i j = Inr (i, j)"
    using T(2) e R by (intro kernel_cell_ok [of g]) (auto simp: ptrs_set_def)
  with T R show ?thesis by (intro exI [of _ T]) (simp add: clear_entries_ok)
qed

text \<open>
  One registration, for the first table of a set (\<open>header\<close> given) and for the others.
\<close>

lemma sys_esca_register_ok:
  assumes g: "kglob s = g" and l: "layout_ok (pgsize s) g" and n: "MAX_TABLE_LEN g \<le> npin"
    and h: "header = Some page \<and> 0 \<le> wid \<and> 1 \<le> RATIO g \<and> wid + RATIO g \<le> CPU_NUM_LIMIT \<and>
         kt = set_ktable page wid (RATIO g) (ktable s) \<or>
       header = None \<and> 0 \<le> wid \<and> wid < CPU_NUM_LIMIT \<and> kt = ktable s"
    and p: "kt wid = Some (pg, k)" "0 \<le> k" "(k + 1) * sizeof_table \<le> pgsize s"
    and ch: "mem s pg k = ch" "psz ch = pgsize s" "typed_hdr ch"
  shows "\<exists>T. sys_esca_register mj npin header wid s =
      Inr ((put_hdr (pg, k) ((cleared (idx_ok g) ch)\<lparr>hdr :=
             reset_hdr g (mj (DEFAULT_IDLE_TIME g)) ((hdr ch)\<lparr>tables := T\<rparr>)\<rparr>) (s\<lparr>ktable := kt\<rparr>))
           \<lparr>submitted := (submitted s)(wid := 0),
            worker_task := (worker_task s)(wid := True)\<rparr>) \<and>
    ptrs_set (\<lambda>j. j) (MAX_TABLE_LEN g) T"
proof -
  from register_body [of ch g npin] l n ch
  obtain T where T: "bind_res (kmap_tables g npin ch) (clear_entries g) =
      Inr (cleared (idx_ok g) (ch\<lparr>hdr := (hdr ch)\<lparr>tables := T\<rparr>\<rparr>))"
    "ptrs_set (\<lambda>j. j) (MAX_TABLE_LEN g) T" by auto
  then obtain ch1 where c1: "kmap_tables g npin ch = Inr ch1"
    and c2: "clear_entries g ch1 = Inr (cleared (idx_ok g) (ch\<lparr>hdr := (hdr ch)\<lparr>tables := T\<rparr>\<rparr>))"
    by (auto simp: bind_res_Inr_iff)
  let ?s1 = "s\<lparr>ktable := kt\<rparr>"
  have a: "(case header of
         Some page \<Rightarrow>
           fold_res (\<lambda>i s. bind_res (cpu_index i) (\<lambda>_.
             Inr (s\<lparr>ktable := (ktable s)(i := Some (page, i - wid))\<rparr>))) [wid..wid + RATIO g - 1] s
       | None \<Rightarrow>
           bind_res (cpu_index wid) (\<lambda>_. if ktable s wid = None then Inl Blocked else Inr s)) = Inr ?s1"
    using h p(1) set_ktable_loop [of wid "RATIO g" page s] by (auto simp: cpu_index_def)
  have b: "ktable_at ?s1 wid = Inr (pg, k)" using h p(1) by (auto simp: ktable_at_def cpu_index_def)
  have c: "hdr_at ?s1 (pg, k) = Inr ch" using p ch(1) by (simp add: hdr_at_def)
  show ?thesis
    using T(2)
    by (intro exI [of _ T])
      (simp add: sys_esca_register_def g a b c c1 c2 Let_def put_hdr_def reset_hdr_def
        del: fold_res.simps)
qed

text \<open>The state after the turns of \<open>init_worker\<close>'s loop up to table \<open>k\<close>.\<close>

definition init_inv :: "int \<Rightarrow> int \<Rightarrow> saio \<Rightarrow> int \<Rightarrow> saio \<Rightarrow> bool" where
  "init_inv page first s0 k s \<longleftrightarrow>
     glob s = glob s0 \<and> kglob s = kglob s0 \<and> pgsize s = pgsize s0 \<and>
     utable s = set_ktable page first (k - first) (utable s0) \<and>
     ktable s = (if k = first then ktable s0 else set_ktable page first (RATIO (glob s0)) (ktable s0)) \<and>
     (\<forall>i \<in> {first..<k}. ready_chan (glob s0) (mem s page (i - first)) \<and> worker_task s i) \<and>
     (\<forall>q m. \<not> (q = page \<and> 0 \<le> m \<and> m < k - first) \<longrightarrow> mem s q m = mem s0 q m) \<and>
     (\<forall>i. \<not> (first \<le> i \<and> i < k) \<longrightarrow> submitted s i = submitted s0 i) \<and>
     this_worker_id s = this_worker_id s0 \<and> in_segment s = in_segment s0 \<and> batch_num s = batch_num s0"

lemma ready_chan_intro:
  assumes "layout_ok (psz ch) g" and "npages ch = MAX_TABLE_LEN g" and "entries_ok ch"
    and "ptrs_set (\<lambda>j. j) (MAX_TABLE_LEN g) T" and "ptrs_set (\<lambda>j. j * MAX_TABLE_ENTRY g) (MAX_TABLE_LEN g) U"
  shows "ready_chan g ((cleared (idx_ok g) ch)\<lparr>hdr := (reset_hdr g idle (h\<lparr>tables := T\<rparr>))\<lparr>user_tables := U\<rparr>\<rparr>)"
  using assms
  by (auto simp: ready_chan_def chan_ok_def mapped_def reset_hdr_def ptrs_set_def read_cell_def idx_ok_def
      entries_ok_def)

lemma set_utable_next:
  assumes "first \<le> k"
  shows "set_utable (if k = first then Some page else None) first k (set_ktable page first (k - first) ut) =
    set_ktable page first (k + 1 - first) ut"
  using assms by (auto simp: set_utable_def set_ktable_def fun_eq_iff)

lemma init_one_ok:
  assumes inv: "init_inv page first s0 k s" and k: "first \<le> k" "k < first + RATIO (glob s0)"
    and idx: "first = idx * RATIO (glob s0)" "0 \<le> first" "first + RATIO (glob s0) \<le> CPU_NUM_LIMIT"
    and gk: "kglob s0 = glob s0" and l: "layout_ok (pgsize s0) (glob s0)"
    and fits: "RATIO (glob s0) * sizeof_table \<le> pgsize s0"
    and hp: "header_page env = Some page" and buf: "table_buf env k = Some b" "\<forall>p l. length (args (b p l)) = 6"
    and pin: "MAX_TABLE_LEN (glob s0) \<le> pinned env k"
    and typed: "typed_hdr (mem s0 page (k - first))"
  shows "\<exists>s'. init_one env idx k s = Inr (True, s') \<and> init_inv page first s0 (k + 1) s'"
proof -
  let ?g = "glob s0" and ?m = "k - first" and ?hd = "if k = first then Some page else None"
  have I: "glob s = ?g" "kglob s = ?g" "pgsize s = pgsize s0"
    "utable s = set_ktable page first ?m (utable s0)"
    "ktable s = (if k = first then ktable s0 else set_ktable page first (RATIO ?g) (ktable s0))"
    "mem s page ?m = mem s0 page ?m"
    using inv gk by (simp_all add: init_inv_def)
  define ch where "ch = (mem s page ?m)\<lparr>ents := b, psz := pgsize s0, npages := MAX_TABLE_LEN ?g\<rparr>"
  define kt where "kt = set_ktable page first (RATIO ?g) (ktable s0)"
  define s1 where "s1 = put_hdr (page, ?m) ch (s\<lparr>utable := set_ktable page first (k + 1 - first) (utable s0)\<rparr>)"
  define h2 where "h2 T = reset_hdr ?g (to_jiffies env (DEFAULT_IDLE_TIME ?g)) ((hdr ch)\<lparr>tables := T\<rparr>)" for T
  define s2 where "s2 T = (put_hdr (page, ?m) ((cleared (idx_ok ?g) ch)\<lparr>hdr := h2 T\<rparr>) (s1\<lparr>ktable := kt\<rparr>))
    \<lparr>submitted := (submitted s1)(k := 0), worker_task := (worker_task s1)(k := True)\<rparr>" for T
  define s3 where "s3 T U = put_hdr (page, ?m) ((cleared (idx_ok ?g) ch)\<lparr>hdr := (h2 T)\<lparr>user_tables := U\<rparr>\<rparr>) (s2 T)" for T U
  note defs = s1_def put_hdr_def
  have bound: "(?m + 1) * sizeof_table \<le> pgsize s0"
    using fits k mult_right_mono [of "?m + 1" "RATIO ?g" sizeof_table] by simp
  have at: "attach_buf ?g k b (s\<lparr>utable := set_utable ?hd first k (utable s)\<rparr>) = s1"
    using k set_utable_next [OF k(1), of page "utable s0"]
    by (simp add: attach_buf_def I(3,4) s1_def ch_def set_ktable_def)
  have "\<exists>T. sys_esca_register (to_jiffies env) (pinned env k) ?hd k s1 = Inr (s2 T) \<and>
    ptrs_set (\<lambda>j. j) (MAX_TABLE_LEN ?g) T"
    unfolding s2_def h2_def
  proof (rule sys_esca_register_ok)
    show "?hd = Some page \<and> 0 \<le> k \<and> 1 \<le> RATIO ?g \<and>
        k + RATIO ?g \<le> CPU_NUM_LIMIT \<and> kt = set_ktable page k (RATIO ?g) (ktable s1) \<or>
      ?hd = None \<and> 0 \<le> k \<and> k < CPU_NUM_LIMIT \<and> kt = ktable s1"
      using k idx by (auto simp: defs I kt_def)
  qed (use k I l pin bound typed in
      \<open>auto simp: defs ch_def kt_def set_ktable_def typed_hdr_def\<close>)
  then obtain T where T: "ptrs_set (\<lambda>j. j) (MAX_TABLE_LEN ?g) T" and
    reg: "sys_esca_register (to_jiffies env) (pinned env k) ?hd k s1 = Inr (s2 T)" by blast
  have r: "ring_ok ?g" using l by (simp add: layout_ok_def)
  obtain U where U: "set_user_tables ?g ((cleared (idx_ok ?g) ch)\<lparr>hdr := h2 T\<rparr>) =
      Inr ((cleared (idx_ok ?g) ch)\<lparr>hdr := (h2 T)\<lparr>user_tables := U\<rparr>\<rparr>)"
    "ptrs_set (\<lambda>j. j * MAX_TABLE_ENTRY ?g) (MAX_TABLE_LEN ?g) U"
    using set_user_tables_ok [of ?g "(cleared (idx_ok ?g) ch)\<lparr>hdr := h2 T\<rparr>"] ring_okD [OF r] typed I
    by (auto simp: h2_def reset_hdr_def ch_def typed_hdr_def)
  have cpu: "cpu_index k = Inr ()" using k idx by (simp add: cpu_index_def)
  have s2: "utable_at (s2 T) k = Inr (page, ?m)" "hdr_at (s2 T) (page, ?m) = Inr ((cleared (idx_ok ?g) ch)\<lparr>hdr := h2 T\<rparr>)"
    using k idx bound by (simp_all add: utable_at_def cpu_index_def s2_def defs set_ktable_def hdr_at_def I)
  have "init_one env idx k s = Inr (True, s3 T U)"
    by (simp add: init_one_def I(1) idx(1) [symmetric] hp cpu buf at reg s2 U Let_def s3_def
        split del: if_split cong: if_cong)
  moreover have "ready_chan ?g ((cleared (idx_ok ?g) ch)\<lparr>hdr := (h2 T)\<lparr>user_tables := U\<rparr>\<rparr>)"
    using l T U(2) unfolding h2_def by (intro ready_chan_intro) (simp_all add: ch_def buf entries_ok_def read_cell_def)
  then have "init_inv page first s0 (k + 1) (s3 T U)"
    using inv k by (auto simp: init_inv_def s3_def s2_def defs kt_def)
  ultimately show ?thesis by blast
qed

lemma init_worker_ok:
  assumes "0 \<le> idx" and "idx < MAX_USR_WORKER (glob s)" and "1 \<le> RATIO (glob s)"
    and "MAX_USR_WORKER (glob s) * RATIO (glob s) \<le> CPU_NUM_LIMIT"
    and "kglob s = glob s" and "layout_ok (pgsize s) (glob s)"
    and "RATIO (glob s) * sizeof_table \<le> pgsize s"
    and "header_page env = Some page"
    and "\<forall>i. (\<exists>b. table_buf env i = Some b \<and> (\<forall>p l. length (args (b p l)) = 6)) \<and>
      MAX_TABLE_LEN (glob s) \<le> pinned env i"
    and "\<forall>k. typed_hdr (mem s page k)"
  shows "\<exists>s'. init_worker env idx s = Inr s' \<and> this_worker_id s' = idx \<and> in_segment s' = 0 \<and>
    glob s' = glob s \<and> kglob s' = glob s \<and> pgsize s' = pgsize s \<and> batch_num s' = 0 \<and>
    (\<forall>i. idx * RATIO (glob s) \<le> i \<and> i < idx * RATIO (glob s) + RATIO (glob s) \<longrightarrow>
       utable s' i = Some (page, i - idx * RATIO (glob s)) \<and> ktable s' i = utable s' i \<and>
       hdr_at s' (page, i - idx * RATIO (glob s)) = Inr (mem s' page (i - idx * RATIO (glob s))) \<and>
       ready_chan (glob s) (mem s' page (i - idx * RATIO (glob s))) \<and> worker_task s' i) \<and>
    (\<forall>i. \<not> (idx * RATIO (glob s) \<le> i \<and> i < idx * RATIO (glob s) + RATIO (glob s)) \<longrightarrow>
       utable s' i = utable s i \<and> ktable s' i = ktable s i \<and> submitted s' i = submitted s i) \<and>
    (\<forall>q m. q \<noteq> page \<longrightarrow> mem s' q m = mem s q m)"
proof -
  let ?g = "glob s" and ?R = "RATIO (glob s)"
  define s0 where "s0 = s\<lparr>in_segment := 0, batch_num := 0, syscall_num := 0, this_worker_id := idx\<rparr>"
  define first where "first = idx * ?R"
  have s0: "glob s0 = ?g" "kglob s0 = ?g" "pgsize s0 = pgsize s" "mem s0 = mem s"
    "utable s0 = utable s" "ktable s0 = ktable s" "this_worker_id s0 = idx" "in_segment s0 = 0"
    "batch_num s0 = 0" "submitted s0 = submitted s"
    using assms(5) by (simp_all add: s0_def)
  have f0: "0 \<le> first" using assms(1,3) by (simp add: first_def)
  have "first + ?R = (idx + 1) * ?R" by (simp add: first_def distrib_right)
  also have "\<dots> \<le> MAX_USR_WORKER ?g * ?R" using assms(2,3) by (intro mult_right_mono) auto
  finally have f1: "first + ?R \<le> CPU_NUM_LIMIT" using assms(4) by simp
  have "\<exists>s'. loop_res (init_one env idx) [first..(first + ?R) - 1] s0 = Inr (True, s') \<and>
      init_inv page first s0 (first + ?R) s'"
  proof (rule loop_res_upto_rule)
    show "init_inv page first s0 first s0" by (simp add: init_inv_def)
  next
    fix k t assume "first \<le> k" "k < first + ?R" "init_inv page first s0 k t"
    moreover obtain b where "table_buf env k = Some b" "\<forall>p l. length (args (b p l)) = 6"
      using assms(9) by blast
    ultimately show "\<exists>s'. init_one env idx k t = Inr (True, s') \<and> init_inv page first s0 (k + 1) s'"
      using assms f0 f1 s0 by (intro init_one_ok [where b = b]) (auto simp: first_def)
  qed (use assms(3) in simp)
  then obtain t where t: "loop_res (init_one env idx) [first..first + ?R - 1] s0 = Inr (True, t)"
      "init_inv page first s0 (first + ?R) t" by auto
  obtain m v h where pools: "pool_bases env = (m, v, h)" by (cases "pool_bases env") auto
  let ?s' = "t\<lparr>mpool_addr := m, pool_offset := 0, iovpool_addr := v, iov_offset := 0,
    msgpool_addr := h, msg_offset := 0\<rparr>"
  have "init_worker env idx s = Inr ?s'"
    using t(1) assms(2) pools by (simp add: init_worker_def s0_def [symmetric] s0 first_def Let_def)
  moreover have fit: "(i - first + 1) * sizeof_table \<le> pgsize s" if "first \<le> i" "i < first + ?R" for i
    using assms(7) that mult_right_mono [of "i - first + 1" ?R sizeof_table] by simp
  ultimately show ?thesis
    using t(2) assms(3) s0
    by (intro exI [of _ ?s'])
      (auto simp: init_inv_def set_ktable_def hdr_at_def first_def [symmetric])
qed

section \<open>A sample state\<close>

definition sample_entry :: esca_table_entry where
  "sample_entry = \<lparr>pid = 0, nargs = 0, rstatus = 0, sysnum = 0, sysret = 0, args = replicate 6 0\<rparr>"

definition sample_chan :: "int \<Rightarrow> esca_table \<Rightarrow> chan" where
  "sample_chan stride h =
     \<lparr>hdr = h\<lparr>tables := [Some 0, Some 1] @ replicate 28 None, user_tables := [Some 0, Some stride] @ replicate 28 None\<rparr>,
      ents = (\<lambda>_ _. sample_entry), psz = 4096, npages = 2\<rparr>"

text \<open>A process before \<open>init_worker\<close> and the memory it is given.\<close>

definition sample_saio :: saio where
  "sample_saio = \<lparr>mem = (\<lambda>_ _. \<lparr>hdr = sample_hdr 7 7 7 7, ents = (\<lambda>_ _. sample_entry\<lparr>rstatus := 9\<rparr>), psz = 4096, npages = 2\<rparr>),
     pgsize = 4096, glob = sample_globals, in_segment = 0, batch_num = 0, syscall_num = 0, this_worker_id = 0,
     utable = (\<lambda>_. None), mpool_addr = 0, iovpool_addr = 0, msgpool_addr = 0, pool_offset = 0,
     iov_offset = 0, msg_offset = 0, mpool = (\<lambda>_. 0), iovpool = (\<lambda>_. \<lparr>iov_base = 0, iov_len = 0\<rparr>),
     msgpool = (\<lambda>_. \<lparr>msg_name = 0, msg_namelen = 0, msg_iov = 0, msg_iovlen = 0, msg_control = 0,
       msg_controllen = 0, msg_flags = 0\<rparr>),
     off_arr = (\<lambda>_ _. 0), kglob = sample_globals, ktable = (\<lambda>_. None), submitted = (\<lambda>_. 0),
     worker_task = (\<lambda>_. False)\<rparr>"

definition sample_env :: alloc_env where
  "sample_env = \<lparr>header_page = Some 3, table_buf = (\<lambda>_. Some (\<lambda>_ _. sample_entry)), pinned = (\<lambda>_. 2),
     pool_bases = (4096, 8192, 12288), to_jiffies = word_of_int\<rparr>"

lemma int_less_2_cases: "(\<forall>j \<in> {0..<2::int}. P j) \<longleftrightarrow> P 0 \<and> P 1"
proof -
  have "{0..<2::int} = {0, 1}" by auto
  then show ?thesis by simp
qed

lemma sample_chan_ok [simp]: "chan_ok sample_globals (sample_chan 64 h)"
  by (simp add: chan_ok_def layout_ok_def mapped_def int_less_2_cases sample_chan_def)

section \<open>Properties\<close>



text \<open>
  C12: with memory for the headers and the tables and the pages pinned, \<open>init_worker\<close> returns
  and every kernel worker of the set is started on its own header: the process and the module
  hold the same pointer to it, it lies inside the page of headers, both sides address the same
  entries through it, all entries are empty, the indices are zero and the worker is flagged as
  needing a wake-up; headers and pointers of other sets are untouched.
\<close>

theorem init_worker_channels:
  assumes "0 \<le> idx" and "idx < MAX_USR_WORKER (glob s)" and "1 \<le> RATIO (glob s)"
    and "MAX_USR_WORKER (glob s) * RATIO (glob s) \<le> CPU_NUM_LIMIT"
    and "kglob s = glob s" and "layout_ok (pgsize s) (glob s)"
    and "RATIO (glob s) * sizeof_table \<le> pgsize s"
    and "header_page env = Some page"
    and "\<forall>i. (\<exists>b. table_buf env i = Some b \<and> (\<forall>p l. length (args (b p l)) = 6)) \<and>
      MAX_TABLE_LEN (glob s) \<le> pinned env i"
    and "\<forall>k. typed_hdr (mem s page k)"
  shows "\<exists>s'. init_worker env idx s = Inr s' \<and> this_worker_id s' = idx \<and> in_segment s' = 0 \<and>
    (\<forall>i. idx * RATIO (glob s) \<le> i \<and> i < idx * RATIO (glob s) + RATIO (glob s) \<longrightarrow>
       utable s' i = Some (page, i - idx * RATIO (glob s)) \<and> ktable s' i = utable s' i \<and>
       hdr_at s' (page, i - idx * RATIO (glob s)) = Inr (mem s' page (i - idx * RATIO (glob s))) \<and>
       ready_chan (glob s) (mem s' page (i - idx * RATIO (glob s))) \<and> worker_task s' i) \<and>
    (\<forall>i. \<not> (idx * RATIO (glob s) \<le> i \<and> i < idx * RATIO (glob s) + RATIO (glob s)) \<longrightarrow>
       utable s' i = utable s i \<and> ktable s' i = ktable s i) \<and>
    (\<forall>q m. q \<noteq> page \<longrightarrow> mem s' q m = mem s q m)"
proof -
  from init_worker_ok [OF assms] show ?thesis by blast
qed

theorem init_worker_channels_witness:
  "\<exists>s'. init_worker sample_env 0 sample_saio = Inr s' \<and> utable s' 1 = Some (3, 1) \<and>
     ktable s' 1 = Some (3, 1) \<and> worker_task s' 1 \<and> ready_chan sample_globals (mem s' 3 1) \<and> utable s' 2 = None"
  using init_worker_channels [of 0 sample_saio sample_env 3]
  by (fastforce simp: sample_saio_def sample_env_def layout_ok_def typed_hdr_def sample_hdr_def
      sample_entry_def)

end
