(* ===== verification/Indirect_Call.thy ===== *)
theory Indirect_Call
  imports Esca_Types
begin

text \<open>
  How the worker performs a queued call: \<open>indirect_call\<close> of \<open>module/lioo.c\<close> builds the register
  frame a system-call handler reads its arguments from and calls the handler.
\<close>

section \<open>The register frame\<close>

text \<open>
  The registers \<open>indirect_call\<close> writes: the six argument registers of x86-64 and the array
  \<open>regs\<close> of aarch64. Every other field of the frame is zero.
\<close>

record pt_regs =
  di :: "64 word"
  si :: "64 word"
  dx :: "64 word"
  r10 :: "64 word"
  r8 :: "64 word"
  r9 :: "64 word"
  xregs :: "64 word list"

definition zero_regs :: pt_regs where
  "zero_regs = \<lparr>di = 0, si = 0, dx = 0, r10 = 0, r8 = 0, r9 = 0, xregs = replicate 31 0\<rparr>"

text \<open>
  The \<open>switch\<close> falls through from the case of \<open>argc\<close> down to case 1; an \<open>argc\<close> that is no
  case sets no register.
\<close>

definition indirect_call_regs :: "arch \<Rightarrow> int \<Rightarrow> 64 word list \<Rightarrow> pt_regs" where
  "indirect_call_regs arc argc a =
     (let from = (\<lambda>n. n \<le> argc \<and> argc \<le> 6); r = zero_regs in
      case arc of
        X86_64 \<Rightarrow>
          (let r = (if from 6 then r\<lparr>r9 := a ! 5\<rparr> else r);
               r = (if from 5 then r\<lparr>r8 := a ! 4\<rparr> else r);
               r = (if from 4 then r\<lparr>r10 := a ! 3\<rparr> else r);
               r = (if from 3 then r\<lparr>dx := a ! 2\<rparr> else r);
               r = (if from 2 then r\<lparr>si := a ! 1\<rparr> else r)
           in if from 1 then r\<lparr>di := a ! 0\<rparr> else r)
      | AARCH64 \<Rightarrow>
          (let r = (if from 6 then r\<lparr>xregs := (xregs r)[5 := a ! 5]\<rparr> else r);
               r = (if from 5 then r\<lparr>xregs := (xregs r)[4 := a ! 4]\<rparr> else r);
               r = (if from 4 then r\<lparr>xregs := (xregs r)[3 := a ! 3]\<rparr> else r);
               r = (if from 3 then r\<lparr>xregs := (xregs r)[2 := a ! 2]\<rparr> else r);
               r = (if from 2 then r\<lparr>xregs := (xregs r)[1 := a ! 1]\<rparr> else r)
           in if from 1 then r\<lparr>xregs := (xregs r)[0 := a ! 0]\<rparr> else r))"

text \<open>The calling convention of the handlers: where they find argument \<open>k\<close>.\<close>

definition sysarg :: "arch \<Rightarrow> nat \<Rightarrow> pt_regs \<Rightarrow> 64 word" where
  "sysarg arc k r = (case arc of
     X86_64 \<Rightarrow> [di r, si r, dx r, r10 r, r8 r, r9 r] ! k
   | AARCH64 \<Rightarrow> xregs r ! k)"

text \<open>
  A handler reads the frame, acts on the rest of the kernel (a state of any type) and returns
  a \<open>long\<close>. The system-call table is a parameter; an index outside it has no handler.
\<close>

type_synonym 'w handler = "pt_regs \<Rightarrow> 'w \<Rightarrow> 64 word \<times> 'w"
type_synonym 'w systab = "32 word \<Rightarrow> 'w handler option"

definition indirect_call :: "arch \<Rightarrow> 'w handler \<Rightarrow> int \<Rightarrow> 64 word list \<Rightarrow> 'w \<Rightarrow> 64 word \<times> 'w" where
  "indirect_call arc f argc a w = f (indirect_call_regs arc argc a) w"

section \<open>The frame is a function of the call\<close>

lemmas frame_defs = indirect_call_regs_def zero_regs_def Let_def

lemma less6_cases: "k < (6::nat) \<Longrightarrow> k = 0 \<or> k = 1 \<or> k = 2 \<or> k = 3 \<or> k = 4 \<or> k = 5"
  by linarith

lemma sysarg_x86:
  assumes "0 \<le> argc" and "argc \<le> 6" and "k < 6"
  shows "sysarg X86_64 k (indirect_call_regs X86_64 argc a) = (if int k < argc then a ! k else 0)"
  using less6_cases [OF assms(3)] assms(1,2) by (auto simp: sysarg_def frame_defs)

lemma sysarg_aarch64:
  assumes "0 \<le> argc" and "argc \<le> 6" and "k < 6"
  shows "sysarg AARCH64 k (indirect_call_regs AARCH64 argc a) = (if int k < argc then a ! k else 0)"
  using less6_cases [OF assms(3)] assms(1,2)
  by (auto simp: sysarg_def frame_defs nth_list_update)

text \<open>What lies past \<open>argc\<close> in the argument array does not matter.\<close>

lemma indirect_call_regs_cong:
  assumes "\<And>k. k < 6 \<Longrightarrow> int k < argc \<Longrightarrow> a ! k = b ! k"
  shows "indirect_call_regs arc argc a = indirect_call_regs arc argc b"
proof -
  have "(\<not> 1 \<le> argc \<or> a ! 0 = b ! 0) \<and> (\<not> 2 \<le> argc \<or> a ! 1 = b ! 1) \<and>
      (\<not> 3 \<le> argc \<or> a ! 2 = b ! 2) \<and> (\<not> 4 \<le> argc \<or> a ! 3 = b ! 3) \<and>
      (\<not> 5 \<le> argc \<or> a ! 4 = b ! 4) \<and> (\<not> 6 \<le> argc \<or> a ! 5 = b ! 5)"
    using assms [of 0] assms [of 1] assms [of 2] assms [of 3] assms [of 4] assms [of 5] by auto
  then show ?thesis
    by (cases arc) (auto simp: indirect_call_regs_def Let_def)
qed

text \<open>A request performed on its own.\<close>

definition perform :: "arch \<Rightarrow> 'w systab \<Rightarrow> request \<Rightarrow> 'w \<Rightarrow> (64 word \<times> 'w) res" where
  "perform arc tab r w = (case r of (num, n, as) \<Rightarrow>
     (case tab num of None \<Rightarrow> Inl OutOfBounds
      | Some f \<Rightarrow> Inr (indirect_call arc f n (as @ replicate (6 - length as) 0) w)))"

lemma perform_req_of:
  assumes "length (args e) = 6"
  shows "perform arc tab (req_of e) w =
    (case tab (sysnum e) of None \<Rightarrow> Inl OutOfBounds
     | Some f \<Rightarrow> Inr (indirect_call arc f (nargs e) (args e) w))"
proof -
  have "indirect_call_regs arc (nargs e)
      (take (nat (nargs e)) (args e) @ replicate (6 - length (take (nat (nargs e)) (args e))) 0) =
    indirect_call_regs arc (nargs e) (args e)"
    using assms by (intro indirect_call_regs_cong) (auto simp: nth_append)
  then show ?thesis
    by (simp add: perform_def req_of_def indirect_call_def split: option.split)
qed

section \<open>Properties\<close>

text \<open>
  C20: on both architectures the handler of a call queued with \<open>argc\<close> arguments finds argument
  \<open>k\<close> of the entry in the register of argument \<open>k\<close>, and zero in the registers past \<open>argc\<close>,
  whatever earlier calls left in the rest of the entry.
\<close>

theorem indirect_call_arguments:
  assumes "0 \<le> argc" and "argc \<le> 6" and "k < 6"
  shows "sysarg arc k (indirect_call_regs arc argc a) = (if int k < argc then a ! k else 0)"
  using assms by (cases arc) (simp_all add: sysarg_x86 sysarg_aarch64)

theorem indirect_call_arguments_witness:
  "sysarg X86_64 3 (indirect_call_regs X86_64 4 [11, 12, 13, 14, 99, 98]) = 14 \<and>
   sysarg AARCH64 5 (indirect_call_regs AARCH64 4 [11, 12, 13, 14, 99, 98]) = 0"
  using indirect_call_arguments [of 4 3 X86_64 "[11, 12, 13, 14, 99, 98]"]
    indirect_call_arguments [of 4 5 AARCH64 "[11, 12, 13, 14, 99, 98]"] by simp

end
