(* ===== verification/Kernel_Worker.thy ===== *)
theory Kernel_Worker
  imports Shared_Layout Indirect_Call
begin

text \<open>
  The kernel worker thread (\<open>worker\<close> in \<open>module/lioo.c\<close>): the pass over the submitted
  entries, seen as a function on the channel it serves, and the queue the channel implements
  together with the submission a wrapper makes.
\<close>

section \<open>Performing entries\<close>

definition exec_entry ::
  "arch \<Rightarrow> 'w systab \<Rightarrow> int \<Rightarrow> int \<Rightarrow> chan \<times> 'w \<Rightarrow> (chan \<times> 'w) res" where
  "exec_entry arc tab i j cw = (case cw of (ch, w) \<Rightarrow>
     bind_res (kernel_cell ch i j) (\<lambda>c.
     let e = read_cell ch c in
     case tab (sysnum e) of
       None \<Rightarrow> Inl OutOfBounds
     | Some f \<Rightarrow>
         let (ret, w') = indirect_call arc f (nargs e) (args e) w;
             e = e\<lparr>sysret := ucast ret\<rparr>;
             e = e\<lparr>rstatus := BENTRY_EMPTY\<rparr>
         in Inr (write_cell c e ch, w')))"

text \<open>
  After each entry the first worker of a set looks whether all workers of the set are done;
  the result says whether it wakes the waiters of \<open>wq[cur_cpuid]\<close>.
\<close>

fun all_done :: "int list \<Rightarrow> (int \<Rightarrow> 16 word) \<Rightarrow> bool res" where
  "all_done [] sub = Inr True"
| "all_done (k # ks) sub =
     bind_res (cpu_index k) (\<lambda>_. if sub k \<noteq> 0 then Inr False else all_done ks sub)"

definition check_done :: "globals \<Rightarrow> int \<Rightarrow> (int \<Rightarrow> 16 word) \<Rightarrow> bool res" where
  "check_done g cur sub =
     bind_res (c_mod cur (RATIO g)) (\<lambda>m.
     if m = 0 then all_done [cur..cur + RATIO g - 1] sub else Inr False)"

text \<open>
  The loop over the submitted entries: position, channel, counters, the wake-ups issued so far
  and the rest of the kernel.
\<close>

record 'w wloop =
  wl_i :: int
  wl_j :: int
  wl_ch :: chan
  wl_sub :: "int \<Rightarrow> 16 word"
  wl_wakes :: "int list"
  wl_world :: 'w

definition worker_step ::
  "arch \<Rightarrow> 'w systab \<Rightarrow> globals \<Rightarrow> int \<Rightarrow> 'w wloop \<Rightarrow> 'w wloop res" where
  "worker_step arc tab g cur l =
     bind_res (exec_entry arc tab (wl_i l) (wl_j l) (wl_ch l, wl_world l)) (\<lambda>(ch, w).
     let (i, j) = worker_next g (wl_i l, wl_j l);
         sub = (wl_sub l)(cur := wl_sub l cur - 1) in
     bind_res (check_done g cur sub) (\<lambda>done.
     Inr \<lparr>wl_i = i, wl_j = j, wl_ch = ch, wl_sub = sub,
           wl_wakes = (if done then wl_wakes l @ [cur] else wl_wakes l), wl_world = w\<rparr>))"

lemma worker_step_sub: "worker_step arc tab g cur l = Inr l' \<Longrightarrow> wl_sub l' cur = wl_sub l cur - 1"
  by (cases "worker_next g (wl_i l, wl_j l)")
    (auto simp: worker_step_def bind_res_Inr_iff Let_def split: prod.splits)

function worker_loop ::
  "arch \<Rightarrow> 'w systab \<Rightarrow> globals \<Rightarrow> int \<Rightarrow> 'w wloop \<Rightarrow> 'w wloop res" where
  "worker_loop arc tab g cur l =
     (if wl_sub l cur = 0 then Inr l
      else bind_res (worker_step arc tab g cur l) (worker_loop arc tab g cur))"
  by pat_completeness auto
termination
proof (relation "measure (\<lambda>(arc, tab, g, cur, l). unat (wl_sub l cur))")
  fix arc g cur and tab :: "'w systab" and l l' :: "'w wloop"
  assume "wl_sub l cur \<noteq> 0" and "worker_step arc tab g cur l = Inr l'"
  then show "((arc, tab, g, cur, l'), arc, tab, g, cur, l) \<in>
      measure (\<lambda>(arc, tab, g, cur, l). unat (wl_sub l cur))"
    by (simp add: worker_step_sub unat_minus_one unat_gt_0)
qed simp

declare worker_loop.simps [simp del]

text \<open>
  One turn of the outer loop once \<open>rstatus\<close> at the head is not empty: count, perform, publish
  the new head.
\<close>

definition worker_pass ::
  "arch \<Rightarrow> 'w systab \<Rightarrow> globals \<Rightarrow> int \<Rightarrow> chan \<Rightarrow> (int \<Rightarrow> 16 word) \<Rightarrow> 'w \<Rightarrow> 'w wloop res" where
  "worker_pass arc tab g cur ch sub w =
     (let i = head_table (hdr ch); j = head_entry (hdr ch);
          sub = sub(cur := submitted_count g (hdr ch) i j) in
     bind_res (worker_loop arc tab g cur
       \<lparr>wl_i = i, wl_j = j, wl_ch = ch, wl_sub = sub, wl_wakes = [], wl_world = w\<rparr>) (\<lambda>l.
     Inr (l\<lparr>wl_ch := (wl_ch l)\<lparr>hdr := (hdr (wl_ch l))
       \<lparr>head_table := short_of (wl_i l), head_entry := short_of (wl_j l)\<rparr>\<rparr>\<rparr>)))"

section \<open>Submitting an entry\<close>

text \<open>
  What every wrapper does inside a batch: fill the entry at the tail, move the tail, mark the
  entry busy.
\<close>

definition fill_entry :: "request \<Rightarrow> esca_table_entry \<Rightarrow> esca_table_entry" where
  "fill_entry r e = (case r of (num, n, as) \<Rightarrow>
     e\<lparr>sysnum := num, nargs := n, args := as @ drop (length as) (args e)\<rparr>)"

definition submit_chan :: "globals \<Rightarrow> request \<Rightarrow> chan \<Rightarrow> chan res" where
  "submit_chan g r ch =
     (let i = tail_table (hdr ch); j = tail_entry (hdr ch) in
     bind_res (user_cell ch i j) (\<lambda>c.
     let ch = write_cell c (fill_entry r (read_cell ch c)) ch in
     bind_res (update_index g (hdr ch)) (\<lambda>h.
     let ch = ch\<lparr>hdr := h\<rparr> in
     bind_res (user_cell ch i j) (\<lambda>c.
     Inr (write_cell c ((read_cell ch c)\<lparr>rstatus := BENTRY_BUSY\<rparr>) ch)))))"

section \<open>Pending requests\<close>

definition slot_cell :: "globals \<Rightarrow> nat \<Rightarrow> cell" where
  "slot_cell g p = (int p div MAX_TABLE_ENTRY g, int p mod MAX_TABLE_ENTRY g)"

definition req_at :: "globals \<Rightarrow> chan \<Rightarrow> nat \<Rightarrow> request" where
  "req_at g ch p = req_of (read_cell ch (slot_cell g (p mod slots g)))"

definition n_pending :: "globals \<Rightarrow> chan \<Rightarrow> nat" where
  "n_pending g ch = unat (submitted_count g (hdr ch) (head_table (hdr ch)) (head_entry (hdr ch)))"

definition pending :: "globals \<Rightarrow> chan \<Rightarrow> request list" where
  "pending g ch = map (\<lambda>k. req_at g ch (head_pos g (hdr ch) + k)) [0..<n_pending g ch]"

text \<open>
  A request the worker can perform, and the state of a channel between two calls: at most
  \<open>slots g - 1\<close> entries are pending, and they are marked busy and can be performed.
\<close>

definition req_ok :: "'w systab \<Rightarrow> request \<Rightarrow> bool" where
  "req_ok tab r \<longleftrightarrow> (case r of (num, n, as) \<Rightarrow> tab num \<noteq> None \<and> int (length as) = n \<and> n \<le> 6)"

definition queue_inv :: "globals \<Rightarrow> 'w systab \<Rightarrow> chan \<Rightarrow> bool" where
  "queue_inv g tab ch \<longleftrightarrow> chan_ok g ch \<and> hdr_ok g (hdr ch) \<and> entries_ok ch \<and>
     (\<forall>k < n_pending g ch. req_ok tab (req_at g ch (head_pos g (hdr ch) + k)) \<and>
        rstatus (read_cell ch (slot_cell g ((head_pos g (hdr ch) + k) mod slots g))) = BENTRY_BUSY)"

section \<open>Slots and cells\<close>

lemma slot_cell_spos: "ring_ok g \<Longrightarrow> idx_ok g i j \<Longrightarrow> slot_cell g (spos g i j) = (i, j)"
  using idx_of_spos [of g i j] by (simp add: slot_cell_def)

lemma slot_cell_ok:
  assumes "ring_ok g" and "p < slots g"
  shows "idx_ok g (fst (slot_cell g p)) (snd (slot_cell g p))"
proof -
  let ?E = "MAX_TABLE_ENTRY g"
  have E: "0 < ?E" using ring_okD(1) [OF assms(1)] by simp
  have "int p < ?E * MAX_TABLE_LEN g" using assms ring_okD(8) [OF assms(1)] by linarith
  then have "int p < MAX_TABLE_LEN g * ?E" by (simp only: mult.commute)
  moreover have "int p div ?E * ?E \<le> int p"
    using div_mult_mod_eq [of "int p" ?E] pos_mod_sign [OF E, of "int p"] by linarith
  ultimately have "int p div ?E * ?E < MAX_TABLE_LEN g * ?E" by linarith
  then have "int p div ?E < MAX_TABLE_LEN g" using E by simp
  with E show ?thesis by (simp add: slot_cell_def idx_ok_def pos_imp_zdiv_nonneg_iff)
qed

lemma spos_slot_cell:
  assumes "ring_ok g"
  shows "spos g (fst (slot_cell g p)) (snd (slot_cell g p)) = p"
  by (simp add: spos_def slot_index_def slot_cell_def mult.commute)

lemma slot_cell_inj: "ring_ok g \<Longrightarrow> slot_cell g p = slot_cell g q \<longleftrightarrow> p = q"
  using spos_slot_cell by metis

lemma chan_cells_slot:
  assumes "chan_ok g ch" and "p < slots g"
  shows "kernel_cell ch (fst (slot_cell g p)) (snd (slot_cell g p)) = Inr (slot_cell g p)"
    and "user_cell ch (fst (slot_cell g p)) (snd (slot_cell g p)) = Inr (slot_cell g p)"
  using assms slot_cell_ok [of g p] chan_cells [of g ch]
  by (simp_all add: chan_ok_def layout_ok_def)

lemma chan_ok_ring: "chan_ok g ch \<Longrightarrow> ring_ok g"
  by (simp add: chan_ok_def layout_ok_def)

section \<open>The pass performs the pending requests in order\<close>

definition perform_all :: "arch \<Rightarrow> 'w systab \<Rightarrow> request list \<Rightarrow> 'w \<Rightarrow> 'w res" where
  "perform_all arc tab = fold_res (\<lambda>r w. bind_res (perform arc tab r w) (\<lambda>(ret, w). Inr w))"

text \<open>Two states of a channel that describe the same calls.\<close>

definition same_calls :: "chan \<Rightarrow> chan \<Rightarrow> bool" where
  "same_calls ch ch' \<longleftrightarrow> hdr ch' = hdr ch \<and> psz ch' = psz ch \<and> npages ch' = npages ch \<and>
     (\<forall>c. req_of (read_cell ch' c) = req_of (read_cell ch c) \<and>
          length (args (read_cell ch' c)) = length (args (read_cell ch c)))"

lemma same_calls_refl: "same_calls ch ch"
  by (simp add: same_calls_def)

lemma same_calls_trans: "same_calls a b \<Longrightarrow> same_calls b c \<Longrightarrow> same_calls a c"
  by (simp add: same_calls_def)

lemma same_calls_facts:
  assumes "same_calls ch ch'"
  shows "chan_ok g ch' = chan_ok g ch" and "entries_ok ch' = entries_ok ch"
    and "req_at g ch' p = req_at g ch p" and "hdr ch' = hdr ch"
  using assms
  by (simp_all add: same_calls_def chan_ok_def mapped_def entries_ok_def req_at_def
      del: split_paired_All)

text \<open>A worker of a set that lies within the arrays; only the first worker of a set looks at the others.\<close>

definition set_ok :: "globals \<Rightarrow> int \<Rightarrow> bool" where
  "set_ok g cur \<longleftrightarrow> 1 \<le> RATIO g \<and> RATIO g \<le> CPU_NUM_LIMIT \<and> 0 \<le> cur \<and> cur < CPU_NUM_LIMIT \<and>
     (cur mod RATIO g = 0 \<longrightarrow> cur + RATIO g \<le> CPU_NUM_LIMIT)"

lemma all_done_ok:
  assumes "list_all (\<lambda>k. 0 \<le> k \<and> k < CPU_NUM_LIMIT) ks"
  shows "all_done ks sub = Inr (list_all (\<lambda>k. sub k = 0) ks)"
  using assms by (induction ks) (auto simp: cpu_index_def)

lemma check_done_ok:
  assumes "set_ok g cur"
  shows "check_done g cur sub =
    Inr (cur mod RATIO g = 0 \<and> (\<forall>k. cur \<le> k \<and> k < cur + RATIO g \<longrightarrow> sub k = 0))"
proof -
  have m: "c_mod cur (RATIO g) = Inr (cur mod RATIO g)"
    using assms by (intro c_mod_nonneg) (auto simp: set_ok_def int_ok_def)
  show ?thesis
  proof (cases "cur mod RATIO g = 0")
    case True
    then have "list_all (\<lambda>k. 0 \<le> k \<and> k < CPU_NUM_LIMIT) [cur..cur + RATIO g - 1]"
      using assms by (auto simp: set_ok_def list_all_iff)
    from all_done_ok [OF this, of sub] True show ?thesis
      by (auto simp: check_done_def m list_all_iff)
  qed (simp add: check_done_def m)
qed

lemma exec_entry_ok:
  assumes ch: "chan_ok g ch" "entries_ok ch" and k: "idx_ok g i j"
    and f: "perform arc tab (req_of (read_cell ch (i, j))) w = Inr (ret, w')"
  shows "exec_entry arc tab i j (ch, w) =
    Inr (write_cell (i, j) ((read_cell ch (i, j))\<lparr>sysret := ucast ret, rstatus := BENTRY_EMPTY\<rparr>) ch, w')"
proof -
  have "length (args (read_cell ch (i, j))) = 6" using ch(2) by (simp add: entries_ok_def)
  from perform_req_of [OF this, of arc tab w] f show ?thesis
    using chan_cells(2) [OF ch(1) k] by (auto simp: exec_entry_def Let_def split: option.splits prod.splits)
qed

lemma perform_ok: "req_ok tab r \<Longrightarrow> \<exists>ret w'. perform arc tab r w = Inr (ret, w')"
  by (cases r) (auto simp: req_ok_def perform_def)

lemma worker_step_ok:
  assumes ch: "chan_ok g (wl_ch l)" "entries_ok (wl_ch l)" and k: "idx_ok g (wl_i l) (wl_j l)"
    and s: "set_ok g cur" and r: "req_ok tab (req_of (read_cell (wl_ch l) (wl_i l, wl_j l)))"
  shows "\<exists>l' ret. worker_step arc tab g cur l = Inr l' \<and>
    (wl_i l', wl_j l') = worker_next g (wl_i l, wl_j l) \<and> wl_sub l' = (wl_sub l)(cur := wl_sub l cur - 1) \<and>
    perform arc tab (req_of (read_cell (wl_ch l) (wl_i l, wl_j l))) (wl_world l) = Inr (ret, wl_world l') \<and>
    wl_ch l' = write_cell (wl_i l, wl_j l)
      ((read_cell (wl_ch l) (wl_i l, wl_j l))\<lparr>sysret := ucast ret, rstatus := BENTRY_EMPTY\<rparr>) (wl_ch l) \<and>
    wl_wakes l' = (if cur mod RATIO g = 0 \<and> (\<forall>k. cur \<le> k \<and> k < cur + RATIO g \<longrightarrow> wl_sub l' k = 0)
      then wl_wakes l @ [cur] else wl_wakes l)"
proof -
  obtain ret w' where p: "perform arc tab (req_of (read_cell (wl_ch l) (wl_i l, wl_j l))) (wl_world l) = Inr (ret, w')"
    using perform_ok [OF r] by blast
  obtain i' j' where n: "worker_next g (wl_i l, wl_j l) = (i', j')" by fastforce
  show ?thesis
    by (simp add: worker_step_def exec_entry_ok [OF ch k p] check_done_ok [OF s] n p)
qed

text \<open>The slots a walk of \<open>n\<close> steps from \<open>p\<close> goes through.\<close>

definition walked :: "globals \<Rightarrow> nat \<Rightarrow> nat \<Rightarrow> cell set" where
  "walked g p n = (\<lambda>k. slot_cell g ((p + k) mod slots g)) ` {0..<n}"

lemma walked_Suc: "walked g p (Suc n) = insert (slot_cell g (p mod slots g)) (walked g (Suc p) n)"
  unfolding walked_def atLeast0_lessThan_Suc_eq_insert_0 image_insert image_image by simp

lemma walked_mod: "walked g (p mod slots g) n = walked g p n"
  by (simp add: walked_def mod_add_left_eq)

lemma req_at_mod: "req_at g ch (p mod slots g + k) = req_at g ch (p + k)"
  by (simp add: req_at_def mod_add_left_eq)

lemma same_calls_exec:
  "same_calls ch (write_cell c ((read_cell ch c)\<lparr>sysret := v, rstatus := b\<rparr>) ch)"
  by (auto simp: same_calls_def read_write_cell)

lemma worker_loop_ok:
  assumes "unat (wl_sub l cur) = n" and "chan_ok g (wl_ch l)" and "entries_ok (wl_ch l)"
    and "idx_ok g (wl_i l) (wl_j l)" and "set_ok g cur" and "spos g (wl_i l) (wl_j l) = p"
    and "\<forall>k < n. req_ok tab (req_at g (wl_ch l) (p + k))"
  shows "\<exists>l'. worker_loop arc tab g cur l = Inr l' \<and> wl_sub l' = (wl_sub l)(cur := 0) \<and>
    idx_ok g (wl_i l') (wl_j l') \<and> spos g (wl_i l') (wl_j l') = (p + n) mod slots g \<and>
    same_calls (wl_ch l) (wl_ch l') \<and>
    perform_all arc tab (map (\<lambda>k. req_at g (wl_ch l) (p + k)) [0..<n]) (wl_world l) = Inr (wl_world l') \<and>
    (\<forall>c. rstatus (read_cell (wl_ch l') c) =
       (if c \<in> walked g p n then BENTRY_EMPTY else rstatus (read_cell (wl_ch l) c)))"
  using assms
proof (induction n arbitrary: l p)
  case 0
  then have "wl_sub l cur = 0" by (simp add: unat_eq_zero)
  moreover have "p < slots g" using 0 spos_less chan_ok_ring by blast
  ultimately show ?case
    using 0 by (auto simp: worker_loop.simps [of _ _ _ _ l] same_calls_refl walked_def perform_all_def fun_upd_idem)
next
  case (Suc n)
  let ?c = "(wl_i l, wl_j l)" and ?N = "slots g"
  have r: "ring_ok g" using Suc.prems(2) by (rule chan_ok_ring)
  have p: "p < ?N" "slot_cell g p = ?c"
    using Suc.prems(4,6) spos_less [OF r] slot_cell_spos [OF r] by auto
  have first: "req_at g (wl_ch l) p = req_of (read_cell (wl_ch l) ?c)"
    using p by (simp add: req_at_def)
  have "req_ok tab (req_of (read_cell (wl_ch l) ?c))"
    using Suc.prems(7) first by (metis add.right_neutral zero_less_Suc)
  from worker_step_ok [OF Suc.prems(2,3,4,5) this, of arc]
  obtain l1 ret where l1: "worker_step arc tab g cur l = Inr l1"
    "(wl_i l1, wl_j l1) = worker_next g ?c" "wl_sub l1 = (wl_sub l)(cur := wl_sub l cur - 1)"
    "perform arc tab (req_of (read_cell (wl_ch l) ?c)) (wl_world l) = Inr (ret, wl_world l1)"
    "wl_ch l1 = write_cell ?c ((read_cell (wl_ch l) ?c)\<lparr>sysret := ucast ret, rstatus := BENTRY_EMPTY\<rparr>) (wl_ch l)"
    by blast
  have same: "same_calls (wl_ch l) (wl_ch l1)" unfolding l1(5) by (rule same_calls_exec)
  note F = same_calls_facts [OF same]
  have nz: "wl_sub l cur \<noteq> 0" using Suc.prems(1) by auto
  then have n: "unat (wl_sub l1 cur) = n"
    using Suc.prems(1) l1(3) by (simp add: unat_minus_one)
  have k1: "idx_ok g (wl_i l1) (wl_j l1)" "spos g (wl_i l1) (wl_j l1) = Suc p mod ?N"
    using worker_next_ok [OF r Suc.prems(4)] spos_next [OF r Suc.prems(4)] l1(2) Suc.prems(6)
    by (simp_all split: prod.splits)
  have reqs: "\<forall>k < n. req_ok tab (req_at g (wl_ch l1) (Suc p mod ?N + k))"
    using Suc.prems(7) by (auto simp: req_at_mod F)
  have c1: "chan_ok g (wl_ch l1)" "entries_ok (wl_ch l1)" using Suc.prems(2,3) F by simp_all
  from Suc.IH [OF n c1 k1(1) Suc.prems(5) k1(2) reqs]
  obtain l' where l': "worker_loop arc tab g cur l1 = Inr l'" "wl_sub l' = (wl_sub l1)(cur := 0)"
    "idx_ok g (wl_i l') (wl_j l')" "spos g (wl_i l') (wl_j l') = (Suc p mod ?N + n) mod ?N"
    "same_calls (wl_ch l1) (wl_ch l')"
    "perform_all arc tab (map (\<lambda>k. req_at g (wl_ch l1) (Suc p mod ?N + k)) [0..<n]) (wl_world l1) = Inr (wl_world l')"
    "\<forall>c. rstatus (read_cell (wl_ch l') c) =
       (if c \<in> walked g (Suc p mod ?N) n then BENTRY_EMPTY else rstatus (read_cell (wl_ch l1) c))"
    by blast
  have "worker_loop arc tab g cur l = Inr l'"
    using nz l1(1) l'(1) by (simp add: worker_loop.simps [of _ _ _ _ l])
  moreover have "spos g (wl_i l') (wl_j l') = (p + Suc n) mod ?N"
    using l'(4) by (simp add: mod_add_left_eq)
  moreover have "[0..<Suc n] = 0 # map Suc [0..<n]" by (simp add: map_Suc_upt upt_conv_Cons)
  then have "perform_all arc tab (map (\<lambda>k. req_at g (wl_ch l) (p + k)) [0..<Suc n]) (wl_world l) = Inr (wl_world l')"
    using l1(4) l'(6) by (simp add: perform_all_def first req_at_mod F o_def)
  moreover have "\<forall>c. rstatus (read_cell (wl_ch l') c) =
       (if c \<in> walked g p (Suc n) then BENTRY_EMPTY else rstatus (read_cell (wl_ch l) c))"
    using l'(7) p by (auto simp: walked_Suc walked_mod l1(5) read_write_cell simp del: split_paired_All)
  ultimately show ?case
    using l'(2,3) l1(3) same_calls_trans [OF same l'(5)] by auto
qed

section \<open>The channel is a bounded queue of calls\<close>

lemma n_pending_eqI:
  assumes "ring_ok g" and "hdr_ok g (hdr ch)" and "tail_pos g (hdr ch) = (head_pos g (hdr ch) + n) mod slots g"
    and "n < slots g"
  shows "n_pending g ch = n"
proof -
  have "head_pos g (hdr ch) = head_pos g (hdr ch) mod slots g"
    using assms(1,2) spos_less by (simp add: hdr_ok_def)
  then show ?thesis
    using submitted_count_distance [OF assms(1), of "head_table (hdr ch)" "head_entry (hdr ch)" "hdr ch"
        "head_pos g (hdr ch)" "head_pos g (hdr ch) + n"] assms
    by (simp add: n_pending_def hdr_ok_def)
qed

lemma n_pending_tail:
  assumes r: "ring_ok g" and h: "hdr_ok g (hdr ch)"
  shows "n_pending g ch < slots g" and "tail_pos g (hdr ch) = (head_pos g (hdr ch) + n_pending g ch) mod slots g"
proof -
  let ?H = "head_pos g (hdr ch)" and ?T = "tail_pos g (hdr ch)" and ?N = "slots g"
  have b: "?H < ?N" "?T < ?N" using h spos_less [OF r] by (simp_all add: hdr_ok_def)
  obtain n where n: "n < ?N" "?T = (?H + n) mod ?N"
  proof (cases "?H \<le> ?T")
    case True
    with b that [of "?T - ?H"] show ?thesis by simp
  next
    case False
    with b that [of "?N - ?H + ?T"] show ?thesis by simp
  qed
  with n_pending_eqI [OF r h n(2,1)] show "n_pending g ch < ?N" "?T = (?H + n_pending g ch) mod ?N"
    by simp_all
qed

lemma worker_pass_ok:
  assumes q: "queue_inv g tab ch" and s: "set_ok g cur"
  shows "\<exists>l. worker_pass arc tab g cur ch sub w = Inr l \<and> queue_inv g tab (wl_ch l) \<and>
    pending g (wl_ch l) = [] \<and> perform_all arc tab (pending g ch) w = Inr (wl_world l) \<and>
    wl_sub l = sub(cur := 0) \<and>
    (\<forall>c. rstatus (read_cell (wl_ch l) c) = (if c \<in> walked g (head_pos g (hdr ch)) (n_pending g ch)
       then BENTRY_EMPTY else rstatus (read_cell ch c))) \<and>
    hdr (wl_ch l) = (hdr ch)\<lparr>head_table := tail_table (hdr ch), head_entry := tail_entry (hdr ch)\<rparr>"
proof -
  let ?h = "hdr ch" and ?n = "n_pending g ch"
  have c: "chan_ok g ch" "hdr_ok g ?h" "entries_ok ch"
    "\<forall>k < ?n. req_ok tab (req_at g ch (head_pos g ?h + k))"
    using q by (auto simp: queue_inv_def)
  have r: "ring_ok g" using c(1) by (rule chan_ok_ring)
  let ?l0 = "\<lparr>wl_i = head_table ?h, wl_j = head_entry ?h, wl_ch = ch,
    wl_sub = sub(cur := submitted_count g ?h (head_table ?h) (head_entry ?h)), wl_wakes = [], wl_world = w\<rparr>"
  obtain l where l: "worker_loop arc tab g cur ?l0 = Inr l" "wl_sub l = sub(cur := 0)"
    "idx_ok g (wl_i l) (wl_j l)" "spos g (wl_i l) (wl_j l) = (head_pos g ?h + ?n) mod slots g"
    "same_calls ch (wl_ch l)"
    "perform_all arc tab (pending g ch) w = Inr (wl_world l)"
    "\<forall>c. rstatus (read_cell (wl_ch l) c) =
       (if c \<in> walked g (head_pos g ?h) ?n then BENTRY_EMPTY else rstatus (read_cell ch c))"
    using worker_loop_ok [of ?l0 cur ?n g "head_pos g ?h" tab arc] c s
    by (auto simp: n_pending_def pending_def hdr_ok_def simp del: split_paired_All)
  have t: "wl_i l = tail_table ?h" "wl_j l = tail_entry ?h"
    using spos_inj [OF r l(3), of "tail_table ?h" "tail_entry ?h"] l(4) n_pending_tail [OF r c(2)] c(2)
    by (simp_all add: hdr_ok_def)
  have sh: "short_of (tail_table ?h) = tail_table ?h" "short_of (tail_entry ?h) = tail_entry ?h"
    using c(2) ring_okD [OF r] by (auto simp: hdr_ok_def idx_ok_def intro!: short_of_id)
  define h' where "h' = ?h\<lparr>head_table := tail_table ?h, head_entry := tail_entry ?h\<rparr>"
  let ?l = "l\<lparr>wl_ch := (wl_ch l)\<lparr>hdr := h'\<rparr>\<rparr>"
  have hl: "hdr (wl_ch l) = ?h" using l(5) by (simp add: same_calls_def)
  have pass: "worker_pass arc tab g cur ch sub w = Inr ?l"
    using l(1) by (simp add: worker_pass_def t sh hl h'_def)
  have h': "hdr_ok g h'" using c(2) by (simp add: h'_def hdr_ok_def)
  have n0: "n_pending g (wl_ch ?l) = 0"
    using r h' spos_less [OF r] ring_okD(6) [OF r]
    by (intro n_pending_eqI) (simp_all add: h'_def hdr_ok_def)
  have "chan_ok g (wl_ch ?l)" "entries_ok (wl_ch ?l)"
    using l(5) c by (simp_all add: same_calls_def chan_ok_def mapped_def h'_def entries_ok_def)
  with h' n0 have "queue_inv g tab (wl_ch ?l)" by (simp add: queue_inv_def)
  with pass n0 l show ?thesis
    by (intro exI [of _ ?l]) (simp add: pending_def h'_def)
qed

lemma submit_chan_ok:
  assumes q: "queue_inv g tab ch" and rq: "req_ok tab r" and n: "n_pending g ch + 1 < slots g"
  shows "\<exists>ch'. submit_chan g r ch = Inr ch' \<and> queue_inv g tab ch' \<and> pending g ch' = pending g ch @ [r] \<and>
    hdr ch' = advance_tail g (hdr ch) \<and>
    (\<forall>c. c \<noteq> (tail_table (hdr ch), tail_entry (hdr ch)) \<longrightarrow> read_cell ch' c = read_cell ch c)"
proof -
  let ?h = "hdr ch" and ?n = "n_pending g ch" and ?N = "slots g"
  let ?H = "head_pos g ?h" and ?t = "(tail_table ?h, tail_entry ?h)"
  have c: "chan_ok g ch" "hdr_ok g ?h" "entries_ok ch"
    "\<forall>k < ?n. req_ok tab (req_at g ch (?H + k)) \<and>
       rstatus (read_cell ch (slot_cell g ((?H + k) mod ?N))) = BENTRY_BUSY"
    using q by (auto simp: queue_inv_def)
  have rg: "ring_ok g" using c(1) by (rule chan_ok_ring)
  have ti: "idx_ok g (tail_table ?h) (tail_entry ?h)" using c(2) by (simp add: hdr_ok_def)
  note T = n_pending_tail [OF rg c(2)]
  have cell: "slot_cell g ((?H + ?n) mod ?N) = ?t" using slot_cell_spos [OF rg ti] T by simp
  have other: "slot_cell g ((?H + k) mod ?N) \<noteq> ?t" if "k < ?n" for k
    using that T(1) mod_neq_of_close [of "?H + k" "?H + ?n" ?N] cell slot_cell_inj [OF rg] by fastforce
  have nf: "\<not> wait_full ?h"
  proof (cases "tail_entry ?h = MAX_TABLE_ENTRY g - 1")
    case True
    then show ?thesis using wait_full_last c(2) by blast
  next
    case False
    have "?H mod ?N \<noteq> (?H + Suc ?n) mod ?N" using n by (intro mod_neq_of_close) auto
    then show ?thesis
      using wait_full_iff [OF rg c(2) False] T(2) c(2) spos_less [OF rg] by (simp add: hdr_ok_def mod_Suc_eq)
  qed
  define e where "e = fill_entry r (read_cell ch ?t)"
  define ch' where "ch' = write_cell ?t (e\<lparr>rstatus := BENTRY_BUSY\<rparr>) ((write_cell ?t e ch)\<lparr>hdr := advance_tail g ?h\<rparr>)"
  have uc: "user_cell ch (tail_table ?h) (tail_entry ?h) = Inr ?t" using c(1) ti by (rule chan_cells)
  have "submit_chan g r ch = Inr ch'"
    using nf by (simp add: submit_chan_def uc update_index_def cells_hdr_cong read_write_cell Let_def
        ch'_def e_def)
  moreover have h': "hdr ch' = advance_tail g ?h" by (simp add: ch'_def)
  moreover have rd: "read_cell ch' c = (if c = ?t then e\<lparr>rstatus := BENTRY_BUSY\<rparr> else read_cell ch c)" for c
    by (auto simp: ch'_def read_write_cell)
  have ok': "hdr_ok g (hdr ch')" unfolding h' using rg c(2) by (rule hdr_ok_advance)
  have n': "n_pending g ch' = Suc ?n"
  proof (rule n_pending_eqI [OF rg ok'])
    show "tail_pos g (hdr ch') = (head_pos g (hdr ch') + Suc ?n) mod ?N"
      using producer.pos_nxt [of g ?h] rg c(2) T(2) by (simp add: h' mod_Suc_eq)
  qed (use n in simp)
  have req_new: "req_of (e\<lparr>rstatus := BENTRY_BUSY\<rparr>) = r"
    using rq by (cases r) (auto simp: e_def fill_entry_def req_of_def req_ok_def)
  have reqs: "req_at g ch' (?H + k) = (if k = ?n then r else req_at g ch (?H + k))" if "k \<le> ?n" for k
    using that other [of k] cell req_new by (auto simp: req_at_def rd)
  have "pending g ch' = pending g ch @ [r]"
    using reqs by (simp add: pending_def n' h')
  moreover have "chan_ok g ch'" using c(1) by (simp add: chan_ok_def mapped_def ch'_def)
  moreover have "length (args e) = 6"
    using c(3) rq by (cases r) (auto simp: e_def fill_entry_def entries_ok_def req_ok_def)
  then have "entries_ok ch'" using c(3) by (auto simp: entries_ok_def rd)
  moreover have "\<forall>k < Suc ?n. req_ok tab (req_at g ch' (?H + k)) \<and>
       rstatus (read_cell ch' (slot_cell g ((?H + k) mod ?N))) = BENTRY_BUSY"
    using reqs c(4) rq other cell by (auto simp: less_Suc_eq rd)
  ultimately show ?thesis
    using ok' n' rd by (intro exI [of _ ch']) (simp add: queue_inv_def)
qed

section \<open>The queue as an interface\<close>

text \<open>
  What a server relies on: a submission appends a call, a pass performs the pending calls in
  order and leaves none.
\<close>

locale call_queue =
  fixes inv :: "'q \<Rightarrow> bool" and pend :: "'q \<Rightarrow> 'r list" and ok :: "'r \<Rightarrow> bool" and cap :: nat
    and submit :: "'r \<Rightarrow> 'q \<Rightarrow> 'q res" and pass :: "'q \<Rightarrow> 'w \<Rightarrow> ('q \<times> 'w) res"
    and run :: "'r list \<Rightarrow> 'w \<Rightarrow> 'w res"
  assumes submit_law: "inv q \<Longrightarrow> ok r \<Longrightarrow> length (pend q) < cap \<Longrightarrow>
      \<exists>q'. submit r q = Inr q' \<and> inv q' \<and> pend q' = pend q @ [r]"
    and pass_law: "inv q \<Longrightarrow>
      \<exists>q' w'. pass q w = Inr (q', w') \<and> inv q' \<and> pend q' = [] \<and> run (pend q) w = Inr w'"
    and run_Nil: "run [] w = Inr w"
    and run_append: "run (xs @ ys) w = bind_res (run xs w) (run ys)"
begin

lemma submit_batch:
  "inv q \<Longrightarrow> list_all ok rs \<Longrightarrow> length (pend q) + length rs \<le> cap \<Longrightarrow>
   \<exists>q'. fold_res submit rs q = Inr q' \<and> inv q' \<and> pend q' = pend q @ rs"
proof (induction rs arbitrary: q)
  case (Cons r rs)
  then obtain q1 where q1: "submit r q = Inr q1" "inv q1" "pend q1 = pend q @ [r]"
    using submit_law [of q r] by auto
  with Cons.IH [of q1] Cons.prems show ?case by auto
qed simp

text \<open>One round of an event loop: submit a batch, let the worker make a pass.\<close>

lemma batch_pass:
  assumes "inv q" and "list_all ok rs" and "length (pend q) + length rs \<le> cap"
  shows "\<exists>q1 q2 w'. fold_res submit rs q = Inr q1 \<and> pass q1 w = Inr (q2, w') \<and> inv q2 \<and>
    pend q2 = [] \<and> run (pend q @ rs) w = Inr w'"
proof -
  obtain q1 where q1: "fold_res submit rs q = Inr q1" "inv q1" "pend q1 = pend q @ rs"
    using submit_batch [OF assms] by blast
  with pass_law [of q1 w] show ?thesis by auto
qed

end

text \<open>Rounds of an event loop, one batch after the other.\<close>

fun rounds ::
  "('r \<Rightarrow> 'q \<Rightarrow> 'q res) \<Rightarrow> ('q \<Rightarrow> 'w \<Rightarrow> ('q \<times> 'w) res) \<Rightarrow> 'r list list \<Rightarrow> 'q \<Rightarrow> 'w \<Rightarrow> ('q \<times> 'w) res" where
  "rounds sub pas [] q w = Inr (q, w)"
| "rounds sub pas (rs # rss) q w =
     bind_res (fold_res sub rs q) (\<lambda>q. bind_res (pas q w) (\<lambda>(q, w). rounds sub pas rss q w))"

context call_queue
begin

lemma rounds_run:
  assumes "inv q" and "pend q = []" and "list_all (\<lambda>rs. list_all ok rs \<and> length rs \<le> cap) rss"
  shows "\<exists>q' w'. rounds submit pass rss q w = Inr (q', w') \<and> inv q' \<and> pend q' = [] \<and>
    run (concat rss) w = Inr w'"
  using assms
proof (induction rss arbitrary: q w)
  case Nil
  then show ?case by (simp add: run_Nil)
next
  case (Cons rs rss)
  obtain q1 q2 w1 where q: "fold_res submit rs q = Inr q1" "pass q1 w = Inr (q2, w1)" "inv q2"
    "pend q2 = []" "run rs w = Inr w1"
    using batch_pass [of q rs w] Cons.prems by auto
  with Cons.IH [of q2 w1] Cons.prems show ?case by (auto simp: run_append)
qed

end

definition pass_of ::
  "arch \<Rightarrow> 'w systab \<Rightarrow> globals \<Rightarrow> int \<Rightarrow> (int \<Rightarrow> 16 word) \<Rightarrow> chan \<Rightarrow> 'w \<Rightarrow> (chan \<times> 'w) res" where
  "pass_of arc tab g cur sub ch w =
     bind_res (worker_pass arc tab g cur ch sub w) (\<lambda>l. Inr (wl_ch l, wl_world l))"

lemma perform_all_append:
  "perform_all arc tab (xs @ ys) w = bind_res (perform_all arc tab xs w) (perform_all arc tab ys)"
  unfolding perform_all_def by (rule fold_res_append)

interpretation kq: call_queue "\<lambda>ch. set_ok g cur \<and> queue_inv g tab ch" "pending g" "req_ok tab"
  "slots g - 1" "submit_chan g" "pass_of arc tab g cur sub" "perform_all arc tab"
  for g cur arc sub and tab :: "'w systab"
proof (unfold_locales, goal_cases)
  case (1 ch r)
  then have "n_pending g ch + 1 < slots g" by (simp add: pending_def)
  with 1 show ?case using submit_chan_ok [of g tab ch r] by blast
next
  case (2 ch w)
  then obtain l where "worker_pass arc tab g cur ch sub w = Inr l" "queue_inv g tab (wl_ch l)"
    "pending g (wl_ch l) = []" "perform_all arc tab (pending g ch) w = Inr (wl_world l)"
    using worker_pass_ok [of g tab ch cur arc sub w] by blast
  with 2 show ?case by (simp add: pass_of_def)
next
  case (3 w)
  then show ?case by (simp add: perform_all_def)
next
  case (4 xs ys w)
  then show ?case by (rule perform_all_append)
qed

section \<open>A sample queue\<close>

text \<open>
  A system-call table with one handler, which logs its first argument, and the channel with two
  pending calls across the end of the ring.
\<close>

definition sample_tab :: "64 word list systab" where
  "sample_tab num = (if num = 3 then Some (\<lambda>r w. (0, w @ [di r])) else None)"

definition sample_queue :: chan where
  "sample_queue = (sample_chan 64 (sample_hdr 1 63 0 1))\<lparr>ents := \<lambda>i j. sample_entry
     \<lparr>nargs := 1, rstatus := 1, sysnum := 3, args := [of_nat (spos sample_globals i j), 0, 0, 0, 0, 0]\<rparr>\<rparr>"

lemma sample_set_ok [simp]: "set_ok sample_globals 0"
  by (simp add: set_ok_def)

lemma chan_ok_cong:
  "hdr ch' = hdr ch \<Longrightarrow> psz ch' = psz ch \<Longrightarrow> npages ch' = npages ch \<Longrightarrow> chan_ok g ch' = chan_ok g ch"
  by (simp add: chan_ok_def mapped_def)

lemma sample_queue_simps:
  "head_pos sample_globals (hdr sample_queue) = 127" "n_pending sample_globals sample_queue = 2"
  "req_at sample_globals sample_queue p = (3, 1, [of_nat (p mod 128)])"
  "rstatus (read_cell sample_queue c) = BENTRY_BUSY"
  by (simp_all add: sample_queue_def sample_chan_def n_pending_def submitted_count_def slot_index_def
      spos_def req_at_def read_cell_def slot_cell_def req_of_def BENTRY_BUSY_def)

lemma sample_queue_inv: "queue_inv sample_globals sample_tab sample_queue"
proof -
  have "chan_ok sample_globals sample_queue"
    using chan_ok_cong [of sample_queue "sample_chan 64 (sample_hdr 1 63 0 1)" sample_globals]
    by (simp add: sample_queue_def)
  moreover have "hdr_ok sample_globals (hdr sample_queue)"
    by (simp add: sample_queue_def sample_chan_def hdr_ok_def idx_ok_def)
  ultimately show ?thesis
    by (simp add: queue_inv_def sample_queue_simps req_ok_def sample_tab_def entries_ok_def)
      (simp add: sample_queue_def read_cell_def)
qed

lemma sample_queue_pending: "pending sample_globals sample_queue = [(3, 1, [127]), (3, 1, [0])]"
  by (simp add: pending_def sample_queue_simps upt_rec)

lemma sample_perform:
  "perform arc sample_tab (3, 1, [a]) w =
    Inr (0, w @ [if arc = X86_64 then a else 0])"
  by (cases arc) (simp_all add: perform_def sample_tab_def indirect_call_def frame_defs)

section \<open>Properties\<close>

text \<open>
  A submission to a ring with room for it appends the call to the pending ones: it writes
  no entry but the one at the tail, moves the tail by one, marks the entry busy, and keeps the
  queue's invariant.
\<close>

theorem submit_chan_appends:
  assumes "queue_inv g tab ch" and "req_ok tab r" and "length (pending g ch) + 1 < slots g"
  shows "\<exists>ch'. submit_chan g r ch = Inr ch' \<and> queue_inv g tab ch' \<and> pending g ch' = pending g ch @ [r] \<and>
    hdr ch' = advance_tail g (hdr ch) \<and>
    (\<forall>c. c \<noteq> (tail_table (hdr ch), tail_entry (hdr ch)) \<longrightarrow> read_cell ch' c = read_cell ch c)"
  using assms by (intro submit_chan_ok) (auto simp: pending_def)

theorem submit_chan_appends_witness:
  "\<exists>ch'. submit_chan sample_globals (3, 1, [42]) sample_queue = Inr ch' \<and>
    pending sample_globals ch' = [(3, 1, [127]), (3, 1, [0]), (3, 1, [42])]"
  using submit_chan_appends [of sample_globals sample_tab sample_queue "(3, 1, [42])"] sample_queue_inv
  by (fastforce simp: sample_queue_pending req_ok_def sample_tab_def)

text \<open>
  A pass of the worker returns after performing exactly the pending calls, each once, in
  the order of submission; it leaves the head at the tail, the performed entries empty, every
  other entry's status as it was, and its counter at zero.
\<close>

theorem worker_pass_in_order:
  assumes "queue_inv g tab ch" and "set_ok g cur"
  shows "\<exists>l. worker_pass arc tab g cur ch sub w = Inr l \<and> queue_inv g tab (wl_ch l) \<and>
    pending g (wl_ch l) = [] \<and> perform_all arc tab (pending g ch) w = Inr (wl_world l) \<and>
    wl_sub l = sub(cur := 0) \<and>
    (\<forall>c. rstatus (read_cell (wl_ch l) c) = (if c \<in> walked g (head_pos g (hdr ch)) (n_pending g ch)
       then BENTRY_EMPTY else rstatus (read_cell ch c))) \<and>
    hdr (wl_ch l) = (hdr ch)\<lparr>head_table := tail_table (hdr ch), head_entry := tail_entry (hdr ch)\<rparr>"
  using assms by (rule worker_pass_ok)

theorem worker_pass_in_order_witness:
  "\<exists>l. worker_pass X86_64 sample_tab sample_globals 0 sample_queue (\<lambda>_. 0) [] = Inr l \<and>
    wl_world l = [127, 0] \<and> pending sample_globals (wl_ch l) = []"
  using worker_pass_in_order [of sample_globals sample_tab sample_queue 0 X86_64 "\<lambda>_. 0" "[]"] sample_queue_inv
  by (auto simp: sample_queue_pending perform_all_def sample_perform)

text \<open>
  Rounds of submitting a batch of fewer calls than the ring has slots and letting the
  worker make a pass perform all calls of all batches in the order they were submitted, as if
  they had been called directly one after the other.
\<close>

theorem rounds_perform_in_order:
  assumes "queue_inv g tab ch" and "pending g ch = []" and "set_ok g cur"
    and "list_all (\<lambda>rs. list_all (req_ok tab) rs \<and> length rs < slots g) rss"
  shows "\<exists>ch' w'. rounds (submit_chan g) (pass_of arc tab g cur sub) rss ch w = Inr (ch', w') \<and>
    queue_inv g tab ch' \<and> pending g ch' = [] \<and> perform_all arc tab (concat rss) w = Inr w'"
proof -
  have "list_all (\<lambda>rs. list_all (req_ok tab) rs \<and> length rs \<le> slots g - 1) rss"
    using assms(4) by (auto simp: list_all_iff)
  from kq.rounds_run [of g cur tab ch rss arc sub w] this assms(1-3) show ?thesis by blast
qed

theorem rounds_perform_in_order_witness:
  "\<exists>ch'. rounds (submit_chan sample_globals) (pass_of X86_64 sample_tab sample_globals 0 (\<lambda>_. 0))
     [[(3, 1, [7]), (3, 1, [8])], [(3, 1, [9])]] (sample_chan 64 (sample_hdr 1 63 1 63)) [] = Inr (ch', [7, 8, 9]) \<and>
   pending sample_globals ch' = []"
proof -
  have "queue_inv sample_globals sample_tab (sample_chan 64 (sample_hdr 1 63 1 63)) \<and>
      pending sample_globals (sample_chan 64 (sample_hdr 1 63 1 63)) = []"
    by (simp add: queue_inv_def pending_def n_pending_def submitted_count_def entries_ok_def read_cell_def
        hdr_ok_def idx_ok_def sample_chan_ok) (simp add: sample_chan_def sample_entry_def)
  with rounds_perform_in_order [of sample_globals sample_tab "sample_chan 64 (sample_hdr 1 63 1 63)" 0
      "[[(3, 1, [7]), (3, 1, [8])], [(3, 1, [9])]]" X86_64 "\<lambda>_. 0" "[]"]
  show ?thesis by (auto simp: perform_all_def sample_perform req_ok_def sample_tab_def)
qed

end
