(* ===== verification/Batch_Control.thy ===== *)
theory Batch_Control
  imports Kernel_Worker
begin

text \<open>
  The functions a server calls around a batch (\<open>batch_start\<close>, \<open>batch_flush\<close>,
  \<open>toggle_region\<close> of \<open>wrapper/preload.c\<close>), the system calls behind them
  (\<open>sys_esca_wakeup\<close>, \<open>sys_esca_wait\<close> of \<open>module/lioo.c\<close>) and the do-nothing versions of
  \<open>wrapper/dummy.c\<close>.
\<close>

section \<open>System calls\<close>

text \<open>The result says whether the threads waiting on \<open>worker_wait[i]\<close> are woken.\<close>

definition sys_esca_wakeup :: "int \<Rightarrow> saio \<Rightarrow> bool res" where
  "sys_esca_wakeup i s =
     bind_res (ktable_at s i) (\<lambda>p.
     bind_res (hdr_at s p) (\<lambda>ch.
     Inr (flags (hdr ch) AND ESCA_START_WAKEUP \<noteq> 0)))"

text \<open>
  \<open>wait_event_interruptible(wq[idx], 1)\<close>: the condition is the constant 1, so the call returns
  without looking at the queue.
\<close>

definition sys_esca_wait :: "int \<Rightarrow> saio \<Rightarrow> unit res" where
  "sys_esca_wait idx s = cpu_index idx"

section \<open>Around a batch\<close>

definition set_flags :: "32 word \<Rightarrow> chan \<Rightarrow> chan" where
  "set_flags f ch = ch\<lparr>hdr := (hdr ch)\<lparr>flags := f\<rparr>\<rparr>"

text \<open>One turn of the loop of \<open>batch_start\<close>; the list collects the wait queues woken.\<close>

definition wake_table :: "int \<Rightarrow> saio \<times> int list \<Rightarrow> (saio \<times> int list) res" where
  "wake_table j sw = (case sw of (s, ws) \<Rightarrow>
     bind_res (utable_at s j) (\<lambda>p.
     bind_res (hdr_at s p) (\<lambda>ch.
     if flags (hdr ch) AND ESCA_WORKER_NEED_WAKEUP \<noteq> 0 then
       let s = put_hdr p (set_flags (flags (hdr ch) OR ESCA_START_WAKEUP) ch) s in
       bind_res (sys_esca_wakeup j s) (\<lambda>woken.
       bind_res (hdr_at s p) (\<lambda>ch.
       Inr (put_hdr p (set_flags (flags (hdr ch) AND NOT ESCA_START_WAKEUP) ch) s,
            if woken then ws @ [j] else ws)))
     else Inr (s, ws))))"

definition batch_start :: "saio \<Rightarrow> (64 word \<times> saio \<times> int list) res" where
  "batch_start s =
     (let i = this_worker_id s; s = s\<lparr>in_segment := 1\<rparr>; r = RATIO (glob s) in
     bind_res (fold_res wake_table [i * r..i * r + r - 1] (s, [])) (\<lambda>(s, ws). Inr (0, s, ws)))"

definition batch_flush :: "saio \<Rightarrow> (64 word \<times> saio) res" where
  "batch_flush s =
     (let s = s\<lparr>in_segment := 0\<rparr> in
     if batch_num s = 0 then Inr (0, s)
     else bind_res (sys_esca_wait (this_worker_id s * RATIO (glob s)) s) (\<lambda>_.
       Inr (0, s\<lparr>batch_num := 0\<rparr>)))"

definition toggle_region :: "saio \<Rightarrow> saio" where
  "toggle_region s = s\<lparr>in_segment := in_segment s XOR 1\<rparr>"

text \<open>The library a server is linked with when it runs without the wrapper.\<close>

definition dummy_batch_start :: "saio \<Rightarrow> (64 word \<times> saio) res" where
  "dummy_batch_start s = Inr (0, s)"

definition dummy_batch_flush :: "saio \<Rightarrow> (64 word \<times> saio) res" where
  "dummy_batch_flush s = Inr (0, s)"

definition dummy_init_worker :: "int \<Rightarrow> saio \<Rightarrow> saio res" where
  "dummy_init_worker wid s = Inr s"

definition dummy_toggle_region :: "saio \<Rightarrow> saio" where
  "dummy_toggle_region s = s"

section \<open>The tables of a process\<close>

definition own :: "saio \<Rightarrow> int \<Rightarrow> bool" where
  "own s t \<longleftrightarrow> this_worker_id s * RATIO (glob s) \<le> t \<and>
     t < this_worker_id s * RATIO (glob s) + RATIO (glob s)"

definition chan_at :: "saio \<Rightarrow> int \<Rightarrow> chan" where
  "chan_at s t = mem s (fst (the (utable s t))) (snd (the (utable s t)))"

text \<open>
  The process and the module agree on where the headers of the set are, and the headers are
  different ones.
\<close>

definition attached :: "saio \<Rightarrow> bool" where
  "attached s \<longleftrightarrow> 1 \<le> RATIO (glob s) \<and> 0 \<le> this_worker_id s \<and>
     (this_worker_id s + 1) * RATIO (glob s) \<le> CPU_NUM_LIMIT \<and>
     (\<forall>t. own s t \<longrightarrow> (\<exists>pg k. utable s t = Some (pg, k) \<and> ktable s t = Some (pg, k) \<and> 0 \<le> k \<and>
        (k + 1) * sizeof_table \<le> pgsize s)) \<and>
     (\<forall>t t'. own s t \<and> own s t' \<and> utable s t = utable s t' \<longrightarrow> t = t')"

definition queues_ok :: "'w systab \<Rightarrow> saio \<Rightarrow> bool" where
  "queues_ok tab s \<longleftrightarrow> attached s \<and> (\<forall>t. own s t \<longrightarrow> queue_inv (glob s) tab (chan_at s t))"

lemma own_cpu:
  assumes "attached s" and "own s t"
  shows "cpu_index t = Inr ()"
proof -
  let ?i = "this_worker_id s" and ?r = "RATIO (glob s)"
  have a: "1 \<le> ?r" "0 \<le> ?i" "(?i + 1) * ?r \<le> 100" using assms(1) by (simp_all add: attached_def)
  have "0 \<le> ?i * ?r" using a by (intro mult_nonneg_nonneg) auto
  moreover have "?i * ?r + ?r \<le> 100" using a(3) by (simp add: distrib_right)
  ultimately show ?thesis using assms(2) by (simp add: own_def cpu_index_def)
qed

text \<open>Access to an own table through either side's pointer.\<close>

lemma own_access:
  assumes "attached s" and "own s t"
  obtains p where "utable_at s t = Inr p" "ktable_at s t = Inr p" "hdr_at s p = Inr (chan_at s t)"
    "utable s t = Some p"
proof -
  obtain pg k where p: "utable s t = Some (pg, k)" "ktable s t = Some (pg, k)" "0 \<le> k"
    "(k + 1) * sizeof_table \<le> pgsize s"
    using assms unfolding attached_def by blast
  show thesis
    using p own_cpu [OF assms]
    by (intro that [of "(pg, k)"]) (simp_all add: utable_at_def ktable_at_def hdr_at_def chan_at_def)
qed

lemma put_hdr_frame [simp]:
  "glob (put_hdr p ch s) = glob s" "this_worker_id (put_hdr p ch s) = this_worker_id s"
  "utable (put_hdr p ch s) = utable s" "ktable (put_hdr p ch s) = ktable s"
  "pgsize (put_hdr p ch s) = pgsize s" "in_segment (put_hdr p ch s) = in_segment s"
  "batch_num (put_hdr p ch s) = batch_num s" "kglob (put_hdr p ch s) = kglob s"
  by (simp_all add: put_hdr_def)

lemma attached_cong:
  assumes "glob s' = glob s" "this_worker_id s' = this_worker_id s" "utable s' = utable s"
    "ktable s' = ktable s" "pgsize s' = pgsize s"
  shows "attached s' = attached s" and "own s' = own s" and "mem s' = mem s \<Longrightarrow> chan_at s' = chan_at s"
  using assms by (simp_all add: attached_def own_def chan_at_def fun_eq_iff)

lemma chan_at_put:
  assumes "attached s" and "own s t" and "utable s t = Some p" and "own s t'"
  shows "chan_at (put_hdr p ch s) t' = (if t' = t then ch else chan_at s t')"
proof -
  obtain p' where p': "utable s t' = Some p'" using own_access [OF assms(1,4)] by metis
  moreover have "p' = p \<longleftrightarrow> t' = t" using assms p' unfolding attached_def by auto
  ultimately show ?thesis
    using assms(3) by (cases p; cases p') (auto simp: chan_at_def put_hdr_def)
qed

section \<open>Flags\<close>

lemma flag_vals: "ESCA_WORKER_NEED_WAKEUP = 2" "ESCA_START_WAKEUP = 4"
  by (simp_all add: ESCA_WORKER_NEED_WAKEUP_def ESCA_START_WAKEUP_def)

lemma start_flag_roundtrip:
  assumes "f AND ESCA_START_WAKEUP = 0"
  shows "(f OR ESCA_START_WAKEUP) AND ESCA_START_WAKEUP \<noteq> 0"
    and "(f OR ESCA_START_WAKEUP) AND NOT ESCA_START_WAKEUP = f"
proof -
  show "(f OR ESCA_START_WAKEUP) AND ESCA_START_WAKEUP \<noteq> 0"
    by (simp add: flag_vals bit.conj_disj_distrib2)
  have "f = f AND (ESCA_START_WAKEUP OR NOT ESCA_START_WAKEUP)" by simp
  then have "f AND NOT ESCA_START_WAKEUP = f" using assms by (simp only: bit.conj_disj_distrib or.left_neutral)
  then show "(f OR ESCA_START_WAKEUP) AND NOT ESCA_START_WAKEUP = f"
    by (simp add: bit.conj_disj_distrib2)
qed

section \<open>Starting and ending a batch\<close>

lemma wake_table_ok:
  assumes "attached s" and "own s j" and "flags (hdr (chan_at s j)) AND ESCA_START_WAKEUP = 0"
  shows "wake_table j (s, ws) =
    Inr (s, if flags (hdr (chan_at s j)) AND ESCA_WORKER_NEED_WAKEUP \<noteq> 0 then ws @ [j] else ws)"
proof -
  obtain p where p: "utable_at s j = Inr p" "ktable_at s j = Inr p" "hdr_at s p = Inr (chan_at s j)"
    "utable s j = Some p" by (rule own_access [OF assms(1,2)])
  obtain pg k where pk: "p = (pg, k)" by (cases p)
  let ?f = "flags (hdr (chan_at s j))"
  let ?s1 = "put_hdr p (set_flags (?f OR ESCA_START_WAKEUP) (chan_at s j)) s"
  have h: "hdr_at ?s1 p = Inr (set_flags (?f OR ESCA_START_WAKEUP) (chan_at s j))"
    using p(3) by (simp add: pk hdr_at_def put_hdr_def split: if_splits)
  have k: "ktable_at ?s1 j = Inr p" using p(2) by (simp add: ktable_at_def)
  have fl: "flags (hdr (set_flags x ch)) = x" "set_flags x (set_flags y ch) = set_flags x ch"
    "set_flags (flags (hdr ch)) ch = ch" for x y ch
    by (simp_all add: set_flags_def)
  have undo: "put_hdr p (chan_at s j) ?s1 = s"
    using p(4) by (simp add: put_hdr_def chan_at_def pk)
  show ?thesis
    using start_flag_roundtrip [OF assms(3)]
    by (simp add: wake_table_def p(1,3) sys_esca_wakeup_def k h fl Let_def undo)
qed

lemma batch_start_loop:
  assumes "attached s" and "list_all (\<lambda>j. own s j \<and> flags (hdr (chan_at s j)) AND ESCA_START_WAKEUP = 0) js"
  shows "fold_res wake_table js (s, ws) =
    Inr (s, ws @ filter (\<lambda>j. flags (hdr (chan_at s j)) AND ESCA_WORKER_NEED_WAKEUP \<noteq> 0) js)"
  using assms(2) by (induction js arbitrary: ws) (simp_all add: wake_table_ok [OF assms(1)])

lemma batch_start_ok:
  assumes "attached s"
    and "\<forall>j. own s j \<longrightarrow> flags (hdr (chan_at s j)) AND ESCA_START_WAKEUP = 0"
  shows "batch_start s = Inr (0, s\<lparr>in_segment := 1\<rparr>,
    filter (\<lambda>j. flags (hdr (chan_at s j)) AND ESCA_WORKER_NEED_WAKEUP \<noteq> 0)
      [this_worker_id s * RATIO (glob s)..this_worker_id s * RATIO (glob s) + RATIO (glob s) - 1])"
proof -
  let ?s = "s\<lparr>in_segment := 1\<rparr>"
  have c: "attached ?s" "own ?s = own s" "chan_at ?s = chan_at s"
    using attached_cong [of ?s s] assms(1) by simp_all
  then have "list_all (\<lambda>j. own ?s j \<and> flags (hdr (chan_at ?s j)) AND ESCA_START_WAKEUP = 0)
      [this_worker_id s * RATIO (glob s)..this_worker_id s * RATIO (glob s) + RATIO (glob s) - 1]"
    using assms(2) by (simp add: list_all_iff own_def)
  from batch_start_loop [OF c(1) this, of "[]"] show ?thesis
    by (simp add: batch_start_def c(3) Let_def)
qed

lemma batch_flush_ok:
  assumes "attached s"
  shows "batch_flush s = Inr (0, s\<lparr>in_segment := 0, batch_num := 0\<rparr>)"
proof -
  have "own s (this_worker_id s * RATIO (glob s))" using assms by (simp add: attached_def own_def)
  from own_cpu [OF assms this] show ?thesis
    by (simp add: batch_flush_def sys_esca_wait_def Let_def)
qed

section \<open>A sample process\<close>

text \<open>The process of the sample configuration after start-up; its second worker sleeps.\<close>

definition sample_ready :: saio where
  "sample_ready = sample_saio\<lparr>
     mem := (\<lambda>pg k. sample_chan 64 ((sample_hdr 0 0 0 0)\<lparr>flags := (if k = 1 then 2 else 0)\<rparr>)),
     utable := [0 \<mapsto> (3, 0), 1 \<mapsto> (3, 1)], ktable := [0 \<mapsto> (3, 0), 1 \<mapsto> (3, 1)]\<rparr>"

lemma sample_ready_simps [simp]:
  "glob sample_ready = sample_globals" "this_worker_id sample_ready = 0" "in_segment sample_ready = 0"
  "batch_num sample_ready = 0" "pgsize sample_ready = 4096"
  "own sample_ready t \<longleftrightarrow> t = 0 \<or> t = 1"
  "chan_at sample_ready 0 = sample_chan 64 (sample_hdr 0 0 0 0)"
  "chan_at sample_ready 1 = sample_chan 64 ((sample_hdr 0 0 0 0)\<lparr>flags := 2\<rparr>)"
  by (auto simp: sample_ready_def sample_saio_def own_def chan_at_def sample_hdr_def)

lemma sample_ready_attached: "attached sample_ready"
proof -
  have "utable sample_ready = [0 \<mapsto> (3, 0), 1 \<mapsto> (3, 1)]" "ktable sample_ready = [0 \<mapsto> (3, 0), 1 \<mapsto> (3, 1)]"
    by (simp_all add: sample_ready_def)
  then show ?thesis by (auto simp: attached_def)
qed

section \<open>Properties\<close>

text \<open>
  C21: \<open>batch_start\<close> wakes exactly the kernel workers of the process that asked for it, in the
  order of their tables, whatever the flags of the others; it opens the batch and leaves every
  header as it was, \<open>ESCA_START_WAKEUP\<close> included.
\<close>

theorem batch_start_wakes:
  assumes "attached s"
    and "\<forall>j. own s j \<longrightarrow> flags (hdr (chan_at s j)) AND ESCA_START_WAKEUP = 0"
  shows "batch_start s = Inr (0, s\<lparr>in_segment := 1\<rparr>,
    filter (\<lambda>j. flags (hdr (chan_at s j)) AND ESCA_WORKER_NEED_WAKEUP \<noteq> 0)
      [this_worker_id s * RATIO (glob s)..this_worker_id s * RATIO (glob s) + RATIO (glob s) - 1])"
  using assms by (rule batch_start_ok)

theorem batch_start_wakes_witness:
  "batch_start sample_ready = Inr (0, sample_ready\<lparr>in_segment := 1\<rparr>, [1])"
  using batch_start_wakes [of sample_ready] sample_ready_attached
  by (simp add: sample_chan_def flag_vals upto_rec1)

text \<open>
  \<open>batch_flush\<close> does not wait: whatever the state of the queues it returns at once, with
  every header and every entry unchanged, the segment closed and \<open>batch_num\<close> reset.
\<close>

theorem batch_flush_returns:
  assumes "attached s"
  shows "batch_flush s = Inr (0, s\<lparr>in_segment := 0, batch_num := 0\<rparr>)"
  using assms by (rule batch_flush_ok)

theorem batch_flush_returns_witness:
  "batch_flush (sample_ready\<lparr>batch_num := 5, in_segment := 1\<rparr>) = Inr (0, sample_ready)"
proof -
  have "attached (sample_ready\<lparr>batch_num := 5, in_segment := 1\<rparr>)"
    using sample_ready_attached by (subst attached_cong(1) [of _ sample_ready]) simp_all
  from batch_flush_returns [OF this] show ?thesis
    by (simp add: sample_ready_def sample_saio_def)
qed

end
