(* ===== verification/Wrappers.thy ===== *)
theory Wrappers
  imports Batch_Control
begin

text \<open>
  The functions that replace the C library's in a server (\<open>wrapper/ngx.c\<close>, \<open>ngx_ktls.c\<close>,
  \<open>redis.c\<close>, \<open>echo.c\<close>, \<open>lighty.c\<close>): outside a segment they call the function they replace,
  inside one they queue the call on the table their file descriptor selects.
\<close>

section \<open>What the wrappers share\<close>

text \<open>\<open>this_worker_id * RATIO + (fd % RATIO)\<close>\<close>

definition set_idx :: "int \<Rightarrow> saio \<Rightarrow> int res" where
  "set_idx fd s =
     bind_res (c_mod fd (RATIO (glob s))) (\<lambda>m.
     let idx = this_worker_id s * RATIO (glob s) + m in
     bind_res (guard_res (int_ok idx) IntOverflow) (\<lambda>_. Inr idx))"

text \<open>\<open>batch_num++\<close>\<close>

definition count_batch :: "saio \<Rightarrow> saio res" where
  "count_batch s =
     bind_res (guard_res (int_ok (batch_num s + 1)) IntOverflow) (\<lambda>_.
     Inr (s\<lparr>batch_num := batch_num s + 1\<rparr>))"

text \<open>Fill the entry at the tail of table \<open>idx\<close>, move the tail, mark the entry busy.\<close>

definition enqueue :: "int \<Rightarrow> 32 word \<Rightarrow> 64 word list \<Rightarrow> saio \<Rightarrow> saio res" where
  "enqueue idx num as s =
     bind_res (utable_at s idx) (\<lambda>p.
     bind_res (hdr_at s p) (\<lambda>ch.
     bind_res (submit_chan (glob s) (num, int (length as), as) ch) (\<lambda>ch.
     Inr (put_hdr p ch s))))"

definition offload :: "int \<Rightarrow> 32 word \<Rightarrow> 64 word list \<Rightarrow> saio \<Rightarrow> saio res" where
  "offload fd num as s =
     bind_res (set_idx fd s) (\<lambda>idx.
     bind_res (count_batch s) (enqueue idx num as))"

section \<open>The wrappers\<close>

text \<open>
  Each takes the replaced function as a parameter, with the world it acts on; a \<open>size_t\<close> result
  comes back as \<open>ssize_t\<close>. \<open>off_t\<close> arguments are pointers: \<open>None\<close> is \<open>NULL\<close>, \<open>Some v\<close> a pointer
  to the value \<open>v\<close>, and the value behind the pointer after the call is part of the result.
\<close>

type_synonym 'w real_close = "int \<Rightarrow> 'w \<Rightarrow> int \<times> 'w"
type_synonym 'w real_shutdown = "int \<Rightarrow> int \<Rightarrow> 'w \<Rightarrow> int \<times> 'w"
type_synonym 'w real_write = "int \<Rightarrow> 64 word \<Rightarrow> 64 word \<Rightarrow> 'w \<Rightarrow> int \<times> 'w"
type_synonym 'w real_sendfile =
  "int \<Rightarrow> int \<Rightarrow> 64 word option \<Rightarrow> 64 word \<Rightarrow> 'w \<Rightarrow> (int \<times> 64 word option) \<times> 'w"

definition ngx_close :: "'w real_close \<Rightarrow> arch \<Rightarrow> int \<Rightarrow> saio \<times> 'w \<Rightarrow> (int \<times> saio \<times> 'w) res" where
  "ngx_close real_close arc fd sw = (case sw of (s, w) \<Rightarrow>
     if in_segment s = 0 then (let (r, w) = real_close fd w in Inr (r, s, w))
     else bind_res (offload fd (ESCA_close arc) [of_int fd] s) (\<lambda>s. Inr (0, s, w)))"

definition ngx_sendfile64 ::
  "'w real_sendfile \<Rightarrow> arch \<Rightarrow> int \<Rightarrow> int \<Rightarrow> 64 word option \<Rightarrow> 64 word \<Rightarrow> saio \<times> 'w
    \<Rightarrow> ((int \<times> 64 word option) \<times> saio \<times> 'w) res" where
  "ngx_sendfile64 real_sendfile arc out_fd in_fd offset count sw = (case sw of (s, w) \<Rightarrow>
     if in_segment s = 0 then (let (r, w) = real_sendfile out_fd in_fd offset count w in Inr (r, s, w))
     else bind_res (offload in_fd (ESCA_sendfile arc) [of_int out_fd, of_int in_fd, 0, count] s) (\<lambda>s.
       Inr ((sint count, offset), s, w)))"

definition ngx_ktls_sendfile ::
  "'w real_sendfile \<Rightarrow> arch \<Rightarrow> int \<Rightarrow> int \<Rightarrow> 64 word option \<Rightarrow> 64 word \<Rightarrow> saio \<times> 'w
    \<Rightarrow> ((int \<times> 64 word option) \<times> saio \<times> 'w) res" where
  "ngx_ktls_sendfile real_sendfile arc out_fd in_fd offset count sw = (case sw of (s, w) \<Rightarrow>
     if in_segment s = 0 then (let (r, w) = real_sendfile out_fd in_fd offset count w in Inr (r, s, w))
     else bind_res (offload in_fd (ESCA_sendfile arc) [of_int out_fd, of_int in_fd, 0, count] s) (\<lambda>s.
       Inr ((sint count, offset), s, w)))"

definition redis_write ::
  "'w real_write \<Rightarrow> arch \<Rightarrow> int \<Rightarrow> 64 word \<Rightarrow> 64 word \<Rightarrow> saio \<times> 'w \<Rightarrow> (int \<times> saio \<times> 'w) res" where
  "redis_write real_write arc fd buf count sw = (case sw of (s, w) \<Rightarrow>
     if in_segment s = 0 then (let (r, w) = real_write fd buf count w in Inr (r, s, w))
     else bind_res (offload fd (ESCA_write arc) [of_int fd, buf, count] s) (\<lambda>s.
       Inr (sint count, s, w)))"

text \<open>\<open>real_send\<close> is declared nowhere: outside a segment the call has no target.\<close>

definition echo_send ::
  "arch \<Rightarrow> int \<Rightarrow> 64 word \<Rightarrow> 64 word \<Rightarrow> int \<Rightarrow> saio \<times> 'w \<Rightarrow> (int \<times> saio \<times> 'w) res" where
  "echo_send arc sockfd buf len flgs sw = (case sw of (s, w) \<Rightarrow>
     if in_segment s = 0 then Inl UnresolvedSymbol
     else bind_res (offload sockfd (ESCA_sendto arc)
         [of_int sockfd, buf, len, of_int flgs, 0, 0] s) (\<lambda>s.
       Inr (sint len, s, w)))"

definition lighty_shutdown ::
  "'w real_shutdown \<Rightarrow> arch \<Rightarrow> int \<Rightarrow> int \<Rightarrow> saio \<times> 'w \<Rightarrow> (int \<times> saio \<times> 'w) res" where
  "lighty_shutdown real_shutdown arc fd how sw = (case sw of (s, w) \<Rightarrow>
     if in_segment s = 0 then (let (r, w) = real_shutdown fd how w in Inr (r, s, w))
     else bind_res (offload fd (ESCA_shutdown arc) [of_int fd, of_int how] s) (\<lambda>s. Inr (0, s, w)))"

text \<open>
  lighttpd's \<open>sendfile64\<close> keeps the offset in \<open>off_arr[idx][i * MAX_TABLE_ENTRY + j]\<close> and queues
  its address; \<open>base\<close> is the address of \<open>off_arr\<close>.
\<close>

definition off_cols :: int where
  "off_cols = TABLE_ENT_LIMIT * TABLE_LEN_LIMIT + 1"

definition off_addr :: "64 word \<Rightarrow> int \<Rightarrow> int \<Rightarrow> 64 word" where
  "off_addr base idx k = base + of_int (8 * (idx * off_cols + k))"

definition lighty_sendfile64 ::
  "'w real_sendfile \<Rightarrow> arch \<Rightarrow> 64 word \<Rightarrow> int \<Rightarrow> int \<Rightarrow> 64 word option \<Rightarrow> 64 word \<Rightarrow> saio \<times> 'w
    \<Rightarrow> ((int \<times> 64 word option) \<times> saio \<times> 'w) res" where
  "lighty_sendfile64 real_sendfile arc base out_fd in_fd offset count sw = (case sw of (s, w) \<Rightarrow>
     if in_segment s = 0 then (let (r, w) = real_sendfile out_fd in_fd offset count w in Inr (r, s, w))
     else
       bind_res (set_idx out_fd s) (\<lambda>idx.
       bind_res (count_batch s) (\<lambda>s.
       bind_res (utable_at s idx) (\<lambda>p.
       bind_res (hdr_at s p) (\<lambda>ch.
       let k = tail_table (hdr ch) * MAX_TABLE_ENTRY (glob s) + tail_entry (hdr ch) in
       bind_res (deref offset) (\<lambda>v.
       bind_res (guard_res (0 \<le> k \<and> k < off_cols) OutOfBounds) (\<lambda>_.
       let s = s\<lparr>off_arr := (off_arr s)(idx := (off_arr s idx)(k := v))\<rparr> in
       bind_res (enqueue idx (ESCA_sendfile arc)
         [of_int out_fd, of_int in_fd, off_addr base idx k, count] s) (\<lambda>s.
       Inr ((sint count, Some (v + count)), s, w)))))))))"

section \<open>One queued call\<close>

definition table_of :: "saio \<Rightarrow> int \<Rightarrow> int" where
  "table_of s fd = this_worker_id s * RATIO (glob s) + fd mod RATIO (glob s)"

definition pending_at :: "saio \<Rightarrow> int \<Rightarrow> request list" where
  "pending_at s t = pending (glob s) (chan_at s t)"

definition fd_ok :: "int \<Rightarrow> bool" where
  "fd_ok fd \<longleftrightarrow> 0 \<le> fd \<and> int_ok fd"

definition has_room :: "saio \<Rightarrow> int \<Rightarrow> bool" where
  "has_room s t \<longleftrightarrow> length (pending_at s t) + 1 < slots (glob s)"

lemma own_table_of:
  assumes "attached s"
  shows "own s (table_of s fd)"
proof -
  have "0 < RATIO (glob s)" using assms by (simp add: attached_def)
  then show ?thesis by (simp add: own_def table_of_def)
qed

lemma set_idx_ok:
  assumes "attached s" and "fd_ok fd"
  shows "set_idx fd s = Inr (table_of s fd)"
proof -
  have m: "c_mod fd (RATIO (glob s)) = Inr (fd mod RATIO (glob s))"
    using assms by (intro c_mod_nonneg) (auto simp: attached_def fd_ok_def)
  have "cpu_index (table_of s fd) = Inr ()" using assms own_table_of own_cpu by blast
  then have "int_ok (table_of s fd)" by (simp add: cpu_index_def int_ok_def guard_res_def split: if_splits)
  then show ?thesis by (simp add: set_idx_def m table_of_def Let_def)
qed

lemma count_batch_ok: "int_ok (batch_num s + 1) \<Longrightarrow> count_batch s = Inr (s\<lparr>batch_num := batch_num s + 1\<rparr>)"
  by (simp add: count_batch_def)

lemma enqueue_ok:
  assumes q: "queues_ok tab s" and o: "own s t" and r: "req_ok tab (num, int (length as), as)"
    and room: "has_room s t"
  shows "\<exists>s'. enqueue t num as s = Inr s' \<and> queues_ok tab s' \<and> (\<exists>m. s' = s\<lparr>mem := m\<rparr>) \<and>
    (\<forall>t'. own s t' \<longrightarrow> pending_at s' t' =
      pending_at s t' @ (if t' = t then [(num, int (length as), as)] else [])) \<and>
    hdr (chan_at s' t) = advance_tail (glob s) (hdr (chan_at s t))"
proof -
  let ?r = "(num, int (length as), as)"
  have a: "attached s" and inv: "\<And>t'. own s t' \<Longrightarrow> queue_inv (glob s) tab (chan_at s t')"
    using q by (auto simp: queues_ok_def)
  obtain p where p: "utable_at s t = Inr p" "hdr_at s p = Inr (chan_at s t)" "utable s t = Some p"
    by (rule own_access [OF a o])
  have "n_pending (glob s) (chan_at s t) + 1 < slots (glob s)"
    using room by (simp add: has_room_def pending_at_def pending_def)
  from submit_chan_ok [OF inv [OF o] r this] obtain ch' where
    ch': "submit_chan (glob s) ?r (chan_at s t) = Inr ch'" "queue_inv (glob s) tab ch'"
      "pending (glob s) ch' = pending (glob s) (chan_at s t) @ [?r]"
      "hdr ch' = advance_tail (glob s) (hdr (chan_at s t))" by blast
  let ?s' = "put_hdr p ch' s"
  have at: "own s t' \<Longrightarrow> chan_at ?s' t' = (if t' = t then ch' else chan_at s t')" for t'
    using a o p(3) by (rule chan_at_put)
  have "enqueue t num as s = Inr ?s'" by (simp add: enqueue_def p(1,2) ch'(1))
  moreover have "queues_ok tab ?s'"
    using a inv at ch'(2) attached_cong [of ?s' s] by (simp add: queues_ok_def)
  moreover have "\<exists>m. ?s' = s\<lparr>mem := m\<rparr>" unfolding put_hdr_def by blast
  ultimately show ?thesis
    using ch'(3,4) at [OF o] at by (intro exI [of _ ?s']) (simp add: pending_at_def)
qed

lemma queues_ok_cong:
  assumes "glob s' = glob s" "this_worker_id s' = this_worker_id s" "utable s' = utable s"
    "ktable s' = ktable s" "pgsize s' = pgsize s" "mem s' = mem s"
  shows "queues_ok tab s' = queues_ok tab s" and "pending_at s' = pending_at s" and "own s' = own s"
    and "table_of s' = table_of s" and "has_room s' = has_room s"
  using attached_cong [OF assms(1-5)] assms
  by (simp_all add: queues_ok_def pending_at_def table_of_def has_room_def fun_eq_iff)

text \<open>The state after a queued call: only memory and \<open>batch_num\<close> differ.\<close>

definition queued :: "'w systab \<Rightarrow> saio \<Rightarrow> int \<Rightarrow> request \<Rightarrow> saio \<Rightarrow> bool" where
  "queued tab s t r s' \<longleftrightarrow> queues_ok tab s' \<and>
     (\<exists>m. s' = s\<lparr>batch_num := batch_num s + 1, mem := m\<rparr>) \<and>
     (\<forall>t'. own s t' \<longrightarrow> pending_at s' t' = pending_at s t' @ (if t' = t then [r] else []))"

lemma offload_ok:
  assumes q: "queues_ok tab s" and fd: "fd_ok fd" and r: "req_ok tab (num, int (length as), as)"
    and room: "has_room s (table_of s fd)" and b: "int_ok (batch_num s + 1)"
  shows "\<exists>s'. offload fd num as s = Inr s' \<and> queued tab s (table_of s fd) (num, int (length as), as) s'"
proof -
  let ?s1 = "s\<lparr>batch_num := batch_num s + 1\<rparr>"
  have a: "attached s" using q by (simp add: queues_ok_def)
  note c = queues_ok_cong [of ?s1 s, simplified]
  obtain s' where s': "enqueue (table_of s fd) num as ?s1 = Inr s'" "queues_ok tab s'"
    "\<exists>m. s' = ?s1\<lparr>mem := m\<rparr>"
    "\<forall>t'. own s t' \<longrightarrow> pending_at s' t' =
      pending_at s t' @ (if t' = table_of s fd then [(num, int (length as), as)] else [])"
    using enqueue_ok [of tab ?s1 "table_of s fd" num as] q r room own_table_of [OF a, of fd] c by auto
  then show ?thesis
    by (simp add: offload_def set_idx_ok [OF a fd] count_batch_ok [OF b] queued_def)
qed

section \<open>What a server sees of a target\<close>

text \<open>
  The calls of a target: \<open>oper\<close> performs one, \<open>dest\<close> is the file descriptor it selects the table
  with, \<open>call\<close> what it queues and \<open>ret\<close> what it returns.
\<close>

locale batched_calls =
  fixes tab :: "'w systab" and oper :: "'a \<Rightarrow> saio \<times> 'w \<Rightarrow> ('r \<times> saio \<times> 'w) res"
    and dest :: "'a \<Rightarrow> int" and call :: "'a \<Rightarrow> request" and ret :: "'a \<Rightarrow> 'r"
  assumes inside: "in_segment s \<noteq> 0 \<Longrightarrow> queues_ok tab s \<Longrightarrow> fd_ok (dest a) \<Longrightarrow> req_ok tab (call a) \<Longrightarrow>
      has_room s (table_of s (dest a)) \<Longrightarrow> int_ok (batch_num s + 1) \<Longrightarrow>
      \<exists>s'. oper a (s, w) = Inr (ret a, s', w) \<and> queued tab s (table_of s (dest a)) (call a) s'"

text \<open>A target whose calls are the replaced functions outside a segment.\<close>

locale transparent_calls = batched_calls tab oper dest call ret
  for tab :: "'w systab" and oper :: "'a \<Rightarrow> saio \<times> 'w \<Rightarrow> ('r \<times> saio \<times> 'w) res"
    and dest :: "'a \<Rightarrow> int" and call :: "'a \<Rightarrow> request" and ret :: "'a \<Rightarrow> 'r" +
  fixes real :: "'a \<Rightarrow> 'w \<Rightarrow> 'r \<times> 'w"
  assumes outside: "in_segment s = 0 \<Longrightarrow> oper a (s, w) = Inr (fst (real a w), s, snd (real a w))"

text \<open>A sequence of calls.\<close>

fun run_calls ::
  "('a \<Rightarrow> saio \<times> 'w \<Rightarrow> ('r \<times> saio \<times> 'w) res) \<Rightarrow> 'a list \<Rightarrow> saio \<times> 'w \<Rightarrow> ('r list \<times> saio \<times> 'w) res" where
  "run_calls oper [] sw = Inr ([], sw)"
| "run_calls oper (a # as) sw =
     bind_res (oper a sw) (\<lambda>(r, sw). bind_res (run_calls oper as sw) (\<lambda>(rs, sw). Inr (r # rs, sw)))"

fun run_real :: "('a \<Rightarrow> 'w \<Rightarrow> 'r \<times> 'w) \<Rightarrow> 'a list \<Rightarrow> 'w \<Rightarrow> 'r list \<times> 'w" where
  "run_real real [] w = ([], w)"
| "run_real real (a # as) w =
     (let (r, w) = real a w; (rs, w) = run_real real as w in (r # rs, w))"

text \<open>The calls of a sequence that go to one table, and whether all tables have room for theirs.\<close>

definition calls_for :: "saio \<Rightarrow> ('a \<Rightarrow> int) \<Rightarrow> int \<Rightarrow> 'a list \<Rightarrow> 'a list" where
  "calls_for s dest t as = filter (\<lambda>a. table_of s (dest a) = t) as"

definition fits :: "saio \<Rightarrow> ('a \<Rightarrow> int) \<Rightarrow> 'a list \<Rightarrow> bool" where
  "fits s dest as \<longleftrightarrow> int_ok (batch_num s + int (length as)) \<and> 0 \<le> batch_num s \<and>
     (\<forall>t. own s t \<longrightarrow> length (pending_at s t) + length (calls_for s dest t as) < slots (glob s))"

definition batched ::
  "'w systab \<Rightarrow> saio \<Rightarrow> ('a \<Rightarrow> int) \<Rightarrow> ('a \<Rightarrow> request) \<Rightarrow> 'a list \<Rightarrow> saio \<Rightarrow> bool" where
  "batched tab s dest call as s' \<longleftrightarrow> queues_ok tab s' \<and>
     (\<exists>m. s' = s\<lparr>batch_num := batch_num s + int (length as), mem := m\<rparr>) \<and>
     (\<forall>t. own s t \<longrightarrow> pending_at s' t = pending_at s t @ map call (calls_for s dest t as))"

lemma fits_room:
  assumes "fits s dest (a # as)" and "attached s"
  shows "has_room s (table_of s (dest a))" and "int_ok (batch_num s + 1)"
proof -
  have "own s (table_of s (dest a))" using assms(2) by (rule own_table_of)
  then have "length (pending_at s (table_of s (dest a))) +
      length (calls_for s dest (table_of s (dest a)) (a # as)) < slots (glob s)"
    using assms(1) unfolding fits_def by blast
  then show "has_room s (table_of s (dest a))" by (simp add: has_room_def calls_for_def)
  show "int_ok (batch_num s + 1)" using assms(1) by (simp add: fits_def int_ok_def)
qed

lemma same_process:
  assumes "glob s1 = glob s" and "this_worker_id s1 = this_worker_id s"
  shows "own s1 = own s" and "table_of s1 = table_of s" and "calls_for s1 dest t as = calls_for s dest t as"
  using assms by (simp_all add: own_def table_of_def calls_for_def fun_eq_iff)

lemma fits_next:
  assumes f: "fits s dest (a # as)" and fr: "glob s1 = glob s" "this_worker_id s1 = this_worker_id s"
    and b: "batch_num s1 = batch_num s + 1"
    and pn: "\<And>t. own s t \<Longrightarrow> pending_at s1 t = pending_at s t @ (if t = table_of s (dest a) then [q] else [])"
  shows "fits s1 dest as"
proof -
  have "length (pending_at s1 t) + length (calls_for s dest t as) < slots (glob s)" if "own s t" for t
  proof -
    have "length (pending_at s t) + length (calls_for s dest t (a # as)) < slots (glob s)"
      using f that unfolding fits_def by blast
    then show ?thesis using pn [OF that] by (simp add: calls_for_def split: if_splits)
  qed
  then show ?thesis
    using f by (simp add: fits_def b fr same_process [OF fr] algebra_simps)
qed

context batched_calls
begin

lemma inside_sequence:
  assumes "in_segment s \<noteq> 0" and "queues_ok tab s"
    and "list_all (\<lambda>a. fd_ok (dest a) \<and> req_ok tab (call a)) as" and "fits s dest as"
  shows "\<exists>s'. run_calls oper as (s, w) = Inr (map ret as, s', w) \<and> batched tab s dest call as s'"
  using assms
proof (induction as arbitrary: s)
  case Nil
  have "s = s\<lparr>mem := mem s\<rparr>" by simp
  with Nil show ?case unfolding batched_def calls_for_def by (simp, blast)
next
  case (Cons a as)
  let ?t = "table_of s (dest a)"
  have at: "attached s" using Cons.prems(2) by (simp add: queues_ok_def)
  obtain s1 where s1: "oper a (s, w) = Inr (ret a, s1, w)" and "queued tab s ?t (call a) s1"
    using inside [of s a w] Cons.prems fits_room [OF Cons.prems(4) at] by auto
  then obtain m1 where e: "s1 = s\<lparr>batch_num := batch_num s + 1, mem := m1\<rparr>" and q: "queues_ok tab s1"
    and pn: "\<And>t'. own s t' \<Longrightarrow> pending_at s1 t' = pending_at s t' @ (if t' = ?t then [call a] else [])"
    by (auto simp: queued_def)
  have fr: "glob s1 = glob s" "this_worker_id s1 = this_worker_id s" "in_segment s1 = in_segment s"
    "batch_num s1 = batch_num s + 1" by (simp_all add: e)
  note sp = same_process [OF fr(1,2)]
  have "fits s1 dest as" using Cons.prems(4) fr(1,2,4) pn by (rule fits_next)
  then obtain s' where s': "run_calls oper as (s1, w) = Inr (map ret as, s', w)" "batched tab s1 dest call as s'"
    using Cons.IH [of s1] Cons.prems q fr by auto
  then obtain m where "s' = s1\<lparr>batch_num := batch_num s1 + int (length as), mem := m\<rparr>"
    by (auto simp: batched_def)
  then have "s' = s\<lparr>batch_num := batch_num s + int (length (a # as)), mem := m\<rparr>"
    by (simp add: e algebra_simps)
  moreover have "\<forall>t. own s t \<longrightarrow> pending_at s' t = pending_at s t @ map call (calls_for s dest t (a # as))"
    using s'(2) pn by (simp add: batched_def sp calls_for_def)
  ultimately show ?case using s1 s' by (auto simp: batched_def)
qed

end

context transparent_calls
begin

lemma outside_sequence:
  assumes "in_segment s = 0"
  shows "run_calls oper as (s, w) = (case run_real real as w of (rs, w') \<Rightarrow> Inr (rs, s, w'))"
  using assms
  by (induction as arbitrary: w) (simp_all add: outside Let_def split: prod.splits)

end

section \<open>The targets\<close>

text \<open>nginx with kTLS: \<open>ngx.c\<close> followed by \<open>ngx_ktls.c\<close>.\<close>

datatype ngx_call =
    Close int
  | Sendfile64 int int "64 word option" "64 word"
  | Sendfile int int "64 word option" "64 word"

fun ngx_oper ::
  "'w real_close \<Rightarrow> 'w real_sendfile \<Rightarrow> arch \<Rightarrow> ngx_call \<Rightarrow> saio \<times> 'w
    \<Rightarrow> ((int \<times> 64 word option) \<times> saio \<times> 'w) res" where
  "ngx_oper rc rs arc (Close fd) sw = bind_res (ngx_close rc arc fd sw) (\<lambda>(r, sw). Inr ((r, None), sw))"
| "ngx_oper rc rs arc (Sendfile64 out_fd in_fd off n) sw = ngx_sendfile64 rs arc out_fd in_fd off n sw"
| "ngx_oper rc rs arc (Sendfile out_fd in_fd off n) sw = ngx_ktls_sendfile rs arc out_fd in_fd off n sw"

fun ngx_real :: "'w real_close \<Rightarrow> 'w real_sendfile \<Rightarrow> ngx_call \<Rightarrow> 'w \<Rightarrow> (int \<times> 64 word option) \<times> 'w" where
  "ngx_real rc rs (Close fd) w = (let (r, w) = rc fd w in ((r, None), w))"
| "ngx_real rc rs (Sendfile64 out_fd in_fd off n) w = rs out_fd in_fd off n w"
| "ngx_real rc rs (Sendfile out_fd in_fd off n) w = rs out_fd in_fd off n w"

fun ngx_dest :: "ngx_call \<Rightarrow> int" where
  "ngx_dest (Close fd) = fd"
| "ngx_dest (Sendfile64 out_fd in_fd off n) = in_fd"
| "ngx_dest (Sendfile out_fd in_fd off n) = in_fd"

fun ngx_request :: "arch \<Rightarrow> ngx_call \<Rightarrow> request" where
  "ngx_request arc (Close fd) = (ESCA_close arc, 1, [of_int fd])"
| "ngx_request arc (Sendfile64 out_fd in_fd off n) =
     (ESCA_sendfile arc, 4, [of_int out_fd, of_int in_fd, 0, n])"
| "ngx_request arc (Sendfile out_fd in_fd off n) =
     (ESCA_sendfile arc, 4, [of_int out_fd, of_int in_fd, 0, n])"

fun ngx_ret :: "ngx_call \<Rightarrow> int \<times> 64 word option" where
  "ngx_ret (Close fd) = (0, None)"
| "ngx_ret (Sendfile64 out_fd in_fd off n) = (sint n, off)"
| "ngx_ret (Sendfile out_fd in_fd off n) = (sint n, off)"

lemmas ngx_defs = ngx_close_def ngx_sendfile64_def ngx_ktls_sendfile_def

interpretation ngx: transparent_calls tab "ngx_oper rc rs arc" ngx_dest "ngx_request arc" ngx_ret "ngx_real rc rs"
  for tab :: "'w systab" and rc rs arc
proof (unfold_locales, goal_cases)
  case (1 s c w)
  then show ?case
    using offload_ok [of tab s "ngx_dest c" "fst (ngx_request arc c)" "snd (snd (ngx_request arc c))"]
    by (cases c) (auto simp: ngx_defs)
next
  case (2 s c w)
  then show ?case by (cases c) (simp_all add: ngx_defs split: prod.splits)
qed

text \<open>Redis, the echo server and lighttpd's \<open>shutdown\<close>.\<close>

interpretation redis: transparent_calls tab "\<lambda>(fd, buf, n). redis_write rw arc fd buf n" "\<lambda>(fd, buf, n). fd"
  "\<lambda>(fd, buf, n). (ESCA_write arc, 3, [of_int fd, buf, n])" "\<lambda>(fd, buf, n). sint n" "\<lambda>(fd, buf, n). rw fd buf n"
  for tab :: "'w systab" and rw arc
proof (unfold_locales, goal_cases)
  case (1 s c w)
  then show ?case
    using offload_ok [of tab s "fst c" "ESCA_write arc" "[of_int (fst c), fst (snd c), snd (snd c)]"]
    by (cases c) (auto simp: redis_write_def)
next
  case (2 s c w)
  then show ?case by (cases c) (simp add: redis_write_def split: prod.splits)
qed

interpretation echo: batched_calls tab "\<lambda>(fd, buf, n, fl). echo_send arc fd buf n fl" "\<lambda>(fd, buf, n, fl). fd"
  "\<lambda>(fd, buf, n, fl). (ESCA_sendto arc, 6, [of_int fd, buf, n, of_int fl, 0, 0])" "\<lambda>(fd, buf, n, fl). sint n"
  for tab :: "'w systab" and arc
proof (unfold_locales, goal_cases)
  case (1 s c w)
  then show ?case
    using offload_ok [of tab s "fst c" "ESCA_sendto arc"
        "[of_int (fst c), fst (snd c), fst (snd (snd c)), of_int (snd (snd (snd c))), 0, 0]"]
    by (cases c) (auto simp: echo_send_def)
qed

interpretation lighty: transparent_calls tab "\<lambda>(fd, how). lighty_shutdown rsd arc fd how" "\<lambda>(fd, how). fd"
  "\<lambda>(fd, how). (ESCA_shutdown arc, 2, [of_int fd, of_int how])" "\<lambda>(fd, how). 0" "\<lambda>(fd, how). rsd fd how"
  for tab :: "'w systab" and rsd arc
proof (unfold_locales, goal_cases)
  case (1 s c w)
  then show ?case
    using offload_ok [of tab s "fst c" "ESCA_shutdown arc" "[of_int (fst c), of_int (snd c)]"]
    by (cases c) (auto simp: lighty_shutdown_def)
next
  case (2 s c w)
  then show ?case by (cases c) (simp add: lighty_shutdown_def split: prod.splits)
qed

section \<open>lighttpd's offsets\<close>

text \<open>The slot of the \<open>m\<close>-th pending call of a table.\<close>

definition pending_slot :: "saio \<Rightarrow> int \<Rightarrow> nat \<Rightarrow> nat" where
  "pending_slot s t m = (head_pos (glob s) (hdr (chan_at s t)) + m) mod slots (glob s)"

lemma tail_slot:
  assumes "queues_ok tab s" and "own s t"
  shows "tail_table (hdr (chan_at s t)) * MAX_TABLE_ENTRY (glob s) + tail_entry (hdr (chan_at s t)) =
      int (pending_slot s t (length (pending_at s t)))"
    and "pending_slot s t m < slots (glob s)"
    and "m < length (pending_at s t) \<Longrightarrow> pending_slot s t m \<noteq> pending_slot s t (length (pending_at s t))"
proof -
  let ?g = "glob s" and ?h = "hdr (chan_at s t)"
  have q: "ring_ok ?g" "hdr_ok ?g ?h"
    using assms chan_ok_ring by (auto simp: queues_ok_def queue_inv_def)
  have n: "length (pending_at s t) = n_pending ?g (chan_at s t)" by (simp add: pending_at_def pending_def)
  note T = n_pending_tail [OF q]
  have "int (tail_pos ?g ?h) = slot_index ?g (tail_table ?h) (tail_entry ?h)"
    using q by (simp add: int_spos hdr_ok_def)
  with T(2) show "tail_table ?h * MAX_TABLE_ENTRY ?g + tail_entry ?h =
      int (pending_slot s t (length (pending_at s t)))"
    by (simp add: slot_index_def pending_slot_def n)
  show "pending_slot s t m < slots ?g" using ring_okD(6) [OF q(1)] by (simp add: pending_slot_def)
  show "m < length (pending_at s t) \<Longrightarrow> pending_slot s t m \<noteq> pending_slot s t (length (pending_at s t))"
    using T(1) unfolding pending_slot_def n by (intro mod_neq_of_close) auto
qed

text \<open>With tables of at most \<open>TABLE_ENT_LIMIT\<close> entries every slot has its place in \<open>off_arr\<close>.\<close>

lemma slots_off_cols:
  assumes "ring_ok g" and "MAX_TABLE_ENTRY g \<le> TABLE_ENT_LIMIT" and "p < slots g"
  shows "int p < off_cols"
proof -
  note R = ring_okD [OF assms(1)]
  have "MAX_TABLE_ENTRY g * MAX_TABLE_LEN g \<le> 64 * 30" using R assms(2) by (intro mult_mono) auto
  with R(8) assms(3) show ?thesis unfolding off_cols_def by simp
qed

lemma access_batch_num:
  "utable_at (s\<lparr>batch_num := x\<rparr>) = utable_at s" "hdr_at (s\<lparr>batch_num := x\<rparr>) = hdr_at s"
  by (simp_all add: utable_at_def hdr_at_def fun_eq_iff)

section \<open>A sample batch\<close>

definition sample_open :: saio where
  "sample_open = sample_ready\<lparr>in_segment := 1\<rparr>"

lemma sample_open_simps [simp]:
  "glob sample_open = sample_globals" "this_worker_id sample_open = 0" "in_segment sample_open = 1"
  "batch_num sample_open = 0" "own sample_open t \<longleftrightarrow> t = 0 \<or> t = 1"
  "chan_at sample_open 0 = sample_chan 64 (sample_hdr 0 0 0 0)"
  "chan_at sample_open 1 = sample_chan 64 ((sample_hdr 0 0 0 0)\<lparr>flags := 2\<rparr>)"
  using attached_cong(2,3) [of sample_open sample_ready] sample_ready_simps
  by (simp_all add: sample_open_def)

definition any_tab :: "'w systab" where
  "any_tab num = Some (\<lambda>r w. (0, w))"

lemma sample_open_ok [simp]:
  "queues_ok any_tab sample_open" "own sample_open t \<Longrightarrow> pending_at sample_open t = []"
proof -
  have n: "n_pending sample_globals (sample_chan 64 ((sample_hdr 0 0 0 0)\<lparr>flags := f\<rparr>)) = 0" for f
    by (simp add: sample_chan_def n_pending_def submitted_count_def)
  have q: "queue_inv sample_globals any_tab (sample_chan 64 ((sample_hdr 0 0 0 0)\<lparr>flags := f\<rparr>))" for f
    by (simp add: queue_inv_def n) (simp add: sample_chan_def hdr_ok_def idx_ok_def entries_ok_def read_cell_def sample_entry_def)
  have z: "(sample_hdr 0 0 0 0)\<lparr>flags := 0\<rparr> = sample_hdr 0 0 0 0" by (simp add: sample_hdr_def)
  have "attached sample_open"
    using sample_ready_attached attached_cong(1) [of sample_open sample_ready] by (simp add: sample_open_def)
  then show "queues_ok any_tab sample_open" using q [of 0] q [of 2] z by (auto simp: queues_ok_def)
  show "own sample_open t \<Longrightarrow> pending_at sample_open t = []"
    using n [of 0] n [of 2] z by (auto simp: pending_at_def pending_def)
qed

lemma sample_fits:
  assumes "length cs < 128"
  shows "fits sample_open dest cs"
proof -
  have "length (calls_for sample_open dest t cs) < 128" for t
    using assms le_less_trans [OF length_filter_le] by (simp add: calls_for_def)
  with assms show ?thesis by (simp add: fits_def int_ok_def del: sample_open_simps(5))
qed

lemma sample_batched:
  assumes "batched any_tab sample_open dest call cs s'" and "t = 0 \<or> t = 1"
  shows "pending_at s' t = map call (filter (\<lambda>c. dest c mod 2 = t) cs)"
  using assms by (auto simp: batched_def calls_for_def table_of_def)

section \<open>Properties\<close>

text \<open>
  Inside a segment, with room in the tables, a sequence of nginx's calls returns at once
  with the results of success and queues every call on the table its file descriptor selects:
  each table has its pending calls followed by its share of the sequence, in the order of the
  calls and with their arguments, and nothing else of the process has changed but the count of
  the batch.
\<close>

theorem ngx_calls_batched:
  fixes tab :: "'w systab" and w :: 'w
  assumes "in_segment s \<noteq> 0" and "queues_ok tab s" and "fits s ngx_dest cs"
    and "list_all (\<lambda>c. fd_ok (ngx_dest c) \<and> req_ok tab (ngx_request arc c)) cs"
  shows "\<exists>s'. run_calls (ngx_oper rc rs arc) cs (s, w) = Inr (map ngx_ret cs, s', w) \<and>
    batched tab s ngx_dest (ngx_request arc) cs s'"
  by (rule ngx.inside_sequence [OF assms(1,2,4,3)])

theorem ngx_calls_batched_witness:
  "\<exists>s'. run_calls (ngx_oper (\<lambda>fd w. (-1, w)) (\<lambda>a b c d w. ((-1, None), w)) X86_64)
     [Sendfile64 5 8 None 100, Close 5] (sample_open, ()) = Inr ([(100, None), (0, None)], s', ()) \<and>
   pending_at s' 0 = [(40, 4, [5, 8, 0, 100])] \<and> pending_at s' 1 = [(3, 1, [5])]"
  using ngx_calls_batched [of sample_open any_tab "[Sendfile64 5 8 None 100, Close 5]" X86_64
      "\<lambda>fd w. (-1, w)" "\<lambda>a b c d w. ((-1, None), w)" "()"]
  by (fastforce simp: fits_def calls_for_def table_of_def int_ok_def fd_ok_def req_ok_def any_tab_def
      batched_def ESCA_sendfile_def ESCA_close_def)



text \<open>
  Inside a segment, with room in the tables, a sequence of Redis's writes queues every write
  on the table of its connection, in order, with the caller's own buffer as argument.
\<close>

theorem redis_writes_batched:
  fixes tab :: "'w systab" and w :: 'w
  assumes "in_segment s \<noteq> 0" and "queues_ok tab s" and "fits s (\<lambda>(fd, buf, n). fd) ws"
    and "list_all (\<lambda>(fd, buf, n). fd_ok fd) ws" and "tab (ESCA_write arc) \<noteq> None"
  shows "\<exists>s'. run_calls (\<lambda>(fd, buf, n). redis_write rw arc fd buf n) ws (s, w) =
      Inr (map (\<lambda>(fd, buf, n). sint n) ws, s', w) \<and>
    batched tab s (\<lambda>(fd, buf, n). fd) (\<lambda>(fd, buf, n). (ESCA_write arc, 3, [of_int fd, buf, n])) ws s'"
proof (rule redis.inside_sequence [OF assms(1,2) _ assms(3)])
  show "list_all (\<lambda>a. fd_ok (case a of (fd, buf, n) \<Rightarrow> fd) \<and>
      req_ok tab (case a of (fd, buf, n) \<Rightarrow> (ESCA_write arc, 3, [of_int fd, buf, n]))) ws"
    using assms(4,5) by (auto simp: list_all_iff req_ok_def)
qed

theorem redis_writes_batched_witness:
  "\<exists>s'. run_calls (\<lambda>(fd, buf, n). redis_write (\<lambda>a b c w. (-1, w)) X86_64 fd buf n) [(7, 4096, 12), (9, 8192, 3)]
     (sample_open, ()) = Inr ([12, 3], s', ()) \<and>
   pending_at s' 1 = [(1, 3, [7, 4096, 12]), (1, 3, [9, 8192, 3])] \<and> pending_at s' 0 = []"
proof -
  let ?cs = "[(7, 4096, 12), (9, 8192, 3)] :: (int \<times> 64 word \<times> 64 word) list"
  have "\<exists>s'. run_calls (\<lambda>(fd, buf, n). redis_write (\<lambda>a b c w. (-1, w)) X86_64 fd buf n) ?cs (sample_open, ()) =
      Inr (map (\<lambda>(fd, buf, n). sint n) ?cs, s', ()) \<and>
    batched (any_tab :: unit systab) sample_open (\<lambda>(fd, buf, n). fd) (\<lambda>(fd, buf, n). (ESCA_write X86_64, 3, [of_int fd, buf, n])) ?cs s'"
    by (rule redis_writes_batched) (simp_all add: sample_fits fd_ok_def int_ok_def any_tab_def)
  then obtain s' where s': "run_calls (\<lambda>(fd, buf, n). redis_write (\<lambda>a b c w. (-1, w)) X86_64 fd buf n) ?cs (sample_open, ()) =
      Inr (map (\<lambda>(fd, buf, n). sint n) ?cs, s', ())" and
    b: "batched (any_tab :: unit systab) sample_open (\<lambda>(fd, buf, n). fd) (\<lambda>(fd, buf, n). (ESCA_write X86_64, 3, [of_int fd, buf, n])) ?cs s'"
    by blast
  from s' sample_batched [OF b, of 0] sample_batched [OF b, of 1] show ?thesis
    by (intro exI [of _ s']) (simp add: ESCA_write_def del: run_calls.simps)
qed

text \<open>
  Inside a segment the echo server's sends are queued the same way, as \<open>sendto\<close> calls
  without an address.
\<close>

theorem echo_sends_batched:
  fixes tab :: "'w systab" and w :: 'w
  assumes "in_segment s \<noteq> 0" and "queues_ok tab s" and "fits s (\<lambda>(fd, buf, n, fl). fd) cs"
    and "list_all (\<lambda>(fd, buf, n, fl). fd_ok fd) cs" and "tab (ESCA_sendto arc) \<noteq> None"
  shows "\<exists>s'. run_calls (\<lambda>(fd, buf, n, fl). echo_send arc fd buf n fl) cs (s, w) =
      Inr (map (\<lambda>(fd, buf, n, fl). sint n) cs, s', w) \<and>
    batched tab s (\<lambda>(fd, buf, n, fl). fd)
      (\<lambda>(fd, buf, n, fl). (ESCA_sendto arc, 6, [of_int fd, buf, n, of_int fl, 0, 0])) cs s'"
proof (rule echo.inside_sequence [OF assms(1,2) _ assms(3)])
  show "list_all (\<lambda>a. fd_ok (case a of (fd, buf, n, fl) \<Rightarrow> fd) \<and>
      req_ok tab (case a of (fd, buf, n, fl) \<Rightarrow>
        (ESCA_sendto arc, 6, [of_int fd, buf, n, of_int fl, 0, 0]))) cs"
    using assms(4,5) by (auto simp: list_all_iff req_ok_def)
qed

theorem echo_sends_batched_witness:
  "\<exists>s'. run_calls (\<lambda>(fd, buf, n, fl). echo_send AARCH64 fd buf n fl) [(6, 4096, 12, 0)] (sample_open, ()) =
     Inr ([12], s', ()) \<and> pending_at s' 0 = [(206, 6, [6, 4096, 12, 0, 0, 0])]"
proof -
  let ?cs = "[(6, 4096, 12, 0)] :: (int \<times> 64 word \<times> 64 word \<times> int) list"
  let ?q = "\<lambda>(fd, buf, n, fl). (ESCA_sendto AARCH64, 6, [of_int fd, buf, n, of_int fl, 0, 0])"
  have "\<exists>s'. run_calls (\<lambda>(fd, buf, n, fl). echo_send AARCH64 fd buf n fl) ?cs (sample_open, ()) =
      Inr (map (\<lambda>(fd, buf, n, fl). sint n) ?cs, s', ()) \<and> batched (any_tab :: unit systab) sample_open (\<lambda>(fd, buf, n, fl). fd) ?q ?cs s'"
    by (rule echo_sends_batched) (simp_all add: sample_fits fd_ok_def int_ok_def any_tab_def)
  then obtain s' where s': "run_calls (\<lambda>(fd, buf, n, fl). echo_send AARCH64 fd buf n fl) ?cs (sample_open, ()) =
      Inr (map (\<lambda>(fd, buf, n, fl). sint n) ?cs, s', ())" and b: "batched (any_tab :: unit systab) sample_open (\<lambda>(fd, buf, n, fl). fd) ?q ?cs s'"
    by blast
  from s' sample_batched [OF b, of 0] show ?thesis
    by (intro exI [of _ s']) (simp add: ESCA_sendto_def del: run_calls.simps)
qed

text \<open>
  C23: nginx selects the table of a \<open>sendfile64\<close> by the file it reads from and the table of a
  \<open>close\<close> by the connection. When the two descriptors differ modulo \<open>RATIO\<close>, the response and
  the close of one connection are queued on different tables, so no kernel worker orders the
  close after the response.
\<close>

theorem ngx_sendfile_close_split:
  fixes tab :: "'w systab" and w :: 'w
  assumes "in_segment s \<noteq> 0" and "queues_ok tab s" and "fits s ngx_dest [Sendfile64 out_fd in_fd off n, Close out_fd]"
    and "fd_ok out_fd" and "fd_ok in_fd" and "tab (ESCA_sendfile arc) \<noteq> None" and "tab (ESCA_close arc) \<noteq> None"
    and "out_fd mod RATIO (glob s) \<noteq> in_fd mod RATIO (glob s)"
  shows "\<exists>s' t t'. run_calls (ngx_oper rc rs arc) [Sendfile64 out_fd in_fd off n, Close out_fd] (s, w) =
      Inr ([(sint n, off), (0, None)], s', w) \<and> own s t \<and> own s t' \<and> t \<noteq> t' \<and>
    pending_at s' t = pending_at s t @ [(ESCA_sendfile arc, 4, [of_int out_fd, of_int in_fd, 0, n])] \<and>
    pending_at s' t' = pending_at s t' @ [(ESCA_close arc, 1, [of_int out_fd])]"
proof -
  let ?cs = "[Sendfile64 out_fd in_fd off n, Close out_fd]"
  have "list_all (\<lambda>c. fd_ok (ngx_dest c) \<and> req_ok tab (ngx_request arc c)) ?cs"
    using assms by (simp add: req_ok_def)
  from ngx.inside_sequence [OF assms(1,2) this assms(3), of rc rs w] obtain s' where
    s': "run_calls (ngx_oper rc rs arc) ?cs (s, w) = Inr (map ngx_ret ?cs, s', w)"
      "batched tab s ngx_dest (ngx_request arc) ?cs s'" by blast
  have "attached s" using assms(2) by (simp add: queues_ok_def)
  note o = own_table_of [OF this, of in_fd] own_table_of [OF this, of out_fd]
  have ne: "table_of s in_fd \<noteq> table_of s out_fd" using assms(8) by (simp add: table_of_def)
  show ?thesis
    using s' o ne
    by (intro exI [of _ s'] exI [of _ "table_of s in_fd"] exI [of _ "table_of s out_fd"])
      (simp add: batched_def calls_for_def)
qed

theorem ngx_sendfile_close_split_witness:
  "\<exists>s' t t'. run_calls (ngx_oper (\<lambda>fd w. (-1, w)) (\<lambda>a b c d w. ((-1, None), w)) X86_64)
     [Sendfile64 5 8 None 100, Close 5] (sample_open, ()) = Inr ([(100, None), (0, None)], s', ()) \<and>
   t \<noteq> t' \<and> pending_at s' t = [(40, 4, [5, 8, 0, 100])] \<and> pending_at s' t' = [(3, 1, [5])]"
proof -
  have "\<exists>s' t t'. run_calls (ngx_oper (\<lambda>fd w. (-1, w)) (\<lambda>a b c d w. ((-1, None), w)) X86_64)
      [Sendfile64 5 8 None 100, Close 5] (sample_open, ()) = Inr ([(sint (100 :: 64 word), None), (0, None)], s', ()) \<and>
    own sample_open t \<and> own sample_open t' \<and> t \<noteq> t' \<and>
    pending_at s' t = pending_at sample_open t @ [(ESCA_sendfile X86_64, 4, [of_int 5, of_int 8, 0, 100])] \<and>
    pending_at s' t' = pending_at sample_open t' @ [(ESCA_close X86_64, 1, [of_int 5])]"
    by (rule ngx_sendfile_close_split [where tab = any_tab]) (simp_all add: sample_fits fd_ok_def int_ok_def any_tab_def)
  then obtain s' t t' where "run_calls (ngx_oper (\<lambda>fd w. (-1, w)) (\<lambda>a b c d w. ((-1, None), w)) X86_64)
      [Sendfile64 5 8 None 100, Close 5] (sample_open, ()) = Inr ([(sint (100 :: 64 word), None), (0, None)], s', ())"
    "own sample_open t" "own sample_open t'" "t \<noteq> t'"
    "pending_at s' t = pending_at sample_open t @ [(ESCA_sendfile X86_64, 4, [of_int 5, of_int 8, 0, 100])]"
    "pending_at s' t' = pending_at sample_open t' @ [(ESCA_close X86_64, 1, [of_int 5])]" by blast
  then show ?thesis
    by (intro exI [of _ s'] exI [of _ t] exI [of _ t'])
      (simp add: ESCA_sendfile_def ESCA_close_def del: run_calls.simps sample_open_simps(5))
qed

text \<open>
  C24: lighttpd's \<open>sendfile64\<close> in a segment queues the call with the address of its own slot of
  \<open>off_arr\<close>, which holds the caller's offset; the caller's offset moves on by \<open>count\<close>; the slots of
  the calls still pending in the table keep their offsets.
\<close>

theorem lighty_sendfile64_offset:
  fixes tab :: "'w systab" and w :: 'w
  assumes "in_segment s \<noteq> 0" and "queues_ok tab s" and "fd_ok out_fd" and "tab (ESCA_sendfile arc) \<noteq> None"
    and "has_room s (table_of s out_fd)" and "int_ok (batch_num s + 1)"
    and "MAX_TABLE_ENTRY (glob s) \<le> TABLE_ENT_LIMIT" and "t = table_of s out_fd"
    and "k = int (pending_slot s t (length (pending_at s t)))"
  shows "\<exists>s'. lighty_sendfile64 rs arc base out_fd in_fd (Some v) n (s, w) =
      Inr ((sint n, Some (v + n)), s', w) \<and> queues_ok tab s' \<and>
    pending_at s' t = pending_at s t @
      [(ESCA_sendfile arc, 4, [of_int out_fd, of_int in_fd, off_addr base t k, n])] \<and>
    off_arr s' t k = v \<and>
    (\<forall>m < length (pending_at s t). off_arr s' t (int (pending_slot s t m)) = off_arr s t (int (pending_slot s t m)))"
proof -
  let ?b = "s\<lparr>batch_num := batch_num s + 1\<rparr>"
  define s1 where "s1 = ?b\<lparr>off_arr := (off_arr s)(t := (off_arr s t)(k := v))\<rparr>"
  let ?as = "[of_int out_fd, of_int in_fd, off_addr base t k, n]"
  have a: "attached s" using assms(2) by (simp add: queues_ok_def)
  have o: "own s t" using own_table_of [OF a] assms(8) by simp
  note T = tail_slot [OF assms(2) o]
  have rg: "ring_ok (glob s)" using assms(2) o chan_ok_ring by (auto simp: queues_ok_def queue_inv_def)
  obtain p where "utable_at s t = Inr p" "hdr_at s p = Inr (chan_at s t)" by (rule own_access [OF a o])
  then have b: "utable_at ?b t = Inr p" "hdr_at ?b p = Inr (chan_at s t)" by (simp_all add: access_batch_num)
  have k: "tail_table (hdr (chan_at s t)) * MAX_TABLE_ENTRY (glob s) + tail_entry (hdr (chan_at s t)) = k"
    using T(1) assms(9) by simp
  have kb: "0 \<le> k \<and> k < off_cols" using slots_off_cols [OF rg assms(7) T(2)] assms(9) by simp
  have c: "queues_ok tab s1 = queues_ok tab s" "pending_at s1 = pending_at s" "own s1 = own s" "has_room s1 = has_room s"
    by (rule queues_ok_cong; simp add: s1_def)+
  have q1: "queues_ok tab s1" "own s1 t" "has_room s1 t" using c assms(2,5,8) o by simp_all
  have "req_ok tab (ESCA_sendfile arc, int (length ?as), ?as)" using assms(4) by (simp add: req_ok_def)
  from enqueue_ok [OF q1(1,2) this q1(3)] obtain s' m where
    s': "enqueue t (ESCA_sendfile arc) ?as s1 = Inr s'" "queues_ok tab s'" "s' = s1\<lparr>mem := m\<rparr>"
      "pending_at s' t = pending_at s t @ [(ESCA_sendfile arc, int (length ?as), ?as)]"
    using o c by auto
  have "set_idx out_fd s = Inr t" using set_idx_ok [OF a assms(3)] assms(8) by simp
  then have "lighty_sendfile64 rs arc base out_fd in_fd (Some v) n (s, w) = Inr ((sint n, Some (v + n)), s', w)"
    using s'(1) assms(1) kb
    by (simp add: lighty_sendfile64_def count_batch_ok [OF assms(6)] b k Let_def s1_def)
  moreover have "off_arr s' t k = v" by (simp add: s'(3) s1_def)
  moreover have "off_arr s' t (int (pending_slot s t m)) = off_arr s t (int (pending_slot s t m))"
    if "m < length (pending_at s t)" for m
    using T(3) [OF that] assms(9) by (simp add: s'(3) s1_def)
  ultimately show ?thesis using s'(2,4) by auto
qed

theorem lighty_sendfile64_offset_witness:
  "\<exists>s'. lighty_sendfile64 (\<lambda>a b c d w. ((-1, None), w)) X86_64 65536 5 8 (Some 1000) 24 (sample_open, ()) =
     Inr ((24, Some 1024), s', ()) \<and> pending_at s' 1 = [(40, 4, [5, 8, 80904, 24])] \<and> off_arr s' 1 0 = 1000"
proof -
  have "\<exists>s'. lighty_sendfile64 (\<lambda>a b c d w. ((-1, None), w)) X86_64 65536 5 8 (Some 1000) 24 (sample_open, ()) =
      Inr ((sint (24 :: 64 word), Some (1000 + 24)), s', ()) \<and> queues_ok (any_tab :: unit systab) s' \<and>
    pending_at s' 1 = pending_at sample_open 1 @ [(ESCA_sendfile X86_64, 4, [of_int 5, of_int 8, off_addr 65536 1 0, 24])] \<and>
    off_arr s' 1 0 = 1000 \<and>
    (\<forall>m < length (pending_at sample_open 1). off_arr s' 1 (int (pending_slot sample_open 1 m)) =
      off_arr sample_open 1 (int (pending_slot sample_open 1 m)))"
    by (rule lighty_sendfile64_offset)
      (simp_all add: has_room_def table_of_def int_ok_def fd_ok_def any_tab_def pending_slot_def
        sample_chan_def spos_def slot_index_def)
  then show ?thesis by (auto simp: ESCA_sendfile_def off_addr_def off_cols_def)
qed

end
