(* ===== verification/Pools.thy ===== *)
theory Pools
  imports Wrappers
begin

unbundle bit_operations_syntax

text \<open>
  The wrappers that copy what they queue: \<open>write\<close> of \<open>wrapper/ngx_tls.c\<close> copies the buffer into
  the byte pool, \<open>sendmsg\<close> of \<open>wrapper/mcached.c\<close> the buffers, the vector and the message header
  into the three pools. The pools hand out space front to back and start over when they are
  used up.
\<close>

section \<open>The pools\<close>

definition MAX_POOL_SIZE :: "64 word" where "MAX_POOL_SIZE = 900000000"
definition MAX_POOL_IOV_SIZE :: nat where "MAX_POOL_IOV_SIZE = 1024"
definition MAX_POOL_MSG_SIZE :: nat where "MAX_POOL_MSG_SIZE = 1024"
definition IOV_MASK :: "64 word" where "IOV_MASK = of_nat MAX_POOL_IOV_SIZE - 1"
definition MSG_MASK :: "64 word" where "MSG_MASK = of_nat MAX_POOL_MSG_SIZE - 1"

lemmas pool_size_defs = MAX_POOL_SIZE_def MAX_POOL_IOV_SIZE_def MAX_POOL_MSG_SIZE_def

text \<open>
  Start over when \<open>n\<close> bytes do not fit behind \<open>pool_offset\<close>, then copy \<open>n\<close> bytes of the caller's
  memory \<open>umem\<close> from \<open>src\<close>; the copy stops the program when it leaves the pool.
\<close>

definition pool_copy :: "(64 word \<Rightarrow> 8 word) \<Rightarrow> 64 word \<Rightarrow> 64 word \<Rightarrow> saio \<Rightarrow> saio res" where
  "pool_copy umem src n s =
     (let s = (if pool_offset s + n > MAX_POOL_SIZE then s\<lparr>pool_offset := 0\<rparr> else s);
          off = unat (pool_offset s) in
     bind_res (guard_res (off + unat n \<le> unat MAX_POOL_SIZE) OutOfBounds) (\<lambda>_.
     Inr (s\<lparr>mpool := (\<lambda>k. if off \<le> k \<and> k < off + unat n then umem (src + of_nat (k - off))
                          else mpool s k)\<rparr>)))"

section \<open>nginx's write\<close>

definition ngx_tls_write ::
  "'w real_write \<Rightarrow> arch \<Rightarrow> (64 word \<Rightarrow> 8 word) \<Rightarrow> int \<Rightarrow> 64 word \<Rightarrow> 64 word \<Rightarrow> saio \<times> 'w
    \<Rightarrow> (int \<times> saio \<times> 'w) res" where
  "ngx_tls_write real_write arc umem fd buf count sw = (case sw of (s, w) \<Rightarrow>
     if in_segment s = 0 then (let (r, w) = real_write fd buf count w in Inr (r, s, w))
     else
       bind_res (set_idx fd s) (\<lambda>idx.
       bind_res (count_batch s) (\<lambda>s.
       bind_res (utable_at s idx) (\<lambda>p.
       bind_res (pool_copy umem buf count s) (\<lambda>s.
       bind_res (enqueue idx (ESCA_write arc) [of_int fd, mpool_addr s + pool_offset s, count] s) (\<lambda>s.
       Inr (sint count, s\<lparr>pool_offset := pool_offset s + count\<rparr>, w)))))))"

section \<open>memcached's sendmsg\<close>

definition sizeof_iovec :: "64 word" where "sizeof_iovec = 8 + 8"
definition sizeof_msghdr :: "64 word" where "sizeof_msghdr = 8 + 8 + 8 + 8 + 8 + 8 + 8"

text \<open>A \<open>size_t\<close> or \<open>ull\<close> stored in an \<open>int\<close>.\<close>

definition int_of_size :: "64 word \<Rightarrow> int" where
  "int_of_size n = sint (ucast n :: 32 word)"

text \<open>One turn of the loop over the caller's vector; the integer is \<open>res\<close>.\<close>

definition sendmsg_copy ::
  "(64 word \<Rightarrow> 8 word) \<Rightarrow> iovec list \<Rightarrow> int \<Rightarrow> int \<times> saio \<Rightarrow> (int \<times> saio) res" where
  "sendmsg_copy umem iov k rs = (case rs of (res, s) \<Rightarrow>
     bind_res (guard_res (nat k < length iov) OutOfBounds) (\<lambda>_.
     let ll = int_of_size (iov_len (iov ! nat k)) in
     bind_res (pool_copy umem (iov_base (iov ! nat k)) (of_int ll) s) (\<lambda>s.
     let s = s\<lparr>iov_offset := iov_offset s AND IOV_MASK\<rparr>;
         s = s\<lparr>iovpool := (iovpool s)(unat (iov_offset s) :=
               \<lparr>iov_base = mpool_addr s + pool_offset s, iov_len = of_int ll\<rparr>)\<rparr>;
         s = s\<lparr>iov_offset := iov_offset s + 1\<rparr>;
         s = s\<lparr>pool_offset := pool_offset s + of_int ll\<rparr> in
     bind_res (guard_res (int_ok (res + ll)) IntOverflow) (\<lambda>_. Inr (res + ll, s)))))"

text \<open>\<open>iov\<close> is the vector \<open>msg->msg_iov\<close> points to.\<close>

definition mcached_sendmsg ::
  "(int \<Rightarrow> msghdr \<Rightarrow> int \<Rightarrow> 'w \<Rightarrow> int \<times> 'w) \<Rightarrow> arch \<Rightarrow> (64 word \<Rightarrow> 8 word) \<Rightarrow> int \<Rightarrow> msghdr \<Rightarrow> iovec list
    \<Rightarrow> int \<Rightarrow> saio \<times> 'w \<Rightarrow> (int \<times> saio \<times> 'w) res" where
  "mcached_sendmsg real_sendmsg arc umem sockfd msg iov flgs sw = (case sw of (s, w) \<Rightarrow>
     if in_segment s = 0 then (let (r, w) = real_sendmsg sockfd msg flgs w in Inr (r, s, w))
     else
       bind_res (set_idx sockfd s) (\<lambda>idx.
       bind_res (count_batch s) (\<lambda>s.
       bind_res (utable_at s idx) (\<lambda>p.
       let s = s\<lparr>msg_offset := msg_offset s AND MSG_MASK\<rparr>;
           s = s\<lparr>iov_offset := iov_offset s AND IOV_MASK\<rparr>;
           iovlen = int_of_size (msg_iovlen msg); start_iov_offset = int_of_size (iov_offset s) in
       bind_res (fold_res (sendmsg_copy umem iov) [0..iovlen - 1] (0, s)) (\<lambda>(res, s).
       let s = s\<lparr>msgpool := (msgpool s)(unat (msg_offset s) :=
             \<lparr>msg_name = 0, msg_namelen = 0, msg_iov = iovpool_addr s + sizeof_iovec * of_int start_iov_offset,
              msg_iovlen = of_int iovlen, msg_control = 0, msg_controllen = 0, msg_flags = msg_flags msg\<rparr>)\<rparr>;
           addr = msgpool_addr s + sizeof_msghdr * msg_offset s;
           s = s\<lparr>msg_offset := msg_offset s + 1\<rparr> in
       bind_res (enqueue idx (ESCA_sendmsg arc) [of_int sockfd, addr, of_int flgs] s) (\<lambda>s.
       Inr (res, s, w)))))))"

section \<open>Copying into the byte pool\<close>

lemma unat_max_pool: "unat MAX_POOL_SIZE = 900000000"
  by (simp add: MAX_POOL_SIZE_def)

lemma pool_fits:
  assumes "unat (pool_offset s) + unat n \<le> unat MAX_POOL_SIZE"
  shows "\<not> pool_offset s + n > MAX_POOL_SIZE" and "unat (pool_offset s + n) = unat (pool_offset s) + unat n"
proof -
  have "unat (pool_offset s) + unat n < 2 ^ 64" using assms by (simp add: unat_max_pool)
  then show u: "unat (pool_offset s + n) = unat (pool_offset s) + unat n"
    by (simp add: unat_word_ariths)
  show "\<not> pool_offset s + n > MAX_POOL_SIZE"
    using assms u by (simp add: word_less_nat_alt)
qed

lemma pool_copy_ok:
  assumes "unat (pool_offset s) + unat n \<le> unat MAX_POOL_SIZE"
  shows "pool_copy umem src n s = Inr (s\<lparr>mpool := (\<lambda>k.
    if unat (pool_offset s) \<le> k \<and> k < unat (pool_offset s) + unat n
    then umem (src + of_nat (k - unat (pool_offset s))) else mpool s k)\<rparr>)"
  using assms pool_fits [OF assms] by (simp add: pool_copy_def Let_def)

text \<open>The bytes a pointer into the pool leads to.\<close>

definition pool_bytes :: "(nat \<Rightarrow> 8 word) \<Rightarrow> 64 word \<Rightarrow> 64 word \<Rightarrow> 64 word \<Rightarrow> 8 word list" where
  "pool_bytes mp base addr n = map (\<lambda>k. mp (unat (addr - base) + k)) [0..<unat n]"

definition user_bytes :: "(64 word \<Rightarrow> 8 word) \<Rightarrow> 64 word \<Rightarrow> 64 word \<Rightarrow> 8 word list" where
  "user_bytes umem src n = map (\<lambda>k. umem (src + of_nat k)) [0..<unat n]"

section \<open>A sequence of writes\<close>

text \<open>Where the writes of a sequence put their bytes as long as the pool does not start over.\<close>

fun tls_layout :: "64 word \<Rightarrow> (int \<times> 64 word \<times> 64 word) list \<Rightarrow> (int \<times> 64 word \<times> 64 word) list" where
  "tls_layout a [] = []"
| "tls_layout a ((fd, buf, n) # ws) = (fd, a, n) # tls_layout (a + n) ws"

definition tls_total :: "(int \<times> 64 word \<times> 64 word) list \<Rightarrow> nat" where
  "tls_total ws = sum_list (map (\<lambda>(fd, buf, n). unat n) ws)"

abbreviation call_fd :: "int \<times> 64 word \<times> 64 word \<Rightarrow> int" where
  "call_fd c \<equiv> (case c of (fd, a, n) \<Rightarrow> fd)"

definition write_request :: "arch \<Rightarrow> int \<times> 64 word \<times> 64 word \<Rightarrow> request" where
  "write_request arc c = (case c of (fd, a, n) \<Rightarrow> (ESCA_write arc, 3, [of_int fd, a, n]))"

lemma calls_for_layout:
  "length (calls_for s call_fd t (tls_layout a ws)) = length (calls_for s call_fd t ws)"
  by (induction a ws rule: tls_layout.induct) (simp_all add: calls_for_def)

text \<open>The bytes behind every queued pointer.\<close>

definition holds_data ::
  "(64 word \<Rightarrow> 8 word) \<Rightarrow> saio \<Rightarrow> (int \<times> 64 word \<times> 64 word) list \<Rightarrow> (int \<times> 64 word \<times> 64 word) list \<Rightarrow> bool" where
  "holds_data umem s ls ws \<longleftrightarrow> list_all2 (\<lambda>(fd, a, n) (fd', buf, n').
     n = n' \<and> pool_bytes (mpool s) (mpool_addr s) a n = user_bytes umem buf n) ls ws"

lemma tls_write_ok:
  fixes tab :: "'w systab" and w :: 'w
  assumes "in_segment s \<noteq> 0" and q: "queues_ok tab s" and fd: "fd_ok fd" and "tab (ESCA_write arc) \<noteq> None"
    and room: "has_room s (table_of s fd)" and b: "int_ok (batch_num s + 1)"
    and n: "unat (pool_offset s) + unat n \<le> unat MAX_POOL_SIZE"
  shows "\<exists>s'. ngx_tls_write rw arc umem fd buf n (s, w) = Inr (sint n, s', w) \<and> queues_ok tab s' \<and>
    (\<exists>m. s' = s\<lparr>batch_num := batch_num s + 1, mpool := (\<lambda>k.
       if unat (pool_offset s) \<le> k \<and> k < unat (pool_offset s) + unat n
       then umem (buf + of_nat (k - unat (pool_offset s))) else mpool s k), mem := m,
       pool_offset := pool_offset s + n\<rparr>) \<and>
    (\<forall>t. own s t \<longrightarrow> pending_at s' t = pending_at s t @
       (if t = table_of s fd then [write_request arc (fd, mpool_addr s + pool_offset s, n)] else []))"
proof -
  define s0 where "s0 = s\<lparr>batch_num := batch_num s + 1\<rparr>"
  define mp where "mp = (\<lambda>k. if unat (pool_offset s) \<le> k \<and> k < unat (pool_offset s) + unat n
       then umem (buf + of_nat (k - unat (pool_offset s))) else mpool s k)"
  define s1 where "s1 = s0\<lparr>mpool := mp\<rparr>"
  let ?t = "table_of s fd" and ?as = "[of_int fd, mpool_addr s + pool_offset s, n]"
  have a: "attached s" using q by (simp add: queues_ok_def)
  have o: "own s ?t" using a by (rule own_table_of)
  obtain p where p: "utable_at s ?t = Inr p" by (rule own_access [OF a o])
  have c: "queues_ok tab s1 = queues_ok tab s" "pending_at s1 = pending_at s" "own s1 = own s" "has_room s1 = has_room s"
    by (rule queues_ok_cong; simp add: s1_def s0_def)+
  have r: "req_ok tab (ESCA_write arc, int (length ?as), ?as)" using assms(4) by (simp add: req_ok_def)
  have q1: "queues_ok tab s1" "own s1 ?t" "has_room s1 ?t" using c q o room by simp_all
  obtain s2 m where s2: "enqueue ?t (ESCA_write arc) ?as s1 = Inr s2" "queues_ok tab s2" "s2 = s1\<lparr>mem := m\<rparr>"
      "\<And>t. own s t \<Longrightarrow> pending_at s2 t =
        pending_at s t @ (if t = ?t then [(ESCA_write arc, int (length ?as), ?as)] else [])"
    using enqueue_ok [OF q1(1,2) r q1(3)] c by auto
  let ?s' = "s2\<lparr>pool_offset := pool_offset s + n\<rparr>"
  have "pool_copy umem buf n s0 = Inr s1"
    using pool_copy_ok [of s0 n umem buf] n by (simp add: s0_def s1_def mp_def cong: if_cong)
  moreover have "utable_at s0 ?t = Inr p" using p by (simp add: s0_def access_batch_num)
  moreover have "count_batch s = Inr s0" using b by (simp add: s0_def count_batch_ok)
  moreover have "mpool_addr s1 = mpool_addr s" "pool_offset s1 = pool_offset s" "pool_offset s2 = pool_offset s"
    by (simp_all add: s1_def s0_def s2(3))
  ultimately have "ngx_tls_write rw arc umem fd buf n (s, w) = Inr (sint n, ?s', w)"
    using s2(1) assms(1) by (simp add: ngx_tls_write_def set_idx_ok [OF a fd])
  moreover have "queues_ok tab ?s' = queues_ok tab s2" "pending_at ?s' = pending_at s2"
    by (rule queues_ok_cong; simp)+
  moreover have "?s' = s\<lparr>batch_num := batch_num s + 1, mpool := mp, mem := m, pool_offset := pool_offset s + n\<rparr>"
    by (simp add: s2(3) s1_def s0_def)
  ultimately show ?thesis
    using s2(2,4) unfolding mp_def by (auto simp: write_request_def)
qed

lemma pool_bytes_own:
  assumes "unat off + unat n \<le> unat MAX_POOL_SIZE"
    and "\<And>k. unat off \<le> k \<Longrightarrow> k < unat off + unat n \<Longrightarrow> mp k = umem (buf + of_nat (k - unat off))"
  shows "pool_bytes mp base (base + off) n = user_bytes umem buf n"
  using assms(2) by (simp add: pool_bytes_def user_bytes_def)

lemma tls_writes_ok:
  fixes tab :: "'w systab" and w :: 'w
  assumes "in_segment s \<noteq> 0" and "queues_ok tab s" and "fits s call_fd ws"
    and "list_all (\<lambda>c. fd_ok (call_fd c)) ws" and "tab (ESCA_write arc) \<noteq> None"
    and "unat (pool_offset s) + tls_total ws \<le> unat MAX_POOL_SIZE"
    and "ls = tls_layout (mpool_addr s + pool_offset s) ws"
  shows "\<exists>s'. run_calls (\<lambda>(fd, buf, n). ngx_tls_write rw arc umem fd buf n) ws (s, w) =
      Inr (map (\<lambda>(fd, buf, n). sint n) ws, s', w) \<and> queues_ok tab s' \<and> mpool_addr s' = mpool_addr s \<and>
    (\<forall>t. own s t \<longrightarrow> pending_at s' t = pending_at s t @ map (write_request arc) (calls_for s call_fd t ls)) \<and>
    holds_data umem s' ls ws \<and> (\<forall>k < unat (pool_offset s). mpool s' k = mpool s k)"
  using assms
proof (induction ws arbitrary: s ls)
  case Nil
  then show ?case by (simp add: calls_for_def holds_data_def)
next
  case (Cons c ws)
  obtain fd buf n where c: "c = (fd, buf, n)" by (cases c)
  have at: "attached s" using Cons.prems(2) by (simp add: queues_ok_def)
  have tot: "unat (pool_offset s) + unat n + tls_total ws \<le> unat MAX_POOL_SIZE"
    using Cons.prems(6) by (simp add: tls_total_def c)
  then have tot1: "unat (pool_offset s) + unat n \<le> unat MAX_POOL_SIZE" by simp
  define mp where "mp = (\<lambda>k. if unat (pool_offset s) \<le> k \<and> k < unat (pool_offset s) + unat n
       then umem (buf + of_nat (k - unat (pool_offset s))) else mpool s k)"
  obtain s1 m where s1: "ngx_tls_write rw arc umem fd buf n (s, w) = Inr (sint n, s1, w)" "queues_ok tab s1"
      "s1 = s\<lparr>batch_num := batch_num s + 1, mpool := mp, mem := m, pool_offset := pool_offset s + n\<rparr>"
    and pn: "\<And>t. own s t \<Longrightarrow> pending_at s1 t = pending_at s t @
      (if t = table_of s (call_fd c) then [write_request arc (fd, mpool_addr s + pool_offset s, n)] else [])"
    using tls_write_ok [of s tab fd arc n rw umem buf w] Cons.prems fits_room [OF Cons.prems(3) at] tot1
    unfolding mp_def by (auto simp: c)
  have fr: "glob s1 = glob s" "this_worker_id s1 = this_worker_id s" "batch_num s1 = batch_num s + 1"
    "in_segment s1 = in_segment s" "mpool_addr s1 = mpool_addr s" "pool_offset s1 = pool_offset s + n" "mpool s1 = mp"
    by (simp_all add: s1(3))
  note sp = same_process [OF fr(1,2)]
  have u: "unat (pool_offset s1) = unat (pool_offset s) + unat n" using pool_fits(2) [OF tot1] fr by simp
  let ?ls = "tls_layout (mpool_addr s1 + pool_offset s1) ws"
  have ls: "ls = (fd, mpool_addr s + pool_offset s, n) # ?ls" using Cons.prems(7) by (simp add: c fr add.assoc)
  have "fits s1 call_fd ws" using Cons.prems(3) fr(1,2,3) pn by (rule fits_next)
  then obtain s' where s': "run_calls (\<lambda>(fd, buf, n). ngx_tls_write rw arc umem fd buf n) ws (s1, w) =
      Inr (map (\<lambda>(fd, buf, n). sint n) ws, s', w)" "queues_ok tab s'" "mpool_addr s' = mpool_addr s1"
      "\<And>t. own s t \<Longrightarrow> pending_at s' t = pending_at s1 t @ map (write_request arc) (calls_for s call_fd t ?ls)"
      "holds_data umem s' ?ls ws" "\<And>k. k < unat (pool_offset s1) \<Longrightarrow> mpool s' k = mpool s1 k"
    using Cons.IH [of s1 ?ls] Cons.prems s1(2) fr tot u by (auto simp: sp)
  have "mpool_addr s' = mpool_addr s" using s'(3) fr by simp
  then have "pool_bytes (mpool s') (mpool_addr s') (mpool_addr s + pool_offset s) n = user_bytes umem buf n"
    using s'(6) u by (simp add: fr mp_def pool_bytes_own [OF tot1])
  with s'(5) have "holds_data umem s' ls (c # ws)" by (simp add: holds_data_def ls c)
  moreover have "\<forall>k < unat (pool_offset s). mpool s' k = mpool s k"
    using s'(6) u by (simp add: fr mp_def)
  moreover have "pending_at s' t = pending_at s t @ map (write_request arc) (calls_for s call_fd t ls)"
    if "own s t" for t
    using s'(4) [OF that] pn [OF that] by (simp add: ls calls_for_def c)
  ultimately show ?case
    using s1 s' by (intro exI [of _ s']) (simp add: c fr)
qed

section \<open>The loop of sendmsg\<close>

lemma int_of_size_small:
  assumes "unat x < 2 ^ 31"
  shows "int_of_size x = int (unat x)"
proof -
  have "int (unat x) < int (2 ^ 31)" using assms by (simp only: of_nat_less_iff)
  then have ux: "uint x < 2 ^ 31" by simp
  then have u: "uint (ucast x :: 32 word) = int (unat x)"
    by (simp add: unsigned_ucast_eq take_bit_int_eq_self)
  have "- (2 ^ 31) \<le> uint x" by (rule order_trans [of _ 0]) simp_all
  with ux have "signed_take_bit 31 (uint x) = uint x" by (intro signed_take_bit_int_eq_self)
  with u have "sint (ucast x :: 32 word) = uint (ucast x :: 32 word)" by (simp add: sint_uint)
  with u show ?thesis by (simp add: int_of_size_def)
qed

lemma mask_mod: "unat (x AND IOV_MASK) = unat x mod 1024" "unat (x AND MSG_MASK) = unat x mod 1024"
proof -
  have "x AND 1023 = take_bit 10 x" by (simp add: take_bit_eq_mask mask_eq_exp_minus_1)
  then have "unat (x AND 1023) = unat x mod 1024"
    by (simp add: unsigned_take_bit_eq) (simp add: take_bit_eq_mod)
  then show "unat (x AND IOV_MASK) = unat x mod 1024" "unat (x AND MSG_MASK) = unat x mod 1024"
    by (simp_all add: IOV_MASK_def MSG_MASK_def pool_size_defs)
qed

lemma unat_Suc_mod: "unat (x + 1 :: 64 word) mod 1024 = Suc (unat x) mod 1024"
  by (simp add: unat_word_ariths mod_mod_cancel)

text \<open>The number of bytes of the first vectors, and the state after copying them.\<close>

definition iov_pos :: "iovec list \<Rightarrow> nat \<Rightarrow> nat" where
  "iov_pos iov i = sum_list (map (\<lambda>v. unat (iov_len v)) (take i iov))"

lemma iov_pos_Suc: "i < length iov \<Longrightarrow> iov_pos iov (Suc i) = iov_pos iov i + unat (iov_len (iov ! i))"
  by (simp add: iov_pos_def take_Suc_conv_app_nth)

lemma iov_pos_mono: "i \<le> j \<Longrightarrow> iov_pos iov i \<le> iov_pos iov j"
proof (induction j)
  case (Suc j)
  have "iov_pos iov j \<le> iov_pos iov (Suc j)"
  proof (cases "j < length iov")
    case True
    then show ?thesis by (simp add: iov_pos_Suc)
  qed (simp add: iov_pos_def)
  with Suc show ?case by (cases "i = Suc j") auto
qed simp

text \<open>The fields a copy leaves alone.\<close>

definition same_but_pools :: "saio \<Rightarrow> saio \<Rightarrow> bool" where
  "same_but_pools s0 s \<longleftrightarrow> mem s = mem s0 \<and> glob s = glob s0 \<and> this_worker_id s = this_worker_id s0 \<and>
     utable s = utable s0 \<and> ktable s = ktable s0 \<and> pgsize s = pgsize s0 \<and> batch_num s = batch_num s0 \<and>
     in_segment s = in_segment s0 \<and> msg_offset s = msg_offset s0 \<and> msgpool s = msgpool s0 \<and>
     mpool_addr s = mpool_addr s0 \<and> iovpool_addr s = iovpool_addr s0 \<and> msgpool_addr s = msgpool_addr s0"

definition copied :: "(64 word \<Rightarrow> 8 word) \<Rightarrow> iovec list \<Rightarrow> saio \<Rightarrow> nat \<Rightarrow> int \<times> saio \<Rightarrow> bool" where
  "copied umem iov s0 n rs = (case rs of (res, s) \<Rightarrow>
     same_but_pools s0 s \<and> res = int (iov_pos iov n) \<and>
     unat (pool_offset s) = unat (pool_offset s0) + iov_pos iov n \<and>
     unat (iov_offset s) mod 1024 = (unat (iov_offset s0) + n) mod 1024 \<and>
     (\<forall>i < n. iovpool s ((unat (iov_offset s0) + i) mod 1024) =
        \<lparr>iov_base = mpool_addr s0 + of_nat (unat (pool_offset s0) + iov_pos iov i), iov_len = iov_len (iov ! i)\<rparr>) \<and>
     (\<forall>i < n. \<forall>b < unat (iov_len (iov ! i)).
        mpool s (unat (pool_offset s0) + iov_pos iov i + b) = umem (iov_base (iov ! i) + of_nat b)))"

lemma sendmsg_copy_ok:
  assumes c: "copied umem iov s0 n (res, s)" and n: "n < length iov" "n < 1024"
    and len: "unat (iov_len (iov ! n)) < 2 ^ 31"
    and fit: "unat (pool_offset s0) + iov_pos iov (Suc n) \<le> unat MAX_POOL_SIZE"
  shows "\<exists>rs'. sendmsg_copy umem iov (int n) (res, s) = Inr rs' \<and> copied umem iov s0 (Suc n) rs'"
proof -
  let ?v = "iov ! n" and ?o0 = "unat (pool_offset s0)" and ?p = "iov_pos iov"
  have C: "same_but_pools s0 s" "res = int (?p n)" "unat (pool_offset s) = ?o0 + ?p n"
    "unat (iov_offset s) mod 1024 = (unat (iov_offset s0) + n) mod 1024"
    using c by (simp_all add: copied_def)
  define l where "l = unat (iov_len ?v)"
  have ps: "?p (Suc n) = ?p n + l" using iov_pos_Suc [OF n(1)] by (simp only: l_def)
  have ll: "int_of_size (iov_len ?v) = int l" using int_of_size_small [OF len] by (simp only: l_def)
  have lw: "of_nat l = iov_len ?v" by (simp add: l_def)
  have f: "unat (pool_offset s) + unat (iov_len ?v) \<le> unat MAX_POOL_SIZE"
    using fit C(3) ps by (simp only: l_def)
  define s' where "s' = s\<lparr>mpool := (\<lambda>k. if unat (pool_offset s) \<le> k \<and> k < unat (pool_offset s) + unat (iov_len ?v)
      then umem (iov_base ?v + of_nat (k - unat (pool_offset s))) else mpool s k),
    iovpool := (iovpool s)(unat (iov_offset s AND IOV_MASK) :=
      \<lparr>iov_base = mpool_addr s + pool_offset s, iov_len = iov_len ?v\<rparr>),
    iov_offset := (iov_offset s AND IOV_MASK) + 1, pool_offset := pool_offset s + iov_len ?v\<rparr>"
  have io: "int_ok (res + int l)" using fit C(2) ps by (simp add: int_ok_def unat_max_pool)
  have "sendmsg_copy umem iov (int n) (res, s) = Inr (res + int l, s')"
    using n(1) io by (simp add: sendmsg_copy_def ll lw pool_copy_ok [OF f] Let_def s'_def)
  moreover have "copied umem iov s0 (Suc n) (res + int l, s')"
  proof -
    have sb: "same_but_pools s0 s'" using C(1) by (simp add: same_but_pools_def s'_def)
    have po: "unat (pool_offset s') = ?o0 + ?p (Suc n)" using pool_fits(2) [OF f] C(3) ps by (simp add: s'_def l_def)
    have iof: "unat (iov_offset s') mod 1024 = (unat (iov_offset s0) + Suc n) mod 1024"
    proof -
      have "unat (iov_offset s') mod 1024 = Suc (unat (iov_offset s) mod 1024) mod 1024"
        by (simp add: s'_def unat_Suc_mod mask_mod)
      then show ?thesis by (simp add: C(4) mod_Suc_eq)
    qed
    have ix: "(unat (iov_offset s0) + i) mod 1024 \<noteq> (unat (iov_offset s0) + n) mod 1024" if "i < n" for i
      using that n(2) by (intro mod_neq_of_close) auto
    have "iovpool s' ((unat (iov_offset s0) + i) mod 1024) =
        \<lparr>iov_base = mpool_addr s0 + of_nat (?o0 + ?p i), iov_len = iov_len (iov ! i)\<rparr>" if "i < Suc n" for i
    proof (cases "i = n")
      case True
      have "of_nat (unat (pool_offset s)) = pool_offset s" by simp
      then have "pool_offset s = of_nat (?o0 + ?p n)" unfolding C(3) by (rule sym)
      then show ?thesis using True C(1,4) by (simp add: s'_def mask_mod same_but_pools_def)
    next
      case False
      with that have "i < n" by simp
      then show ?thesis using c ix C(4) by (simp add: s'_def mask_mod copied_def)
    qed
    moreover have "mpool s' (?o0 + ?p i + b) = umem (iov_base (iov ! i) + of_nat b)"
      if "i < Suc n" "b < unat (iov_len (iov ! i))" for i b
    proof (cases "i = n")
      case True
      then show ?thesis using that C(3) by (simp add: s'_def)
    next
      case False
      with that have "i < n" by simp
      have "?p (Suc i) \<le> ?p n" using \<open>i < n\<close> by (intro iov_pos_mono) simp
      then have "?o0 + ?p i + b < ?o0 + ?p n" using that(2) \<open>i < n\<close> n(1) iov_pos_Suc [of i iov] by simp
      then show ?thesis using c that(2) \<open>i < n\<close> C(3) by (simp add: s'_def copied_def)
    qed
    ultimately show ?thesis using sb po iof C(2) ps by (simp add: copied_def)
  qed
  ultimately show ?thesis by blast
qed

lemma sendmsg_loop_ok:
  assumes len: "\<forall>v \<in> set iov. unat (iov_len v) < 2 ^ 31" and n: "length iov \<le> 1024"
    and fit: "unat (pool_offset s0) + iov_pos iov (length iov) \<le> unat MAX_POOL_SIZE"
  shows "\<exists>rs. fold_res (sendmsg_copy umem iov) [0..int (length iov) - 1] (0, s0) = Inr rs \<and>
    copied umem iov s0 (length iov) rs"
proof -
  have "\<exists>rs. fold_res (sendmsg_copy umem iov) [0..int (length iov) - 1] (0, s0) = Inr rs \<and>
      copied umem iov s0 (nat (int (length iov))) rs"
  proof (rule fold_res_upto_rule)
    show "copied umem iov s0 (nat 0) (0, s0)" by (simp add: copied_def same_but_pools_def iov_pos_def)
  next
    fix k rs assume k: "0 \<le> k" "k < int (length iov)" and c: "copied umem iov s0 (nat k) rs"
    obtain res s where rs: "rs = (res, s)" by (cases rs)
    have nk: "nat k < length iov" using k by simp
    have "iov_pos iov (Suc (nat k)) \<le> iov_pos iov (length iov)" using nk by (intro iov_pos_mono) simp
    moreover have "unat (iov_len (iov ! nat k)) < 2 ^ 31" using len nk by simp
    ultimately have "\<exists>rs'. sendmsg_copy umem iov (int (nat k)) (res, s) = Inr rs' \<and> copied umem iov s0 (Suc (nat k)) rs'"
      using c nk n fit unfolding rs by (intro sendmsg_copy_ok) auto
    then show "\<exists>s'. sendmsg_copy umem iov k rs = Inr s' \<and> copied umem iov s0 (nat (k + 1)) s'"
      using k by (simp add: rs nat_add_distrib)
  qed simp
  then show ?thesis by simp
qed

section \<open>What the kernel makes of a queued message\<close>

text \<open>
  The kernel reads \<open>msg_iovlen\<close> consecutive vectors from \<open>msg_iov\<close> on and the bytes each points
  to; reading past the pool of vectors is out of bounds.
\<close>

definition gather :: "saio \<Rightarrow> msghdr \<Rightarrow> 8 word list res" where
  "gather s h =
     (let first = unat ((msg_iov h - iovpool_addr s) div sizeof_iovec); n = unat (msg_iovlen h) in
     if first + n \<le> MAX_POOL_IOV_SIZE then
       Inr (concat (map (\<lambda>i. pool_bytes (mpool s) (mpool_addr s) (iov_base (iovpool s (first + i)))
         (iov_len (iovpool s (first + i)))) [0..<n]))
     else Inl OutOfBounds)"

lemma gather_copied:
  assumes c: "copied umem iov s0 (length iov) (res, s)"
    and fit: "unat (pool_offset s0) + iov_pos iov (length iov) \<le> unat MAX_POOL_SIZE"
    and io: "unat (iov_offset s0) < 1024" and n: "length iov \<le> 1024"
    and h: "msg_iov h = iovpool_addr s + sizeof_iovec * iov_offset s0" "msg_iovlen h = of_nat (length iov)"
  shows "gather s h = (if unat (iov_offset s0) + length iov \<le> 1024
    then Inr (concat (map (\<lambda>v. user_bytes umem (iov_base v) (iov_len v)) iov)) else Inl OutOfBounds)"
proof -
  let ?o0 = "unat (pool_offset s0)" and ?st = "unat (iov_offset s0)"
  have "unat (sizeof_iovec * iov_offset s0) = 16 * ?st"
    using io by (simp add: sizeof_iovec_def unat_word_ariths)
  then have first: "unat ((msg_iov h - iovpool_addr s) div sizeof_iovec) = ?st"
    by (simp add: h unat_div sizeof_iovec_def)
  have len: "unat (msg_iovlen h) = length iov" using n by (simp add: h unat_of_nat)
  have v: "pool_bytes (mpool s) (mpool_addr s) (iov_base (iovpool s (?st + i))) (iov_len (iovpool s (?st + i))) =
      user_bytes umem (iov_base (iov ! i)) (iov_len (iov ! i))"
    if i: "i < length iov" and st: "?st + length iov \<le> 1024" for i
  proof -
    have "iov_pos iov i \<le> iov_pos iov (length iov)" using i by (intro iov_pos_mono) simp
    then have "?o0 + iov_pos iov i < 2 ^ 64" using fit by (simp add: unat_max_pool)
    then have "unat (of_nat (?o0 + iov_pos iov i) :: 64 word) = ?o0 + iov_pos iov i"
      by (simp add: unat_of_nat del: of_nat_add)
    moreover have "iovpool s (?st + i) =
        \<lparr>iov_base = mpool_addr s + of_nat (?o0 + iov_pos iov i), iov_len = iov_len (iov ! i)\<rparr>"
      using c i st by (auto simp: copied_def same_but_pools_def)
    ultimately show ?thesis
      using c i by (simp add: pool_bytes_def user_bytes_def copied_def del: of_nat_add)
  qed
  have "map (\<lambda>i. user_bytes umem (iov_base (iov ! i)) (iov_len (iov ! i))) [0..<length iov] =
      map (\<lambda>v. user_bytes umem (iov_base v) (iov_len v)) iov"
    by (rule nth_equalityI) simp_all
  moreover have "map (\<lambda>i. pool_bytes (mpool s) (mpool_addr s) (iov_base (iovpool s (?st + i)))
      (iov_len (iovpool s (?st + i)))) [0..<length iov] =
    map (\<lambda>i. user_bytes umem (iov_base (iov ! i)) (iov_len (iov ! i))) [0..<length iov]"
    if "?st + length iov \<le> 1024"
    using v that by (intro map_cong) auto
  ultimately show ?thesis
    by (simp add: gather_def first len MAX_POOL_IOV_SIZE_def Let_def)
qed

lemma gather_cong:
  assumes "iovpool s' = iovpool s" "mpool s' = mpool s" "mpool_addr s' = mpool_addr s" "iovpool_addr s' = iovpool_addr s"
  shows "gather s' = gather s"
  by (intro ext) (simp add: gather_def assms Let_def)

lemma upt_small: "[0..<2] = [0, 1 :: nat]" "[0..<3] = [0, 1, 2 :: nat]" "[0..<4] = [0, 1, 2, 3 :: nat]"
  by (simp_all add: upt_rec)

section \<open>Properties\<close>

text \<open>
  The byte pool is never overrun: from an offset inside the pool, copying at most
  \<open>MAX_POOL_SIZE\<close> bytes returns, puts the caller's bytes into a stretch of the pool that begins at
  the new offset, leaves every other byte alone, and leaves an offset from which the stretch
  still ends inside the pool.
\<close>

theorem pool_copy_in_bounds:
  assumes "unat (pool_offset s) \<le> unat MAX_POOL_SIZE" and "unat n \<le> unat MAX_POOL_SIZE"
  shows "\<exists>s'. pool_copy umem src n s = Inr s' \<and>
    unat (pool_offset s') + unat n \<le> unat MAX_POOL_SIZE \<and> (pool_offset s' = pool_offset s \<or> pool_offset s' = 0) \<and>
    pool_bytes (mpool s') (mpool_addr s') (mpool_addr s' + pool_offset s') n = user_bytes umem src n \<and>
    (\<forall>k. k < unat (pool_offset s') \<or> unat (pool_offset s') + unat n \<le> k \<longrightarrow> mpool s' k = mpool s k)"
proof -
  define s1 where "s1 = (if pool_offset s + n > MAX_POOL_SIZE then s\<lparr>pool_offset := 0\<rparr> else s)"
  have "unat (pool_offset s) + unat n < 2 ^ 64" using assms by (simp add: unat_max_pool)
  then have u: "unat (pool_offset s + n) = unat (pool_offset s) + unat n" by (simp add: unat_word_ariths)
  have f: "unat (pool_offset s1) + unat n \<le> unat MAX_POOL_SIZE"
    using assms(2) u by (auto simp: s1_def word_less_nat_alt)
  have "pool_copy umem src n s = pool_copy umem src n s1"
    using pool_fits(1) [OF f] assms(2) by (auto simp: pool_copy_def s1_def Let_def)
  moreover have "mpool s1 = mpool s" "pool_offset s1 = pool_offset s \<or> pool_offset s1 = 0" by (auto simp: s1_def)
  ultimately show ?thesis
    using f pool_copy_ok [OF f, of umem src] pool_bytes_own [OF f] by auto
qed

theorem pool_copy_in_bounds_witness:
  "\<exists>s'. pool_copy (\<lambda>a. ucast a) 7 4 (sample_open\<lparr>pool_offset := 899999999\<rparr>) = Inr s' \<and>
    pool_bytes (mpool s') (mpool_addr s') (mpool_addr s' + pool_offset s') 4 = [7, 8, 9, 10]"
  using pool_copy_in_bounds [of "sample_open\<lparr>pool_offset := 899999999\<rparr>" 4 "\<lambda>a. ucast a" 7]
  by (auto simp: MAX_POOL_SIZE_def user_bytes_def upt_small)

text \<open>
  C25: as long as the pool does not start over, a sequence of nginx's TLS writes in a segment
  queues, on the table of each connection and in order, writes of pairwise disjoint stretches of
  the pool, and at the end of the sequence every queued pointer still leads to the bytes its
  caller passed.
\<close>

theorem tls_writes_keep_data:
  fixes tab :: "'w systab" and w :: 'w
  assumes "in_segment s \<noteq> 0" and "queues_ok tab s" and "fits s call_fd ws"
    and "list_all (\<lambda>c. fd_ok (call_fd c)) ws" and "tab (ESCA_write arc) \<noteq> None"
    and "unat (pool_offset s) + tls_total ws \<le> unat MAX_POOL_SIZE"
    and "ls = tls_layout (mpool_addr s + pool_offset s) ws"
  shows "\<exists>s'. run_calls (\<lambda>(fd, buf, n). ngx_tls_write rw arc umem fd buf n) ws (s, w) =
      Inr (map (\<lambda>(fd, buf, n). sint n) ws, s', w) \<and> queues_ok tab s' \<and> mpool_addr s' = mpool_addr s \<and>
    (\<forall>t. own s t \<longrightarrow> pending_at s' t = pending_at s t @ map (write_request arc) (calls_for s call_fd t ls)) \<and>
    holds_data umem s' ls ws"
  using tls_writes_ok [OF assms, of rw umem w] by blast

theorem tls_writes_keep_data_witness:
  "\<exists>s'. run_calls (\<lambda>(fd, buf, n). ngx_tls_write (\<lambda>a b c w. (-1, w)) X86_64 (\<lambda>a. ucast a) fd buf n)
      [(5, 4096, 3), (6, 8197, 2)] (sample_open, ()) = Inr ([3, 2], s', ()) \<and>
    pending_at s' 1 = [(1, 3, [5, 0, 3])] \<and> pending_at s' 0 = [(1, 3, [6, 3, 2])] \<and>
    pool_bytes (mpool s') 0 3 2 = [5, 6]"
proof -
  let ?ws = "[(5, 4096, 3), (6, 8197, 2)] :: (int \<times> 64 word \<times> 64 word) list"
  let ?ls = "tls_layout (mpool_addr sample_open + pool_offset sample_open) ?ws"
  have z: "mpool_addr sample_open = 0" "pool_offset sample_open = 0"
    by (simp_all add: sample_open_def sample_ready_def sample_saio_def)
  have "\<exists>s'. run_calls (\<lambda>(fd, buf, n). ngx_tls_write (\<lambda>a b c w. (-1, w)) X86_64 (\<lambda>a. ucast a) fd buf n) ?ws (sample_open, ()) =
      Inr (map (\<lambda>(fd, buf, n). sint n) ?ws, s', ()) \<and> queues_ok (any_tab :: unit systab) s' \<and>
    mpool_addr s' = mpool_addr sample_open \<and> (\<forall>t. own sample_open t \<longrightarrow> pending_at s' t = pending_at sample_open t @
      map (write_request X86_64) (calls_for sample_open call_fd t ?ls)) \<and>
    holds_data (\<lambda>a. ucast a) s' ?ls ?ws"
    by (rule tls_writes_keep_data)
      (simp_all add: z sample_fits fd_ok_def int_ok_def any_tab_def tls_total_def unat_max_pool)
  then obtain s' where s': "run_calls (\<lambda>(fd, buf, n). ngx_tls_write (\<lambda>a b c w. (-1, w)) X86_64 (\<lambda>a. ucast a) fd buf n) ?ws (sample_open, ()) =
      Inr (map (\<lambda>(fd, buf, n). sint n) ?ws, s', ())"
    "\<forall>t. own sample_open t \<longrightarrow> pending_at s' t = pending_at sample_open t @
      map (write_request X86_64) (calls_for sample_open call_fd t ?ls)"
    "holds_data (\<lambda>a. ucast a) s' ?ls ?ws" "mpool_addr s' = 0" using z(1) by auto
  have "pool_bytes (mpool s') 0 3 2 = user_bytes (\<lambda>a. ucast a) 8197 2"
    using s'(3,4) by (simp add: holds_data_def z)
  also have "\<dots> = [5, 6]" by (simp add: user_bytes_def upt_small)
  finally have "pool_bytes (mpool s') 0 3 2 = [5, 6]" .
  with s'(1,2) show ?thesis
    by (intro exI [of _ s'])
      (simp add: z calls_for_def table_of_def write_request_def ESCA_write_def del: run_calls.simps)
qed

text \<open>
  C26: memcached's \<open>sendmsg\<close> in a segment, with room in the byte pool, queues a \<open>sendmsg\<close> call of
  a copy of the message and returns its length. The kernel gathers exactly the caller's bytes
  from the copy when the vectors fit behind \<open>iov_offset\<close>; otherwise the wrapper has stored some of
  them at the front of the pool of vectors and the queued message runs off its end.
\<close>

theorem mcached_sendmsg_gathers:
  fixes tab :: "'w systab" and w :: 'w
  assumes seg: "in_segment s \<noteq> 0" and q: "queues_ok tab s" and fd: "fd_ok sockfd"
    and tb: "tab (ESCA_sendmsg arc) \<noteq> None" and room: "has_room s (table_of s sockfd)"
    and b: "int_ok (batch_num s + 1)" and n: "length iov \<le> 1024" "msg_iovlen msg = of_nat (length iov)"
    and len: "\<forall>v \<in> set iov. unat (iov_len v) < 2 ^ 31"
    and fit: "unat (pool_offset s) + iov_pos iov (length iov) \<le> unat MAX_POOL_SIZE"
    and mi: "mi = unat (msg_offset s) mod 1024" and t: "t = table_of s sockfd"
  shows "\<exists>s'. mcached_sendmsg rsm arc umem sockfd msg iov fl (s, w) =
      Inr (int (iov_pos iov (length iov)), s', w) \<and> queues_ok tab s' \<and>
    pending_at s' t = pending_at s t @ [(ESCA_sendmsg arc, 3,
      [of_int sockfd, msgpool_addr s + sizeof_msghdr * of_nat mi, of_int fl])] \<and>
    gather s' (msgpool s' mi) = (if unat (iov_offset s) mod 1024 + length iov \<le> 1024
      then Inr (concat (map (\<lambda>v. user_bytes umem (iov_base v) (iov_len v)) iov)) else Inl OutOfBounds)"
proof -
  define s0 where "s0 = s\<lparr>batch_num := batch_num s + 1, msg_offset := msg_offset s AND MSG_MASK,
    iov_offset := iov_offset s AND IOV_MASK\<rparr>"
  have a: "attached s" using q by (simp add: queues_ok_def)
  have o: "own s t" unfolding t using a by (rule own_table_of)
  obtain p where p: "utable_at s t = Inr p" by (rule own_access [OF a o])
  have io0: "unat (iov_offset s0) = unat (iov_offset s) mod 1024" "unat (msg_offset s0) = mi"
    by (simp_all add: s0_def mask_mod mi)
  then have io: "unat (iov_offset s0) < 1024" by simp
  have fit0: "unat (pool_offset s0) + iov_pos iov (length iov) \<le> unat MAX_POOL_SIZE" using fit by (simp add: s0_def)
  obtain res s1 where loop: "fold_res (sendmsg_copy umem iov) [0..int (length iov) - 1] (0, s0) = Inr (res, s1)"
    and c: "copied umem iov s0 (length iov) (res, s1)"
    using sendmsg_loop_ok [OF len n(1) fit0, of umem] by auto
  have sb: "same_but_pools s0 s1" and res: "res = int (iov_pos iov (length iov))"
    using c by (simp_all add: copied_def)
  define h where "h = \<lparr>msg_name = 0, msg_namelen = 0, msg_iov = iovpool_addr s1 + sizeof_iovec * iov_offset s0,
    msg_iovlen = of_nat (length iov), msg_control = 0, msg_controllen = 0, msg_flags = msg_flags msg\<rparr>"
  define s2 where "s2 = s1\<lparr>msgpool := (msgpool s1)(mi := h), msg_offset := msg_offset s1 + 1\<rparr>"
  let ?as = "[of_int sockfd, msgpool_addr s + sizeof_msghdr * of_nat mi, of_int fl]"
  have cg: "queues_ok tab s2 = queues_ok tab s" "pending_at s2 = pending_at s" "own s2 = own s" "has_room s2 = has_room s"
    by (rule queues_ok_cong; use sb in \<open>simp add: same_but_pools_def s2_def s0_def\<close>)+
  have r: "req_ok tab (ESCA_sendmsg arc, int (length ?as), ?as)" using tb by (simp add: req_ok_def)
  have q2: "queues_ok tab s2" "own s2 t" "has_room s2 t" using cg q o room t by simp_all
  obtain s3 m where s3: "enqueue t (ESCA_sendmsg arc) ?as s2 = Inr s3" "queues_ok tab s3" "s3 = s2\<lparr>mem := m\<rparr>"
      "pending_at s3 t = pending_at s t @ [(ESCA_sendmsg arc, 3, ?as)]"
    using enqueue_ok [OF q2(1,2) r q2(3)] cg o by auto
  have il: "int_of_size (msg_iovlen msg) = int (length iov)"
    using n int_of_size_small [of "msg_iovlen msg"] by (simp add: unat_of_nat)
  have st: "of_int (int_of_size (iov_offset s AND IOV_MASK)) = iov_offset s0"
    using io int_of_size_small [of "iov_offset s0"] by (simp add: s0_def)
  have mo: "msg_offset s1 = msg_offset s0" "msgpool_addr s1 = msgpool_addr s"
    using sb by (simp_all add: same_but_pools_def s0_def)
  have mw: "msg_offset s0 = of_nat mi" unfolding io0(2) [symmetric] by simp
  have "mcached_sendmsg rsm arc umem sockfd msg iov fl (s, w) = Inr (res, s3, w)"
    using seg s3(1) [folded mw] p loop io0
    by (simp add: mcached_sendmsg_def set_idx_ok [OF a fd] t [symmetric] count_batch_ok [OF b] access_batch_num
        Let_def s0_def [symmetric] il st mo s2_def h_def)
  moreover have "gather s3 (msgpool s3 mi) = gather s1 h"
    by (subst gather_cong [of s3 s1]) (simp_all add: s3(3) s2_def)
  ultimately show ?thesis
    using s3(2,4) res gather_copied [OF c fit0 io n(1), of h] io0(1) by (simp add: h_def)
qed

theorem mcached_sendmsg_gathers_witness:
  "\<exists>s'. mcached_sendmsg (\<lambda>a b c w. (-1, w)) X86_64 (\<lambda>a. ucast a) 5
      \<lparr>msg_name = 0, msg_namelen = 0, msg_iov = 0, msg_iovlen = 2, msg_control = 0, msg_controllen = 0, msg_flags = 0\<rparr>
      [\<lparr>iov_base = 4096, iov_len = 3\<rparr>, \<lparr>iov_base = 8197, iov_len = 2\<rparr>] 0 (sample_open, ()) = Inr (5, s', ()) \<and>
    gather s' (msgpool s' 0) = Inr [0, 1, 2, 5, 6]"
proof -
  let ?iov = "[\<lparr>iov_base = 4096, iov_len = 3\<rparr>, \<lparr>iov_base = 8197, iov_len = 2\<rparr>]"
  let ?msg = "\<lparr>msg_name = 0, msg_namelen = 0, msg_iov = 0, msg_iovlen = 2, msg_control = 0, msg_controllen = 0, msg_flags = 0\<rparr>"
  have z: "pool_offset sample_open = 0" "iov_offset sample_open = 0" "msg_offset sample_open = 0"
    by (simp_all add: sample_open_def sample_ready_def sample_saio_def)
  have p: "iov_pos ?iov (length ?iov) = 5" by (simp add: iov_pos_def)
  have "\<exists>s'. mcached_sendmsg (\<lambda>a b c w. (-1, w)) X86_64 (\<lambda>a. ucast a) 5 ?msg ?iov 0 (sample_open, ()) =
      Inr (int (iov_pos ?iov (length ?iov)), s', ()) \<and> queues_ok (any_tab :: unit systab) s' \<and>
    pending_at s' 1 = pending_at sample_open 1 @ [(ESCA_sendmsg X86_64, 3,
      [of_int 5, msgpool_addr sample_open + sizeof_msghdr * of_nat 0, of_int 0])] \<and>
    gather s' (msgpool s' 0) = (if unat (iov_offset sample_open) mod 1024 + length ?iov \<le> 1024
      then Inr (concat (map (\<lambda>v. user_bytes (\<lambda>a. ucast a) (iov_base v) (iov_len v)) ?iov)) else Inl OutOfBounds)"
    by (rule mcached_sendmsg_gathers)
      (simp_all add: fd_ok_def int_ok_def any_tab_def has_room_def table_of_def z iov_pos_def unat_max_pool)
  then show ?thesis unfolding p by (auto simp: z user_bytes_def upt_small)
qed

end
