(* ===== verification/Lighty_Writev.thy ===== *)
theory Lighty_Writev
  imports Pools
begin

unbundle bit_operations_syntax

text \<open>
  The alternative \<open>writev\<close> of \<open>wrapper/lighty.c\<close>, behind the switch that selects \<open>sendfile64\<close>: it
  copies the caller's buffers and vector into the pools, like memcached's \<open>sendmsg\<close>, but takes care
  that a vector does not run over the end of its pool.
\<close>

section \<open>The wrapper\<close>

definition NR_writev :: "arch \<Rightarrow> 32 word" where
  "NR_writev arc = (case arc of X86_64 \<Rightarrow> 20 | AARCH64 \<Rightarrow> 66)"

text \<open>One turn of the loop; the integer is \<open>len\<close>.\<close>

definition writev_copy ::
  "(64 word \<Rightarrow> 8 word) \<Rightarrow> iovec list \<Rightarrow> int \<Rightarrow> int \<times> saio \<Rightarrow> (int \<times> saio) res" where
  "writev_copy umem iov k ls = (case ls of (len, s) \<Rightarrow>
     bind_res (guard_res (nat k < length iov) OutOfBounds) (\<lambda>_.
     let ll = int_of_size (iov_len (iov ! nat k)) in
     bind_res (pool_copy umem (iov_base (iov ! nat k)) (of_int ll) s) (\<lambda>s.
     bind_res (guard_res (unat (iov_offset s) < MAX_POOL_IOV_SIZE) OutOfBounds) (\<lambda>_.
     let s = s\<lparr>iovpool := (iovpool s)(unat (iov_offset s) :=
               \<lparr>iov_base = mpool_addr s + pool_offset s, iov_len = of_int ll\<rparr>)\<rparr>;
         s = s\<lparr>iov_offset := iov_offset s + 1\<rparr>;
         s = s\<lparr>pool_offset := pool_offset s + of_int ll\<rparr> in
     bind_res (guard_res (int_ok (len + ll)) IntOverflow) (\<lambda>_. Inr (len + ll, s))))))"

definition reset_iov :: "int \<Rightarrow> saio \<Rightarrow> saio" where
  "reset_iov iovcnt s =
     (if iov_offset s + of_int iovcnt \<ge> of_nat MAX_POOL_IOV_SIZE then s\<lparr>iov_offset := 0\<rparr> else s)"

definition lighty_writev ::
  "(int \<Rightarrow> iovec list \<Rightarrow> int \<Rightarrow> 'w \<Rightarrow> int \<times> 'w) \<Rightarrow> arch \<Rightarrow> (64 word \<Rightarrow> 8 word) \<Rightarrow> int \<Rightarrow> iovec list \<Rightarrow> int
    \<Rightarrow> saio \<times> 'w \<Rightarrow> (int \<times> saio \<times> 'w) res" where
  "lighty_writev real_writev arc umem fd iov iovcnt sw = (case sw of (s, w) \<Rightarrow>
     if in_segment s = 0 then (let (r, w) = real_writev fd iov iovcnt w in Inr (r, s, w))
     else
       bind_res (set_idx fd s) (\<lambda>idx.
       bind_res (count_batch s) (\<lambda>s.
       bind_res (utable_at s idx) (\<lambda>p.
       let s = reset_iov iovcnt s; start_iov_index = iov_offset s in
       bind_res (fold_res (writev_copy umem iov) [0..iovcnt - 1] (0, s)) (\<lambda>(len, s).
       bind_res (enqueue idx (NR_writev arc)
         [of_int fd, iovpool_addr s + sizeof_iovec * start_iov_index, of_int iovcnt] s) (\<lambda>s.
       Inr (len, s, w)))))))"

section \<open>The loop is the one of sendmsg\<close>

lemma writev_copy_eq:
  assumes "unat (iov_offset s) < 1024"
  shows "writev_copy umem iov k (r, s) = sendmsg_copy umem iov k (r, s)"
proof -
  have "iov_offset s AND IOV_MASK = iov_offset s"
    using assms mask_mod(1) [of "iov_offset s"] by (intro unsigned_word_eqI [where 'a = nat]) simp
  moreover have "iov_offset s1 = iov_offset s" if "pool_copy umem src n s = Inr s1" for s1 src n
    using that by (auto simp: pool_copy_def bind_res_Inr_iff Let_def split: if_splits)
  ultimately show ?thesis
    using assms unfolding writev_copy_def sendmsg_copy_def
    by (cases "nat k < length iov"; cases "pool_copy umem (iov_base (iov ! nat k)) (of_int (int_of_size (iov_len (iov ! nat k)))) s")
      (simp_all add: Let_def MAX_POOL_IOV_SIZE_def)
qed

lemma sendmsg_copy_next:
  assumes "sendmsg_copy umem iov k (r, s) = Inr (r', s')" and "unat (iov_offset s) < 1024"
  shows "unat (iov_offset s') = Suc (unat (iov_offset s))"
proof -
  have m: "unat (iov_offset s AND IOV_MASK) = unat (iov_offset s)" using assms(2) mask_mod(1) by simp
  have "iov_offset s' = (iov_offset s AND IOV_MASK) + 1"
    using assms(1) by (auto simp: sendmsg_copy_def pool_copy_def bind_res_Inr_iff Let_def split: if_splits)
  then show ?thesis using assms(2) m by (simp add: unat_word_ariths)
qed

lemma writev_loop_eq:
  assumes "unat (iov_offset s) + length ks \<le> 1024"
  shows "fold_res (writev_copy umem iov) ks (r, s) = fold_res (sendmsg_copy umem iov) ks (r, s)"
  using assms
proof (induction ks arbitrary: r s)
  case (Cons k ks)
  then have o: "unat (iov_offset s) < 1024" by simp
  show ?case
  proof (cases "sendmsg_copy umem iov k (r, s)")
    case (Inr rs)
    obtain r' s' where rs: "rs = (r', s')" by (cases rs)
    have "fold_res (writev_copy umem iov) ks (r', s') = fold_res (sendmsg_copy umem iov) ks (r', s')"
      using Cons sendmsg_copy_next [OF Inr [unfolded rs] o] by simp
    then show ?thesis by (simp add: writev_copy_eq [OF o] Inr rs)
  qed (simp add: writev_copy_eq [OF o])
qed simp

lemma reset_iov_fits:
  assumes "unat (iov_offset s) \<le> 1024" and "n \<le> 1024"
  shows "unat (iov_offset (reset_iov (int n) s)) + n \<le> 1024" and "unat (iov_offset (reset_iov (int n) s)) < 1024"
proof -
  have "unat (iov_offset s + of_nat n) = unat (iov_offset s) + n"
    using assms by (simp add: unat_word_ariths unat_of_nat)
  then show "unat (iov_offset (reset_iov (int n) s)) + n \<le> 1024" "unat (iov_offset (reset_iov (int n) s)) < 1024"
    using assms(2) by (simp_all add: reset_iov_def MAX_POOL_IOV_SIZE_def word_le_nat_alt)
qed

section \<open>What the kernel gathers\<close>

definition vec_msg :: "64 word \<Rightarrow> nat \<Rightarrow> msghdr" where
  "vec_msg addr n = \<lparr>msg_name = 0, msg_namelen = 0, msg_iov = addr, msg_iovlen = of_nat n, msg_control = 0,
     msg_controllen = 0, msg_flags = 0\<rparr>"

text \<open>
  In a segment, with room in the byte pool, lighttpd's \<open>writev\<close> queues a call from whose vector the
  kernel gathers exactly the caller's bytes, wherever the pool of vectors stands; it leaves the
  pool where the next call can use it.
\<close>

theorem lighty_writev_gathers:
  fixes tab :: "'w systab" and w :: 'w
  assumes seg: "in_segment s \<noteq> 0" and q: "queues_ok tab s" and fd: "fd_ok fd"
    and tb: "tab (NR_writev arc) \<noteq> None" and room: "has_room s (table_of s fd)"
    and b: "int_ok (batch_num s + 1)" and n: "length iov \<le> 1024"
    and len: "\<forall>v \<in> set iov. unat (iov_len v) < 2 ^ 31"
    and fit: "unat (pool_offset s) + iov_pos iov (length iov) \<le> unat MAX_POOL_SIZE"
    and io: "unat (iov_offset s) \<le> 1024" and t: "t = table_of s fd"
  shows "\<exists>s' addr. lighty_writev rw arc umem fd iov (int (length iov)) (s, w) =
      Inr (int (iov_pos iov (length iov)), s', w) \<and> queues_ok tab s' \<and>
    pending_at s' t = pending_at s t @ [(NR_writev arc, 3, [of_int fd, addr, of_nat (length iov)])] \<and>
    gather s' (vec_msg addr (length iov)) = Inr (concat (map (\<lambda>v. user_bytes umem (iov_base v) (iov_len v)) iov))"
proof -
  define s0 where "s0 = reset_iov (int (length iov)) (s\<lparr>batch_num := batch_num s + 1\<rparr>)"
  have a: "attached s" using q by (simp add: queues_ok_def)
  have o: "own s t" unfolding t using a by (rule own_table_of)
  obtain p where p: "utable_at s t = Inr p" by (rule own_access [OF a o])
  have io0: "unat (iov_offset s0) + length iov \<le> 1024" "unat (iov_offset s0) < 1024"
    unfolding s0_def using io n by (simp_all add: reset_iov_fits)
  have fit0: "unat (pool_offset s0) + iov_pos iov (length iov) \<le> unat MAX_POOL_SIZE"
    using fit by (simp add: s0_def reset_iov_def)
  obtain res s1 where l1: "fold_res (sendmsg_copy umem iov) [0..int (length iov) - 1] (0, s0) = Inr (res, s1)"
    and c: "copied umem iov s0 (length iov) (res, s1)"
    using sendmsg_loop_ok [OF len n fit0, of umem] by auto
  have loop: "fold_res (writev_copy umem iov) [0..int (length iov) - 1] (0, s0) = Inr (res, s1)"
    using writev_loop_eq [of s0 "[0..int (length iov) - 1]"] io0 l1 by simp
  have sb: "same_but_pools s0 s1" and res: "res = int (iov_pos iov (length iov))"
    using c by (simp_all add: copied_def)
  let ?addr = "iovpool_addr s1 + sizeof_iovec * iov_offset s0"
  let ?as = "[of_int fd, ?addr, of_int (int (length iov))]"
  have cg: "queues_ok tab s1 = queues_ok tab s" "pending_at s1 = pending_at s" "own s1 = own s" "has_room s1 = has_room s"
    by (rule queues_ok_cong; use sb in \<open>simp add: same_but_pools_def s0_def reset_iov_def\<close>)+
  have r: "req_ok tab (NR_writev arc, int (length ?as), ?as)" using tb by (simp add: req_ok_def)
  have q2: "queues_ok tab s1" "own s1 t" "has_room s1 t" using cg q o room t by simp_all
  obtain s2 m where s2: "enqueue t (NR_writev arc) ?as s1 = Inr s2" "queues_ok tab s2" "s2 = s1\<lparr>mem := m\<rparr>"
      "pending_at s2 t = pending_at s t @ [(NR_writev arc, 3, ?as)]"
    using enqueue_ok [OF q2(1,2) r q2(3)] cg o by auto
  have run: "lighty_writev rw arc umem fd iov (int (length iov)) (s, w) = Inr (res, s2, w)"
    using seg s2(1) p loop
    by (simp add: lighty_writev_def set_idx_ok [OF a fd] t [symmetric] count_batch_ok [OF b] access_batch_num
        Let_def s0_def [symmetric])
  have "gather s2 = gather s1" by (rule gather_cong) (simp_all add: s2(3))
  then have g: "gather s2 (vec_msg ?addr (length iov)) = Inr (concat (map (\<lambda>v. user_bytes umem (iov_base v) (iov_len v)) iov))"
    using gather_copied [OF c fit0 io0(2) n, of "vec_msg ?addr (length iov)"] io0(1) by (simp add: vec_msg_def)
  show ?thesis using run res s2(2,4) g by (intro exI [of _ s2] exI [of _ ?addr]) simp
qed

end
