(* ===== verification/Ring_Protocol.thy ===== *)
theory Ring_Protocol
  imports Kernel_Worker
begin

text \<open>
  One process and one kernel worker sharing a table, at the grain of single loads and stores of
  the shared variables, in any interleaving (sequentially consistent memory). The process runs
  the body of a wrapper and \<open>update_index\<close> (\<open>wrapper/preload.c\<close>), the worker the loop of
  \<open>worker\<close> (\<open>module/lioo.c\<close>); sleeping and waking is the subject of a theory of its own.
\<close>

section \<open>States\<close>

text \<open>
  Where the process is: about to make a call; the entry at \<open>(i, j)\<close> filled; the test of
  \<open>update_index\<close> passed; \<open>tail_entry\<close> reset and \<open>tail_table\<close> still to move; the tail moved and
  \<open>rstatus\<close> still to set.
\<close>

datatype ppc =
    PIdle
  | PFilled int int request
  | PChecked int int request
  | PTorn int int
  | PAdvanced int int

text \<open>
  Where the worker is: polling the entry at the head; having seen it busy; having loaded
  \<open>tail_table\<close>; performing entries, with the number left; having stored \<open>head_table\<close>.
\<close>

datatype wpc =
    WPoll
  | WCount int int
  | WCountE int int int
  | WRun int int "16 word"
  | WPub int int

text \<open>
  Next to the shared table and the two control points the state records, for the statements
  below, the calls submitted (tail moved past them) and performed so far, how many performed
  calls the published head covers, and whether one of two things has happened: the tail was moved
  onto or past the published head (\<open>overrun\<close>), or the worker read a tail that was none (\<open>torn\<close>).
\<close>

record rstate =
  rch :: chan
  rppc :: ppc
  rwpc :: wpc
  subm :: "request list"
  perf :: "request list"
  pub :: nat
  overrun :: bool
  torn :: bool

section \<open>Steps\<close>

datatype act = Fill request | Test | Store | Store2 | Busy | Poll | ReadT | ReadE | Exec | Pub1 | Pub2

definition set_hdr :: "(esca_table \<Rightarrow> esca_table) \<Rightarrow> rstate \<Rightarrow> rstate" where
  "set_hdr f s = s\<lparr>rch := (rch s)\<lparr>hdr := f (hdr (rch s))\<rparr>\<rparr>"

definition store_tail :: "globals \<Rightarrow> int \<Rightarrow> int \<Rightarrow> request \<Rightarrow> rstate \<Rightarrow> rstate" where
  "store_tail g i j r s =
     (let s = s\<lparr>overrun := (overrun s \<or> length (subm s) + 1 \<ge> pub s + slots g), subm := subm s @ [r]\<rparr> in
     if tail_entry (hdr (rch s)) = MAX_TABLE_ENTRY g - 1
     then (set_hdr (\<lambda>h. h\<lparr>tail_entry := 0\<rparr>) s)\<lparr>rppc := PTorn i j\<rparr>
     else (set_hdr (\<lambda>h. h\<lparr>tail_entry := short_of (tail_entry h + 1)\<rparr>) s)\<lparr>rppc := PAdvanced i j\<rparr>)"

text \<open>
  One step; \<open>Blocked\<close> when the thread is not at that point, or when the loop of \<open>update_index\<close> or
  the polling loop goes round once more.
\<close>

fun rstep :: "globals \<Rightarrow> act \<Rightarrow> rstate \<Rightarrow> rstate res" where
  "rstep g (Fill r) s = (case rppc s of
     PIdle \<Rightarrow>
       let h = hdr (rch s) in
       bind_res (user_cell (rch s) (tail_table h) (tail_entry h)) (\<lambda>c.
       Inr (s\<lparr>rch := write_cell c (fill_entry r (read_cell (rch s) c)) (rch s),
              rppc := PFilled (tail_table h) (tail_entry h) r\<rparr>))
   | _ \<Rightarrow> Inl Blocked)"
| "rstep g Test s = (case rppc s of
     PFilled i j r \<Rightarrow> if wait_full (hdr (rch s)) then Inl Blocked else Inr (s\<lparr>rppc := PChecked i j r\<rparr>)
   | _ \<Rightarrow> Inl Blocked)"
| "rstep g Store s = (case rppc s of
     PChecked i j r \<Rightarrow> Inr (store_tail g i j r s)
   | _ \<Rightarrow> Inl Blocked)"
| "rstep g Store2 s = (case rppc s of
     PTorn i j \<Rightarrow> Inr ((set_hdr (\<lambda>h. h\<lparr>tail_table := short_of (next_table g (tail_table h))\<rparr>) s)\<lparr>rppc := PAdvanced i j\<rparr>)
   | _ \<Rightarrow> Inl Blocked)"
| "rstep g Busy s = (case rppc s of
     PAdvanced i j \<Rightarrow>
       bind_res (user_cell (rch s) i j) (\<lambda>c.
       Inr (s\<lparr>rch := write_cell c ((read_cell (rch s) c)\<lparr>rstatus := BENTRY_BUSY\<rparr>) (rch s), rppc := PIdle\<rparr>))
   | _ \<Rightarrow> Inl Blocked)"
| "rstep g Poll s = (case rwpc s of
     WPoll \<Rightarrow>
       let h = hdr (rch s) in
       bind_res (kernel_cell (rch s) (head_table h) (head_entry h)) (\<lambda>c.
       if rstatus (read_cell (rch s) c) = BENTRY_EMPTY then Inl Blocked
       else Inr (s\<lparr>rwpc := WCount (head_table h) (head_entry h)\<rparr>))
   | _ \<Rightarrow> Inl Blocked)"
| "rstep g ReadT s = (case rwpc s of
     WCount i j \<Rightarrow> Inr (s\<lparr>rwpc := WCountE i j (tail_table (hdr (rch s)))\<rparr>)
   | _ \<Rightarrow> Inl Blocked)"
| "rstep g ReadE s = (case rwpc s of
     WCountE i j tt \<Rightarrow>
       let h = (hdr (rch s))\<lparr>tail_table := tt\<rparr> in
       Inr (s\<lparr>rwpc := WRun i j (submitted_count g h i j),
              torn := (torn s \<or> tail_pos g h \<noteq> length (subm s) mod slots g)\<rparr>)
   | _ \<Rightarrow> Inl Blocked)"
| "rstep g Exec s = (case rwpc s of
     WRun i j n \<Rightarrow>
       if n = 0 then Inl Blocked
       else bind_res (kernel_cell (rch s) i j) (\<lambda>c.
         let e = read_cell (rch s) c; (i', j') = worker_next g (i, j) in
         Inr (s\<lparr>rch := write_cell c (e\<lparr>rstatus := BENTRY_EMPTY\<rparr>) (rch s), rwpc := WRun i' j' (n - 1),
                perf := perf s @ [req_of e]\<rparr>))
   | _ \<Rightarrow> Inl Blocked)"
| "rstep g Pub1 s = (case rwpc s of
     WRun i j n \<Rightarrow>
       if n \<noteq> 0 then Inl Blocked
       else Inr ((set_hdr (\<lambda>h. h\<lparr>head_table := short_of i\<rparr>) s)\<lparr>rwpc := WPub i j\<rparr>)
   | _ \<Rightarrow> Inl Blocked)"
| "rstep g Pub2 s = (case rwpc s of
     WPub i j \<Rightarrow> Inr ((set_hdr (\<lambda>h. h\<lparr>head_entry := short_of j\<rparr>) s)\<lparr>rwpc := WPoll, pub := length (perf s)\<rparr>)
   | _ \<Rightarrow> Inl Blocked)"

text \<open>A call that fits an entry, and a run of steps.\<close>

definition call_ok :: "request \<Rightarrow> bool" where
  "call_ok r \<longleftrightarrow> (case r of (num, n, as) \<Rightarrow> int (length as) = n \<and> n \<le> 6)"

definition act_ok :: "act \<Rightarrow> bool" where
  "act_ok a \<longleftrightarrow> (case a of Fill r \<Rightarrow> call_ok r | _ \<Rightarrow> True)"

definition run :: "globals \<Rightarrow> act list \<Rightarrow> rstate \<Rightarrow> rstate res" where
  "run g as s = fold_res (rstep g) as s"

definition rinit :: "chan \<Rightarrow> rstate" where
  "rinit ch = \<lparr>rch = ch, rppc = PIdle, rwpc = WPoll, subm = [], perf = [], pub = 0, overrun = False, torn = False\<rparr>"

inductive reachable :: "globals \<Rightarrow> rstate \<Rightarrow> bool" for g where
  start: "ready_chan g ch \<Longrightarrow> reachable g (rinit ch)"
| step: "reachable g s \<Longrightarrow> act_ok a \<Longrightarrow> rstep g a s = Inr s' \<Longrightarrow> reachable g s'"

inductive_simps reachable_rinit: "reachable g (rinit ch)"

section \<open>The cell of the \<open>k\<close>-th call\<close>

definition cell_of :: "globals \<Rightarrow> nat \<Rightarrow> cell" where
  "cell_of g k = slot_cell g (k mod slots g)"

lemma cell_ok:
  assumes "ring_ok g"
  shows "idx_ok g (fst (cell_of g k)) (snd (cell_of g k))"
    and "spos g (fst (cell_of g k)) (snd (cell_of g k)) = k mod slots g"
  using slot_cell_ok [OF assms, of "k mod slots g"] spos_slot_cell [OF assms] ring_okD(6) [OF assms]
  by (simp_all add: cell_of_def)

lemma cell_neq:
  assumes "ring_ok g" and "k < l" and "l < k + slots g"
  shows "cell_of g k \<noteq> cell_of g l"
  using assms mod_neq_of_close [of k l "slots g"] slot_cell_inj [OF assms(1)] by (simp add: cell_of_def)

lemma cell_next:
  assumes "ring_ok g"
  shows "worker_next g (cell_of g k) = cell_of g (Suc k)"
proof -
  let ?n = "worker_next g (cell_of g k)"
  note c = cell_ok [OF assms, of k]
  have i: "idx_ok g (fst ?n) (snd ?n)"
    using worker_next_ok [OF assms c(1)] by (simp add: case_prod_unfold)
  have "spos g (fst ?n) (snd ?n) = Suc k mod slots g"
    using spos_next [OF assms c(1), of "fst ?n" "snd ?n"] c(2) by (simp add: mod_Suc_eq)
  then show ?thesis
    using slot_cell_spos [OF assms i] by (simp add: cell_of_def)
qed

lemma cell_next_split:
  assumes "ring_ok g"
  shows "cell_of g (Suc k) = (if snd (cell_of g k) = MAX_TABLE_ENTRY g - 1
    then (next_table g (fst (cell_of g k)), 0) else (fst (cell_of g k), snd (cell_of g k) + 1))"
  using cell_next [OF assms, of k, symmetric]
  by (cases "cell_of g k") (simp add: worker_next_def next_table_def)

lemma cell_short:
  assumes "ring_ok g"
  shows "short_of (fst (cell_of g k)) = fst (cell_of g k)" "short_of (snd (cell_of g k)) = snd (cell_of g k)"
  using cell_ok(1) [OF assms, of k] ring_okD(4,5) [OF assms] by (auto simp: idx_ok_def intro!: short_of_id)

section \<open>The invariant\<close>

abbreviation tail_is :: "globals \<Rightarrow> rstate \<Rightarrow> nat \<Rightarrow> bool" where
  "tail_is g s k \<equiv> (tail_table (hdr (rch s)), tail_entry (hdr (rch s))) = cell_of g k"

abbreviation head_is :: "globals \<Rightarrow> rstate \<Rightarrow> nat \<Rightarrow> bool" where
  "head_is g s k \<equiv> (head_table (hdr (rch s)), head_entry (hdr (rch s))) = cell_of g k"

text \<open>The process's side: where the tail is and what the entry being filled holds.\<close>

definition pinv :: "globals \<Rightarrow> rstate \<Rightarrow> bool" where
  "pinv g s = (let a = length (subm s); new = req_of (read_cell (rch s) (cell_of g a)) in
     case rppc s of
       PIdle \<Rightarrow> tail_is g s a
     | PFilled i j r \<Rightarrow> tail_is g s a \<and> (i, j) = cell_of g a \<and> new = r
     | PChecked i j r \<Rightarrow> tail_is g s a \<and> (i, j) = cell_of g a \<and> new = r
     | PTorn i j \<Rightarrow> 0 < a \<and> (i, j) = cell_of g (a - 1) \<and> j = MAX_TABLE_ENTRY g - 1 \<and>
         tail_table (hdr (rch s)) = i \<and> tail_entry (hdr (rch s)) = 0
     | PAdvanced i j \<Rightarrow> 0 < a \<and> (i, j) = cell_of g (a - 1) \<and> tail_is g s a)"

text \<open>The worker's side: where the head is and how far the current pass has come.\<close>

definition winv :: "globals \<Rightarrow> rstate \<Rightarrow> bool" where
  "winv g s = (let c = length (perf s) in
     case rwpc s of
       WPoll \<Rightarrow> head_is g s c \<and> pub s = c
     | WCount i j \<Rightarrow> (i, j) = cell_of g c \<and> head_is g s c \<and> pub s = c
     | WCountE i j tt \<Rightarrow> (i, j) = cell_of g c \<and> head_is g s c \<and> pub s = c \<and> 0 \<le> tt \<and> tt < MAX_TABLE_LEN g
     | WRun i j n \<Rightarrow> (i, j) = cell_of g c \<and> c + unat n \<le> length (subm s) \<and> head_is g s (pub s)
     | WPub i j \<Rightarrow> (i, j) = cell_of g c \<and> head_table (hdr (rch s)) = i \<and>
         head_entry (hdr (rch s)) = snd (cell_of g (pub s)))"

definition marked :: "rstate \<Rightarrow> bool" where
  "marked s = (case rppc s of PTorn i j \<Rightarrow> False | PAdvanced i j \<Rightarrow> False | _ \<Rightarrow> True)"

text \<open>The entries of the calls submitted and not yet performed.\<close>

definition qinv :: "globals \<Rightarrow> rstate \<Rightarrow> bool" where
  "qinv g s = (let a = length (subm s); c = length (perf s) in
     chan_ok g (rch s) \<and> entries_ok (rch s) \<and> perf s = take c (subm s) \<and> c \<le> a \<and> pub s \<le> c \<and>
     a < pub s + slots g \<and>
     (\<forall>k. c \<le> k \<and> k < a \<longrightarrow> req_of (read_cell (rch s) (cell_of g k)) = subm s ! k \<and>
        ((Suc k = a \<longrightarrow> marked s) \<longrightarrow> rstatus (read_cell (rch s) (cell_of g k)) = BENTRY_BUSY)))"

definition rinv :: "globals \<Rightarrow> rstate \<Rightarrow> bool" where
  "rinv g s \<longleftrightarrow> qinv g s \<and> pinv g s \<and> winv g s"

lemma qinvD:
  assumes "qinv g s"
  shows "chan_ok g (rch s)" "entries_ok (rch s)" "ring_ok g" "perf s = take (length (perf s)) (subm s)"
    "length (perf s) \<le> length (subm s)" "pub s \<le> length (perf s)" "length (subm s) < pub s + slots g"
    "length (subm s) < length (perf s) + slots g"
    "length (perf s) \<le> k \<Longrightarrow> k < length (subm s) \<Longrightarrow> req_of (read_cell (rch s) (cell_of g k)) = subm s ! k"
    "length (perf s) \<le> k \<Longrightarrow> k < length (subm s) \<Longrightarrow> (Suc k = length (subm s) \<Longrightarrow> marked s) \<Longrightarrow>
      rstatus (read_cell (rch s) (cell_of g k)) = BENTRY_BUSY"
  using assms chan_ok_ring by (auto simp: qinv_def Let_def)

lemma chan_ok_hdr:
  assumes "tables h = tables (hdr ch)" and "user_tables h = user_tables (hdr ch)"
  shows "chan_ok g (ch\<lparr>hdr := h\<rparr>) = chan_ok g ch"
  using assms by (simp add: chan_ok_def mapped_def)

lemma chan_ok_write [simp]: "chan_ok g (write_cell c e ch) = chan_ok g ch"
  by (rule chan_ok_cong) simp_all

lemma entries_ok_write:
  "entries_ok ch \<Longrightarrow> length (args e) = 6 \<Longrightarrow> entries_ok (write_cell c e ch)"
  by (simp add: entries_ok_def read_write_cell)

lemma entries_okD: "entries_ok ch \<Longrightarrow> length (args (read_cell ch c)) = 6"
  by (simp add: entries_ok_def del: split_paired_All)

lemma entries_ok_hdr [simp]: "entries_ok (ch\<lparr>hdr := h\<rparr>) = entries_ok ch"
  by (simp add: entries_ok_def)

lemma cells_at:
  assumes "chan_ok g ch" and "(i, j) = cell_of g k"
  shows "user_cell ch i j = Inr (cell_of g k)" "kernel_cell ch i j = Inr (cell_of g k)"
  using chan_cells [OF assms(1) cell_ok(1) [OF chan_ok_ring [OF assms(1)], of k]] assms(2) [symmetric]
  by simp_all

lemma fill_req:
  assumes "call_ok r" and "length (args e) = 6"
  shows "req_of (fill_entry r e) = r" and "length (args (fill_entry r e)) = 6"
  using assms by (cases r; auto simp: call_ok_def fill_entry_def req_of_def)+

lemma set_hdr_simps [simp]:
  "rppc (set_hdr f s) = rppc s" "rwpc (set_hdr f s) = rwpc s" "subm (set_hdr f s) = subm s"
  "perf (set_hdr f s) = perf s" "pub (set_hdr f s) = pub s" "hdr (rch (set_hdr f s)) = f (hdr (rch s))"
  "read_cell (rch (set_hdr f s)) c = read_cell (rch s) c" "overrun (set_hdr f s) = overrun s"
  "torn (set_hdr f s) = torn s" "rch (set_hdr f s) = (rch s)\<lparr>hdr := f (hdr (rch s))\<rparr>"
  by (simp_all add: set_hdr_def)

text \<open>What the three parts depend on.\<close>

lemma winv_cong:
  assumes "rwpc s' = rwpc s" "perf s' = perf s" "pub s' = pub s" "length (subm s) \<le> length (subm s')"
    "head_table (hdr (rch s')) = head_table (hdr (rch s))" "head_entry (hdr (rch s')) = head_entry (hdr (rch s))"
  shows "winv g s \<Longrightarrow> winv g s'"
  using assms by (auto simp: winv_def Let_def split: wpc.splits)

lemma pinv_cong:
  assumes "rppc s' = rppc s" "subm s' = subm s"
    "tail_table (hdr (rch s')) = tail_table (hdr (rch s))" "tail_entry (hdr (rch s')) = tail_entry (hdr (rch s))"
    "\<And>c. req_of (read_cell (rch s') c) = req_of (read_cell (rch s) c)"
  shows "pinv g s' = pinv g s"
  using assms by (simp add: pinv_def Let_def cong: ppc.case_cong)

lemma qinv_cong:
  assumes "rch s' = rch s" "subm s' = subm s" "perf s' = perf s" "pub s' = pub s" "marked s' = marked s"
  shows "qinv g s' = qinv g s"
  using assms by (simp add: qinv_def Let_def)

section \<open>Every step keeps it\<close>

lemma rinv_fill:
  assumes inv: "rinv g s" and ok: "call_ok r" and st: "rstep g (Fill r) s = Inr s'"
  shows "rinv g s'"
proof -
  let ?a = "length (subm s)" and ?c = "cell_of g (length (subm s))"
  have q: "qinv g s" and p: "pinv g s" and w: "winv g s" using inv by (simp_all add: rinv_def)
  have pc: "rppc s = PIdle" using st by (simp split: ppc.splits)
  have t: "tail_is g s ?a" using p by (simp add: pinv_def pc Let_def)
  define e where "e = fill_entry r (read_cell (rch s) ?c)"
  have s': "s' = s\<lparr>rch := write_cell ?c e (rch s),
      rppc := PFilled (tail_table (hdr (rch s))) (tail_entry (hdr (rch s))) r\<rparr>"
    using st cells_at(1) [OF qinvD(1) [OF q] t] by (simp add: pc Let_def e_def)
  have "length (args (read_cell (rch s) ?c)) = 6" using qinvD(2) [OF q] by (rule entries_okD)
  note e = fill_req [OF ok this, folded e_def]
  have other: "cell_of g k \<noteq> ?c" if "length (perf s) \<le> k" "k < ?a" for k
    using that qinvD(8) [OF q] by (intro cell_neq [OF qinvD(3) [OF q]]) auto
  have fr: "pub s' = pub s" by (simp_all add: s')
  have m: "marked s'" "marked s" by (simp_all add: s' marked_def pc)
  have rd: "read_cell (rch s') c = (if c = ?c then e else read_cell (rch s) c)" for c
    by (auto simp: s' read_write_cell)
  have "chan_ok g (rch s')" "entries_ok (rch s')" "subm s' = subm s" "perf s' = perf s" "pub s' = pub s"
    using qinvD(1,2) [OF q] e(2) by (simp_all add: s' entries_ok_write)
  then have "qinv g s'" using q other by (auto simp: qinv_def Let_def fr m rd)
  moreover have "pinv g s'" using t e(1) by (simp add: pinv_def Let_def s' read_write_cell)
  moreover have "winv g s'" using w by (simp add: winv_def Let_def s' split: wpc.splits)
  ultimately show ?thesis by (simp add: rinv_def)
qed

lemma rinv_test:
  assumes "rinv g s" and "rstep g Test s = Inr s'"
  shows "rinv g s'"
proof -
  obtain i j r where pc: "rppc s = PFilled i j r" and s': "s' = s\<lparr>rppc := PChecked i j r\<rparr>"
    using assms(2) by (auto split: ppc.splits if_splits)
  have "qinv g s' = qinv g s" by (rule qinv_cong) (simp_all add: s' pc marked_def)
  moreover have "winv g s \<Longrightarrow> winv g s'" by (rule winv_cong) (simp_all add: s')
  moreover have "pinv g s' = pinv g s" by (simp add: pinv_def s' pc Let_def)
  ultimately show ?thesis using assms(1) by (simp add: rinv_def)
qed

lemma rinv_store:
  assumes inv: "rinv g s" and st: "rstep g Store s = Inr s'" and no: "\<not> overrun s'"
  shows "rinv g s'"
proof -
  let ?a = "length (subm s)" and ?h = "hdr (rch s)"
  have q: "qinv g s" and p: "pinv g s" and w: "winv g s" using inv by (simp_all add: rinv_def)
  note rg = qinvD(3) [OF q]
  obtain i j r where pc: "rppc s = PChecked i j r" and s': "s' = store_tail g i j r s"
    using st by (auto split: ppc.splits)
  have P: "tail_is g s ?a" "(i, j) = cell_of g ?a" "req_of (read_cell (rch s) (cell_of g ?a)) = r"
    using p by (simp_all add: pinv_def pc Let_def)
  have t: "tail_entry ?h = snd (cell_of g ?a)" "tail_table ?h = fst (cell_of g ?a)" "j = snd (cell_of g ?a)" "i = fst (cell_of g ?a)"
    using P by (metis fst_conv snd_conv)+
  have f: "subm s' = subm s @ [r]" "perf s' = perf s" "pub s' = pub s" "rwpc s' = rwpc s"
    "head_table (hdr (rch s')) = head_table ?h" "head_entry (hdr (rch s')) = head_entry ?h"
    "\<And>c. read_cell (rch s') c = read_cell (rch s) c" "\<not> marked s'"
    by (simp_all add: s' store_tail_def Let_def marked_def)
  have fr: "pub s' = pub s" by (simp_all add: f)
  have ms: "marked s" by (simp add: marked_def pc)
  have room: "?a + 1 < pub s + slots g" using no by (simp add: s' store_tail_def Let_def split: if_splits)
  have ok: "chan_ok g (rch s')" "entries_ok (rch s')"
    using qinvD(1,2) [OF q] by (simp_all add: s' store_tail_def Let_def chan_ok_hdr)
  have "qinv g s'"
    unfolding qinv_def Let_def
    using q ok room P(3) ms by (auto simp: f fr qinv_def Let_def less_Suc_eq nth_append)
  moreover have "winv g s'" by (rule winv_cong [OF _ _ _ _ _ _ w]) (simp_all add: f)
  moreover have "pinv g s'"
  proof (cases "j = MAX_TABLE_ENTRY g - 1")
    case True
    then have "rppc s' = PTorn i j" "tail_table (hdr (rch s')) = i" "tail_entry (hdr (rch s')) = 0"
      by (simp_all add: s' store_tail_def Let_def t)
    then show ?thesis using True P(2) by (simp add: pinv_def f Let_def)
  next
    case False
    have n: "cell_of g (Suc ?a) = (i, j + 1)" using cell_next_split [OF rg, of ?a] False t by simp
    moreover from this have "short_of (j + 1) = j + 1" using cell_short(2) [OF rg, of "Suc ?a"] by simp
    ultimately have "rppc s' = PAdvanced i j" "tail_table (hdr (rch s')) = i" "tail_entry (hdr (rch s')) = j + 1"
      using False by (simp_all add: s' store_tail_def Let_def t)
    then show ?thesis using n P(2) by (simp add: pinv_def f Let_def)
  qed
  ultimately show ?thesis by (simp add: rinv_def)
qed

lemma rinv_store2:
  assumes inv: "rinv g s" and st: "rstep g Store2 s = Inr s'"
  shows "rinv g s'"
proof -
  let ?a = "length (subm s)"
  have q: "qinv g s" and p: "pinv g s" and w: "winv g s" using inv by (simp_all add: rinv_def)
  note rg = qinvD(3) [OF q]
  obtain i j where pc: "rppc s = PTorn i j"
    and s': "s' = (set_hdr (\<lambda>h. h\<lparr>tail_table := short_of (next_table g (tail_table h))\<rparr>) s)\<lparr>rppc := PAdvanced i j\<rparr>"
    using st by (auto split: ppc.splits)
  have P: "0 < ?a" "(i, j) = cell_of g (?a - 1)" "j = MAX_TABLE_ENTRY g - 1" "tail_table (hdr (rch s)) = i"
    "tail_entry (hdr (rch s)) = 0"
    using p unfolding pinv_def pc Let_def by auto
  have n: "cell_of g ?a = (next_table g i, 0)"
    using cell_next_split [OF rg, of "?a - 1"] P(1,2,3) by (metis Suc_diff_1 fst_conv snd_conv)
  then have sh: "short_of (next_table g i) = next_table g i" using cell_short(1) [OF rg, of ?a] by simp
  have "chan_ok g (rch s')" using qinvD(1) [OF q] by (simp add: s' chan_ok_hdr)
  moreover have "pub s' = pub s" by (simp add: s')
  ultimately have "qinv g s'" using q by (auto simp: qinv_def Let_def s' marked_def pc)
  moreover have "winv g s'" by (rule winv_cong [OF _ _ _ _ _ _ w]) (simp_all add: s')
  moreover have "pinv g s'" using P n sh by (simp add: pinv_def s' Let_def)
  ultimately show ?thesis by (simp add: rinv_def)
qed

lemma rinv_busy:
  assumes inv: "rinv g s" and st: "rstep g Busy s = Inr s'"
  shows "rinv g s'"
proof -
  let ?a = "length (subm s)" and ?c = "cell_of g (length (subm s) - 1)"
  have q: "qinv g s" and p: "pinv g s" and w: "winv g s" using inv by (simp_all add: rinv_def)
  obtain i j where pc: "rppc s = PAdvanced i j" using st by (auto split: ppc.splits)
  have P: "0 < ?a" "(i, j) = ?c" "tail_is g s ?a" using p by (simp_all add: pinv_def pc Let_def)
  have s': "s' = s\<lparr>rch := write_cell ?c ((read_cell (rch s) ?c)\<lparr>rstatus := BENTRY_BUSY\<rparr>) (rch s), rppc := PIdle\<rparr>"
    using st cells_at(1) [OF qinvD(1) [OF q] P(2)] by (simp add: pc)
  have rd: "req_of (read_cell (rch s') c) = req_of (read_cell (rch s) c)"
    "rstatus (read_cell (rch s') c) = (if c = ?c then BENTRY_BUSY else rstatus (read_cell (rch s) c))" for c
    by (simp_all add: s' read_write_cell)
  have f: "subm s' = subm s" "perf s' = perf s" "pub s' = pub s"
    "chan_ok g (rch s') = chan_ok g (rch s)" "hdr (rch s') = hdr (rch s)"
    by (simp_all add: s')
  have "entries_ok (rch s')"
    using qinvD(2) [OF q] by (simp add: s' entries_ok_write entries_okD)
  moreover have "cell_of g k = ?c" if "Suc k = ?a" for k using that by (metis diff_Suc_1)
  ultimately have "qinv g s'"
    using q by (auto simp: qinv_def Let_def f rd marked_def pc)
  moreover have "winv g s'" by (rule winv_cong [OF _ _ _ _ _ _ w]) (simp_all add: s')
  moreover have "pinv g s'" using P(3) by (simp add: pinv_def s' Let_def)
  ultimately show ?thesis by (simp add: rinv_def)
qed

lemma tail_range:
  assumes "ring_ok g" and "pinv g s"
  shows "idx_ok g (tail_table (hdr (rch s))) (tail_entry (hdr (rch s)))"
proof -
  let ?a = "length (subm s)"
  have "idx_ok g i j" if "(i, j) = cell_of g k" for i j k
    using cell_ok(1) [OF assms(1), of k] that by (metis fst_conv snd_conv)
  then show ?thesis
    using assms(2) ring_okD(1) [OF assms(1)]
    by (auto simp: pinv_def Let_def idx_ok_def split: ppc.splits)
qed

lemma rinv_poll:
  assumes "rinv g s" and "rstep g Poll s = Inr s'"
  shows "rinv g s'"
proof -
  have q: "qinv g s" and p: "pinv g s" and w: "winv g s" using assms(1) by (simp_all add: rinv_def)
  have pc: "rwpc s = WPoll" using assms(2) by (simp split: wpc.splits)
  have W: "head_is g s (length (perf s))" "pub s = length (perf s)" using w by (simp_all add: winv_def pc Let_def)
  have s': "s' = s\<lparr>rwpc := WCount (head_table (hdr (rch s))) (head_entry (hdr (rch s)))\<rparr>"
    using assms(2) cells_at(2) [OF qinvD(1) [OF q] W(1)] by (simp add: pc Let_def split: if_splits)
  have "qinv g s' = qinv g s" by (intro qinv_cong) (simp_all add: s' marked_def)
  moreover have "pinv g s' = pinv g s" by (rule pinv_cong) (simp_all add: s')
  moreover have "winv g s'" using W by (simp add: winv_def s' Let_def)
  ultimately show ?thesis using q p by (simp add: rinv_def)
qed

lemma rinv_readT:
  assumes "rinv g s" and "rstep g ReadT s = Inr s'"
  shows "rinv g s'"
proof -
  have q: "qinv g s" and p: "pinv g s" and w: "winv g s" using assms(1) by (simp_all add: rinv_def)
  obtain i j where pc: "rwpc s = WCount i j" and s': "s' = s\<lparr>rwpc := WCountE i j (tail_table (hdr (rch s)))\<rparr>"
    using assms(2) by (auto split: wpc.splits)
  have "qinv g s' = qinv g s" by (intro qinv_cong) (simp_all add: s' marked_def)
  moreover have "pinv g s' = pinv g s" by (rule pinv_cong) (simp_all add: s')
  moreover have "winv g s'"
    using w tail_range [OF qinvD(3) [OF q] p] by (simp add: winv_def s' pc Let_def idx_ok_def)
  ultimately show ?thesis using q p by (simp add: rinv_def)
qed

text \<open>The count is the number of calls submitted and not yet performed, if the tail was one.\<close>

lemma count_submitted:
  assumes q: "qinv g s" and p: "pinv g s" and ij: "(i, j) = cell_of g (length (perf s))"
    and tt: "0 \<le> tt" "tt < MAX_TABLE_LEN g"
    and ok: "tail_pos g ((hdr (rch s))\<lparr>tail_table := tt\<rparr>) = length (subm s) mod slots g"
  shows "unat (submitted_count g ((hdr (rch s))\<lparr>tail_table := tt\<rparr>) i j) = length (subm s) - length (perf s)"
proof (rule submitted_count_distance)
  note rg = qinvD(3) [OF q]
  show "ring_ok g" by (rule rg)
  show "idx_ok g i j" "spos g i j = length (perf s) mod slots g"
    using cell_ok [OF rg, of "length (perf s)"] ij [symmetric] by simp_all
  show "idx_ok g (tail_table ((hdr (rch s))\<lparr>tail_table := tt\<rparr>)) (tail_entry ((hdr (rch s))\<lparr>tail_table := tt\<rparr>))"
    using tail_range [OF rg p] tt by (simp add: idx_ok_def)
qed (use ok qinvD(5,8) [OF q] in auto)

lemma rinv_readE:
  assumes "rinv g s" and "rstep g ReadE s = Inr s'" and "\<not> torn s'"
  shows "rinv g s'"
proof -
  have q: "qinv g s" and p: "pinv g s" and w: "winv g s" using assms(1) by (simp_all add: rinv_def)
  obtain i j tt where pc: "rwpc s = WCountE i j tt" using assms(2) by (auto split: wpc.splits)
  let ?h = "(hdr (rch s))\<lparr>tail_table := tt\<rparr>"
  have s': "s' = s\<lparr>rwpc := WRun i j (submitted_count g ?h i j),
      torn := (torn s \<or> tail_pos g ?h \<noteq> length (subm s) mod slots g)\<rparr>"
    using assms(2) by (simp add: pc Let_def)
  have W: "(i, j) = cell_of g (length (perf s))" "head_is g s (length (perf s))" "pub s = length (perf s)"
    "0 \<le> tt" "tt < MAX_TABLE_LEN g"
    using w by (simp_all add: winv_def pc Let_def)
  have ok: "tail_pos g ?h = length (subm s) mod slots g" using assms(3) by (simp add: s')
  have "qinv g s' = qinv g s" by (intro qinv_cong) (simp_all add: s' marked_def)
  moreover have "pinv g s' = pinv g s" by (rule pinv_cong) (simp_all add: s')
  moreover have "winv g s'"
    using W count_submitted [OF q p W(1,4,5) ok] qinvD(5) [OF q] by (simp add: winv_def s' Let_def)
  ultimately show ?thesis using q p by (simp add: rinv_def)
qed

lemma rinv_exec:
  assumes "rinv g s" and "rstep g Exec s = Inr s'"
  shows "rinv g s'"
proof -
  let ?a = "length (subm s)" and ?c = "length (perf s)" and ?C = "cell_of g (length (perf s))"
  have q: "qinv g s" and p: "pinv g s" and w: "winv g s" using assms(1) by (simp_all add: rinv_def)
  note rg = qinvD(3) [OF q]
  obtain i j n where pc: "rwpc s = WRun i j n" and n: "n \<noteq> 0"
    using assms(2) by (auto split: wpc.splits if_splits)
  have W: "(i, j) = ?C" "?c + unat n \<le> ?a" "head_is g s (pub s)" using w by (simp_all add: winv_def pc Let_def)
  have un: "unat (n - 1) = unat n - 1" "0 < unat n" using n by (simp_all add: unat_minus_one unat_gt_0)
  let ?e = "read_cell (rch s) ?C"
  obtain i' j' where nx: "worker_next g (i, j) = (i', j')" "(i', j') = cell_of g (Suc ?c)"
    using cell_next [OF rg, of ?c] W(1) by (metis surj_pair)
  have s': "s' = s\<lparr>rch := write_cell ?C (?e\<lparr>rstatus := BENTRY_EMPTY\<rparr>) (rch s), rwpc := WRun i' j' (n - 1),
      perf := perf s @ [req_of ?e]\<rparr>"
    using assms(2) n cells_at(2) [OF qinvD(1) [OF q] W(1)] nx(1) by (simp add: pc Let_def)
  have rd: "req_of (read_cell (rch s') c) = req_of (read_cell (rch s) c)"
    "rstatus (read_cell (rch s') c) = (if c = ?C then BENTRY_EMPTY else rstatus (read_cell (rch s) c))" for c
    by (simp_all add: s' read_write_cell)
  have other: "cell_of g k \<noteq> ?C" if "?c < k" "k < ?a" for k
    using cell_neq [OF rg that(1)] that(2) qinvD(8) [OF q] by auto
  have ca: "?c < ?a" using W(2) un by linarith
  have pf: "perf s' = take (Suc ?c) (subm s)"
    using qinvD(4) [OF q] qinvD(9) [OF q le_refl ca] ca by (simp add: s' take_Suc_conv_app_nth)
  have f: "subm s' = subm s" "pub s' = pub s" "length (perf s') = Suc ?c" "marked s' = marked s"
    "chan_ok g (rch s') = chan_ok g (rch s)" "hdr (rch s') = hdr (rch s)" "entries_ok (rch s')"
    using qinvD(2) [OF q] by (simp_all add: s' marked_def pc entries_ok_write entries_okD)
  have "qinv g s'"
    unfolding qinv_def Let_def f(1-6) rd using q ca pf other f(7) by (auto simp: qinv_def Let_def)
  moreover have "pinv g s' = pinv g s" by (rule pinv_cong) (simp_all add: s' read_write_cell)
  moreover have "winv g s'"
    using W un nx(2) f by (simp add: winv_def Let_def) (simp add: s')
  ultimately show ?thesis using p by (simp add: rinv_def)
qed

lemma rinv_pub1:
  assumes "rinv g s" and "rstep g Pub1 s = Inr s'"
  shows "rinv g s'"
proof -
  have q: "qinv g s" and p: "pinv g s" and w: "winv g s" using assms(1) by (simp_all add: rinv_def)
  note rg = qinvD(3) [OF q]
  obtain i j n where pc: "rwpc s = WRun i j n"
    and s': "s' = (set_hdr (\<lambda>h. h\<lparr>head_table := short_of i\<rparr>) s)\<lparr>rwpc := WPub i j\<rparr>"
    using assms(2) by (auto split: wpc.splits if_splits)
  have W: "(i, j) = cell_of g (length (perf s))" "head_is g s (pub s)" using w by (simp_all add: winv_def pc Let_def)
  have sh: "short_of i = i" using cell_short(1) [OF rg, of "length (perf s)"] W(1) by (metis fst_conv)
  have "qinv g s'"
    using q qinvD(8) [OF q] by (auto simp: qinv_def Let_def s' marked_def chan_ok_hdr)
  moreover have "pinv g s' = pinv g s" by (rule pinv_cong) (simp_all add: s')
  moreover have "winv g s'" using W sh by (simp add: winv_def s' Let_def) (metis snd_conv)
  ultimately show ?thesis using p by (simp add: rinv_def)
qed

lemma rinv_pub2:
  assumes "rinv g s" and "rstep g Pub2 s = Inr s'"
  shows "rinv g s'"
proof -
  have q: "qinv g s" and p: "pinv g s" and w: "winv g s" using assms(1) by (simp_all add: rinv_def)
  note rg = qinvD(3) [OF q]
  obtain i j where pc: "rwpc s = WPub i j"
    and s': "s' = (set_hdr (\<lambda>h. h\<lparr>head_entry := short_of j\<rparr>) s)\<lparr>rwpc := WPoll, pub := length (perf s)\<rparr>"
    using assms(2) by (auto split: wpc.splits)
  have W: "(i, j) = cell_of g (length (perf s))" "head_table (hdr (rch s)) = i" using w by (simp_all add: winv_def pc Let_def)
  have sh: "short_of j = j" using cell_short(2) [OF rg, of "length (perf s)"] W(1) by (metis snd_conv)
  have "qinv g s'"
    using q qinvD(8) [OF q] by (auto simp: qinv_def Let_def s' marked_def chan_ok_hdr)
  moreover have "pinv g s' = pinv g s" by (rule pinv_cong) (simp_all add: s')
  moreover have "winv g s'" using W sh by (simp add: winv_def s' Let_def)
  ultimately show ?thesis using p by (simp add: rinv_def)
qed

lemma rinv_step:
  assumes "rinv g s" and "act_ok a" and "rstep g a s = Inr s'" and "\<not> overrun s'" and "\<not> torn s'"
  shows "rinv g s'"
proof (cases a)
  case (Fill r)
  then have "call_ok r" using assms(2) by (simp add: act_ok_def)
  with Fill assms(1,3) show ?thesis using rinv_fill by blast
qed (use assms in \<open>auto dest: rinv_test rinv_store rinv_store2 rinv_busy rinv_poll rinv_readT rinv_readE
    rinv_exec rinv_pub1 rinv_pub2 simp del: rstep.simps\<close>)

lemma rstep_mono:
  assumes "rstep g a s = Inr s'"
  shows "overrun s \<Longrightarrow> overrun s'" and "torn s \<Longrightarrow> torn s'"
  using assms
  by (cases a; auto simp: Let_def store_tail_def bind_res_Inr_iff split: ppc.splits wpc.splits if_splits prod.splits)+

lemma rinv_init:
  assumes "ready_chan g ch"
  shows "rinv g (rinit ch)"
proof -
  have c: "chan_ok g ch" "entries_ok ch" "head_table (hdr ch) = 0" "tail_table (hdr ch) = 0"
    "head_entry (hdr ch) = 0" "tail_entry (hdr ch) = 0"
    using assms by (simp_all add: ready_chan_def)
  have rg: "ring_ok g" using c(1) by (rule chan_ok_ring)
  have "cell_of g 0 = (0, 0)" by (simp add: cell_of_def slot_cell_def)
  then show ?thesis
    using c ring_okD(6) [OF rg]
    by (simp add: rinv_def qinv_def pinv_def winv_def rinit_def Let_def)
qed

lemma reachable_rinv: "reachable g s \<Longrightarrow> \<not> overrun s \<Longrightarrow> \<not> torn s \<Longrightarrow> rinv g s"
proof (induction rule: reachable.induct)
  case (start ch)
  then show ?case by (intro rinv_init)
next
  case (step s a s')
  then show ?case using rstep_mono rinv_step by blast
qed

lemma run_reachable:
  assumes "reachable g s" and "list_all act_ok as" and "run g as s = Inr s'"
  shows "reachable g s'"
  using assms unfolding run_def
  by (induction as arbitrary: s) (auto simp: bind_res_Inr_iff intro: reachable.step simp del: rstep.simps)

lemma run_Cons: "run g (a # as) s = bind_res (rstep g a s) (run g as)"
  by (cases "rstep g a s") (simp_all add: run_def)

lemma run_append: "run g (as @ bs) s = bind_res (run g as s) (run g bs)"
proof (induction as arbitrary: s)
  case (Cons a as)
  then show ?case by (cases "rstep g a s") (simp_all add: run_Cons)
qed (simp add: run_def)

text \<open>In a state with the invariant no access leaves the table: a step goes through or waits.\<close>

lemma rstep_safe:
  assumes "rinv g s" and "rstep g a s = Inl e"
  shows "e = Blocked"
proof -
  have q: "chan_ok g (rch s)" and p: "pinv g s" and w: "winv g s"
    using assms(1) by (simp_all add: rinv_def qinv_def Let_def)
  show ?thesis
  proof (cases a)
    case (Fill r)
    show ?thesis
    proof (cases "rppc s")
      case PIdle
      then have "tail_is g s (length (subm s))" using p by (simp add: pinv_def Let_def)
      from cells_at(1) [OF q this] PIdle Fill assms(2) show ?thesis by (simp add: Let_def)
    qed (use Fill assms(2) in auto)
  next
    case Busy
    show ?thesis
    proof (cases "rppc s")
      case (PAdvanced i j)
      then have "(i, j) = cell_of g (length (subm s) - 1)" using p by (simp add: pinv_def Let_def)
      from cells_at(1) [OF q this] PAdvanced Busy assms(2) show ?thesis by simp
    qed (use Busy assms(2) in auto)
  next
    case Poll
    show ?thesis
    proof (cases "rwpc s")
      case WPoll
      then have "head_is g s (length (perf s))" using w by (simp add: winv_def Let_def)
      from cells_at(2) [OF q this] WPoll Poll assms(2) show ?thesis by (simp add: Let_def split: if_splits)
    qed (use Poll assms(2) in auto)
  next
    case Exec
    show ?thesis
    proof (cases "rwpc s")
      case (WRun i j n)
      then have "(i, j) = cell_of g (length (perf s))" using w by (simp add: winv_def Let_def)
      from cells_at(2) [OF q this] WRun Exec assms(2) show ?thesis
        by (simp add: Let_def split: if_splits prod.splits)
    qed (use Exec assms(2) in auto)
  qed (use assms(2) in \<open>auto simp: Let_def split: ppc.splits wpc.splits if_splits\<close>)
qed

end
