(* ===== verification/Ring_Safety.thy ===== *)
theory Ring_Safety
  imports Ring_Protocol
begin

text \<open>
  What the interleavings of a process and a kernel worker guarantee: the ring is a queue while
  neither hazard has happened, both hazards are absent on a ring of one table when the process
  leaves room, the test of \<open>update_index\<close> fails only at the last entry, and the worker's own steps
  perform everything pending.
\<close>

section \<open>A ring of one table\<close>

lemma single_fst:
  assumes "ring_ok g" and "MAX_TABLE_LEN g = 1"
  shows "fst (cell_of g k) = 0"
  using cell_ok(1) [OF assms(1), of k] assms(2) by (simp add: idx_ok_def)

lemma single_tail:
  assumes "rinv g s" and "MAX_TABLE_LEN g = 1"
  shows "tail_is g s (length (subm s))"
proof -
  have q: "qinv g s" and p: "pinv g s" using assms(1) by (simp_all add: rinv_def)
  show ?thesis
  proof (cases "rppc s")
    case (PTorn i j)
    have P: "0 < length (subm s)" "(i, j) = cell_of g (length (subm s) - 1)" "j = MAX_TABLE_ENTRY g - 1"
      "tail_table (hdr (rch s)) = i" "tail_entry (hdr (rch s)) = 0"
      using p by (auto simp: pinv_def PTorn Let_def)
    have "i = 0" using single_fst [OF qinvD(3) [OF q] assms(2), of "length (subm s) - 1"] P(2) [symmetric] by simp
    then show ?thesis
      using cell_next_split [OF qinvD(3) [OF q], of "length (subm s) - 1"] P(1,3,4,5) P(2) [symmetric] assms(2)
      by (simp add: next_table_def)
  qed (use p in \<open>simp_all add: pinv_def Let_def\<close>)
qed

lemma single_head:
  assumes "rinv g s" and "MAX_TABLE_LEN g = 1"
  shows "head_is g s (pub s)"
proof -
  have q: "qinv g s" and w: "winv g s" using assms(1) by (simp_all add: rinv_def)
  show ?thesis
  proof (cases "rwpc s")
    case (WPub i j)
    then show ?thesis
      using w single_fst [OF qinvD(3) [OF q] assms(2)]
      by (simp add: winv_def Let_def prod_eq_iff)
  qed (use w in \<open>auto simp add: winv_def Let_def\<close>)
qed

lemma single_not_torn:
  assumes "rinv g s" and "MAX_TABLE_LEN g = 1" and "rstep g a s = Inr s'" and "\<not> torn s"
  shows "\<not> torn s'"
proof (cases a)
  case ReadE
  have q: "qinv g s" and w: "winv g s" using assms(1) by (simp_all add: rinv_def)
  obtain i j tt where pc: "rwpc s = WCountE i j tt" using assms(3) by (auto simp: ReadE split: wpc.splits)
  have t: "tail_is g s (length (subm s))" using assms(1,2) by (rule single_tail)
  then have "tt = tail_table (hdr (rch s))"
    using w assms(2) single_fst [OF qinvD(3) [OF q] assms(2)] by (simp add: winv_def pc Let_def prod_eq_iff)
  then have "tail_pos g ((hdr (rch s))\<lparr>tail_table := tt\<rparr>) = length (subm s) mod slots g"
    using cell_ok(2) [OF qinvD(3) [OF q], of "length (subm s)"] t [symmetric] by simp
  then show ?thesis using assms(3,4) by (auto simp: ReadE pc Let_def)
qed (use assms(3,4) in \<open>auto simp: Let_def store_tail_def bind_res_Inr_iff case_prod_beta split: ppc.splits wpc.splits if_splits\<close>)

text \<open>Where the test of \<open>update_index\<close> looks at the head, it leaves one entry free.\<close>

lemma single_room:
  assumes "rinv g s" and "MAX_TABLE_LEN g = 1" and "\<not> wait_full (hdr (rch s))"
    and "tail_entry (hdr (rch s)) \<noteq> MAX_TABLE_ENTRY g - 1"
  shows "length (subm s) + 1 < pub s + slots g"
proof (rule ccontr)
  have q: "qinv g s" using assms(1) by (simp add: rinv_def)
  note rg = qinvD(3) [OF q]
  assume "\<not> length (subm s) + 1 < pub s + slots g"
  then have e: "Suc (length (subm s)) = pub s + slots g" using qinvD(7) [OF q] by simp
  have t: "tail_is g s (length (subm s))" and h: "head_is g s (pub s)"
    using assms(1,2) by (rule single_tail, rule single_head)
  have "cell_of g (Suc (length (subm s))) = cell_of g (pub s)" by (simp add: e cell_of_def)
  then have "(tail_table (hdr (rch s)), tail_entry (hdr (rch s)) + 1) = (head_table (hdr (rch s)), head_entry (hdr (rch s)))"
    using cell_next_split [OF rg, of "length (subm s)"] t [symmetric] h assms(4) by simp
  then show False using assms(3) by (simp add: wait_full_def)
qed

lemma pub_mono:
  assumes "rinv g s" and "rstep g a s = Inr s'"
  shows "pub s \<le> pub s'"
  using assms qinvD(6) [of g s]
  by (cases a; auto simp: rinv_def Let_def store_tail_def bind_res_Inr_iff case_prod_beta split: ppc.splits wpc.splits if_splits)

section \<open>A process that leaves room\<close>

text \<open>The runs in which a call is made only while two entries are free.\<close>

inductive roomy :: "globals \<Rightarrow> rstate \<Rightarrow> bool" for g where
  start: "ready_chan g ch \<Longrightarrow> roomy g (rinit ch)"
| step: "roomy g s \<Longrightarrow> act_ok a \<Longrightarrow> rstep g a s = Inr s' \<Longrightarrow>
    (case a of Fill r \<Rightarrow> length (subm s) + 1 < pub s + slots g | _ \<Rightarrow> True) \<Longrightarrow> roomy g s'"

inductive_simps roomy_rinit: "roomy g (rinit ch)"

lemma roomy_reachable: "roomy g s \<Longrightarrow> reachable g s"
  by (induction rule: roomy.induct) (auto intro: reachable.intros)

definition spare :: "globals \<Rightarrow> rstate \<Rightarrow> bool" where
  "spare g s = (case rppc s of
     PFilled i j r \<Rightarrow> length (subm s) + 1 < pub s + slots g
   | PChecked i j r \<Rightarrow> length (subm s) + 1 < pub s + slots g
   | _ \<Rightarrow> True)"

lemma spare_step:
  assumes "rinv g s" and "spare g s" and "rstep g a s = Inr s'"
    and "case a of Fill r \<Rightarrow> length (subm s) + 1 < pub s + slots g | _ \<Rightarrow> True"
  shows "spare g s'" and "overrun s' = overrun s"
  using assms pub_mono [OF assms(1,3)]
  by (cases a; auto simp: spare_def Let_def store_tail_def bind_res_Inr_iff case_prod_beta split: ppc.splits wpc.splits if_splits)+

lemma roomy_inv:
  assumes "roomy g s" and "MAX_TABLE_LEN g = 1"
  shows "rinv g s \<and> spare g s \<and> \<not> overrun s \<and> \<not> torn s"
  using assms
proof (induction rule: roomy.induct)
  case (start ch)
  then show ?case using rinv_init by (simp add: rinit_def spare_def)
next
  case (step s a s')
  then have i: "rinv g s" "spare g s" "\<not> overrun s" "\<not> torn s" by simp_all
  note sp = spare_step [OF i(1,2) step(3,4)]
  have "\<not> torn s'" using i(1) step(6) step(3) i(4) by (rule single_not_torn)
  with sp i(3) rinv_step [OF i(1) step(2,3)] show ?case by simp
qed

section \<open>The worker alone\<close>

definition worker_act :: "act \<Rightarrow> bool" where
  "worker_act a \<longleftrightarrow> a \<in> {Poll, ReadT, ReadE, Exec, Pub1, Pub2}"

definition wstep :: "globals \<Rightarrow> rstate \<Rightarrow> rstate \<Rightarrow> bool" where
  "wstep g s s' \<longleftrightarrow> (\<exists>a. worker_act a \<and> rstep g a s = Inr s')"

lemma wstep_det: "wstep g s t \<Longrightarrow> wstep g s t' \<Longrightarrow> t = t'"
  by (auto simp: wstep_def worker_act_def split: wpc.splits if_splits)

lemma wstep_frame:
  assumes "wstep g s s'"
  shows "rppc s' = rppc s" "subm s' = subm s"
  using assms
  by (auto simp: wstep_def worker_act_def Let_def bind_res_Inr_iff case_prod_beta split: wpc.splits if_splits)

lemma run_wsteps:
  assumes "list_all worker_act as" and "run g as s = Inr s'"
  shows "(wstep g)\<^sup>*\<^sup>* s s'"
  using assms
proof (induction as arbitrary: s)
  case (Cons a as)
  then obtain s1 where "rstep g a s = Inr s1" "run g as s1 = Inr s'"
    by (auto simp: run_Cons bind_res_Inr_iff simp del: rstep.simps)
  moreover have "worker_act a" "list_all worker_act as" using Cons(2) by simp_all
  ultimately have "wstep g s s1" "(wstep g)\<^sup>*\<^sup>* s1 s'" using Cons(1) unfolding wstep_def by blast+
  then show ?case by (rule converse_rtranclp_into_rtranclp)
qed (simp add: run_def)

lemma worker_act_ok: "worker_act a \<Longrightarrow> act_ok a"
  by (auto simp: worker_act_def act_ok_def)

lemma reachable_wsteps: "(wstep g)\<^sup>*\<^sup>* s s' \<Longrightarrow> reachable g s \<Longrightarrow> reachable g s'"
proof (induction rule: rtranclp_induct)
  case (step t u)
  then show ?case unfolding wstep_def using worker_act_ok by (blast intro: reachable.step)
qed

text \<open>What the worker's steps keep: the invariant and the process's half of the state.\<close>

definition calm :: "globals \<Rightarrow> request list \<Rightarrow> rstate \<Rightarrow> bool" where
  "calm g r s \<longleftrightarrow> rinv g s \<and> \<not> overrun s \<and> \<not> torn s \<and> rppc s = PIdle \<and> subm s = r"

lemma calm_step:
  assumes "calm g r s" and "rstep g a s = Inr s'" and "worker_act a" and "a \<noteq> ReadE"
  shows "wstep g s s' \<and> calm g r s'"
proof -
  have w: "wstep g s s'" using assms(2,3) by (auto simp: wstep_def)
  have h: "overrun s' = overrun s" "torn s' = torn s"
    using assms(2-4)
    by (auto simp: worker_act_def Let_def bind_res_Inr_iff case_prod_beta split: wpc.splits if_splits)
  have "act_ok a" using assms(3) by (auto simp: worker_act_def act_ok_def)
  then show ?thesis
    using w h assms(1,2) wstep_frame [OF w] rinv_step [of g s a s'] by (simp add: calm_def)
qed

lemma calmD:
  assumes "calm g r s"
  shows "qinv g s" "winv g s" "ring_ok g" "chan_ok g (rch s)" "tail_is g s (length r)" "subm s = r"
    "\<And>k. length (perf s) \<le> k \<Longrightarrow> k < length r \<Longrightarrow> rstatus (read_cell (rch s) (cell_of g k)) = BENTRY_BUSY"
  using assms qinvD(1,3,10) [of g s] by (auto simp: calm_def rinv_def pinv_def Let_def marked_def)

lemma calm_end: "calm g r s \<Longrightarrow> length (perf s) = length r \<Longrightarrow> perf s = r"
  using qinvD(4) [of g s] by (simp add: calm_def rinv_def)

lemma calm_pub2:
  assumes "calm g r s" and "rwpc s = WPub i j"
  shows "\<exists>s'. wstep g s s' \<and> calm g r s' \<and> rwpc s' = WPoll \<and> perf s' = perf s"
  using calm_step [OF assms(1), of Pub2] assms(2) by (auto simp: worker_act_def)

lemma calm_finish:
  assumes "calm g r s" and "rwpc s = WRun i j n"
  shows "\<exists>s'. (wstep g)\<^sup>*\<^sup>* s s' \<and> calm g r s' \<and> rwpc s' = WPoll \<and> length (perf s') = length (perf s) + unat n"
  using assms
proof (induction "unat n" arbitrary: s i j n)
  case 0
  then have n: "n = 0" by (simp add: unat_eq_0)
  obtain s1 where 1: "wstep g s s1" "calm g r s1" "rwpc s1 = WPub i j" "perf s1 = perf s"
    using calm_step [OF 0(2), of Pub1] 0(3) n by (auto simp: worker_act_def)
  obtain s2 where 2: "wstep g s1 s2" "calm g r s2" "rwpc s2 = WPoll" "perf s2 = perf s1"
    using calm_pub2 [OF 1(2,3)] by blast
  have "(wstep g)\<^sup>*\<^sup>* s s2" using 1(1) 2(1) by (blast intro: converse_rtranclp_into_rtranclp)
  with 1 2 n show ?case by auto
next
  case (Suc m)
  have n: "n \<noteq> 0" using Suc(2) by auto
  then have m: "unat (n - 1) = m" using Suc(2) unat_minus_one [of n] by linarith
  have "(i, j) = cell_of g (length (perf s))" using calmD(2) [OF Suc(3)] by (simp add: winv_def Suc(4) Let_def)
  note c = cells_at(2) [OF calmD(4) [OF Suc(3)] this]
  obtain s1 i' j' where 1: "wstep g s s1" "calm g r s1" "rwpc s1 = WRun i' j' (n - 1)"
      "length (perf s1) = Suc (length (perf s))"
    using calm_step [OF Suc(3), of Exec] n Suc(4)
    by (auto simp: worker_act_def Let_def c case_prod_beta)
  obtain s2 where 2: "(wstep g)\<^sup>*\<^sup>* s1 s2" "calm g r s2" "rwpc s2 = WPoll" "length (perf s2) = length (perf s1) + m"
    using Suc(1) [OF m [symmetric] 1(2,3)] m by auto
  have "(wstep g)\<^sup>*\<^sup>* s s2" using 1(1) 2(1) by (rule converse_rtranclp_into_rtranclp)
  with 1(4) 2 Suc(2) show ?case by auto
qed

lemma calm_count:
  assumes "calm g r s" and "rwpc s = WCountE i j (tail_table (hdr (rch s)))"
  shows "\<exists>s'. (wstep g)\<^sup>*\<^sup>* s s' \<and> calm g r s' \<and> rwpc s' = WPoll \<and> perf s' = r"
proof -
  note D = calmD [OF assms(1)]
  have p: "pinv g s" using assms(1) by (simp add: calm_def rinv_def)
  have W: "(i, j) = cell_of g (length (perf s))" "0 \<le> tail_table (hdr (rch s))" "tail_table (hdr (rch s)) < MAX_TABLE_LEN g"
    using D(2) by (simp_all add: winv_def assms(2) Let_def)
  have t: "tail_pos g (hdr (rch s)) = length r mod slots g"
    using cell_ok(2) [OF D(3), of "length r"] D(5) [symmetric] by simp
  have n: "unat (submitted_count g (hdr (rch s)) i j) = length r - length (perf s)"
    using count_submitted [OF D(1) p W] t D(6) by simp
  obtain s1 where s1: "rstep g ReadE s = Inr s1" "rwpc s1 = WRun i j (submitted_count g (hdr (rch s)) i j)"
      "perf s1 = perf s" "rppc s1 = rppc s" "subm s1 = subm s" "overrun s1 = overrun s" "torn s1 = torn s"
    using t D(6) by (simp add: assms(2) Let_def)
  have c: "calm g r s1"
    using assms(1) s1 rinv_step [of g s ReadE s1] by (simp add: calm_def act_ok_def)
  have "wstep g s s1" unfolding wstep_def worker_act_def using s1(1) by blast
  moreover obtain s2 where 2: "(wstep g)\<^sup>*\<^sup>* s1 s2" "calm g r s2" "rwpc s2 = WPoll"
      "length (perf s2) = length (perf s1) + unat (submitted_count g (hdr (rch s)) i j)"
    using calm_finish [OF c s1(2)] by blast
  moreover have "length (perf s2) = length r" using 2(4) [unfolded n s1(3)] qinvD(5) [OF D(1), unfolded D(6)] by linarith
  ultimately show ?thesis using calm_end [OF 2(2)] by (meson converse_rtranclp_into_rtranclp)
qed

lemma calm_readT:
  assumes "calm g r s" and "rwpc s = WCount i j"
  shows "\<exists>s'. (wstep g)\<^sup>*\<^sup>* s s' \<and> calm g r s' \<and> rwpc s' = WPoll \<and> perf s' = r"
proof -
  obtain s1 where 1: "wstep g s s1" "calm g r s1" "rwpc s1 = WCountE i j (tail_table (hdr (rch s1)))"
    using calm_step [OF assms(1), of ReadT] assms(2) by (auto simp: worker_act_def)
  from calm_count [OF 1(2,3)] 1(1) show ?thesis by (blast intro: converse_rtranclp_into_rtranclp)
qed

lemma calm_poll:
  assumes "calm g r s" and "rwpc s = WPoll"
  shows "\<exists>s'. (wstep g)\<^sup>*\<^sup>* s s' \<and> calm g r s' \<and> rwpc s' = WPoll \<and> perf s' = r"
proof (cases "length (perf s) = length r")
  case True
  then show ?thesis using assms calm_end by blast
next
  case False
  note D = calmD [OF assms(1)]
  have lt: "length (perf s) < length r" using False qinvD(5) [OF D(1)] D(6) by simp
  have h: "head_is g s (length (perf s))" using D(2) by (simp add: winv_def assms(2) Let_def)
  have "BENTRY_BUSY \<noteq> BENTRY_EMPTY" by (simp add: BENTRY_BUSY_def BENTRY_EMPTY_def)
  then obtain s1 i j where 1: "wstep g s s1" "calm g r s1" "rwpc s1 = WCount i j"
    using calm_step [OF assms(1), of Poll] assms(2) cells_at(2) [OF D(4) h] D(7) [OF le_refl lt]
    by (auto simp: worker_act_def Let_def)
  from calm_readT [OF 1(2,3)] 1(1) show ?thesis by (blast intro: converse_rtranclp_into_rtranclp)
qed

lemma calm_drain:
  assumes "calm g r s" and "\<And>i j tt. rwpc s = WCountE i j tt \<Longrightarrow> tt = tail_table (hdr (rch s))"
  shows "\<exists>s'. (wstep g)\<^sup>*\<^sup>* s s' \<and> calm g r s' \<and> rwpc s' = WPoll \<and> perf s' = r"
proof (cases "rwpc s")
  case (WRun i j n)
  from calm_finish [OF assms(1) this] show ?thesis using calm_poll by (metis rtranclp_trans)
next
  case (WPub i j)
  from calm_pub2 [OF assms(1) this] show ?thesis using calm_poll by (metis converse_rtranclp_into_rtranclp)
next
  case (WCountE i j tt)
  with assms(2) show ?thesis by (intro calm_count [OF assms(1)]) simp
qed (use calm_poll [OF assms(1)] calm_readT [OF assms(1)] in blast)+

section \<open>The queue behind the ring\<close>

text \<open>
  What a table is meant to be: a queue of pending calls and the record of those done. A call
  enters when the tail moves past its entry and leaves when the worker has performed it; the
  other steps do not show.
\<close>

datatype fevent = Enq request | Deq

fun fifo :: "fevent \<Rightarrow> request list \<times> request list \<Rightarrow> (request list \<times> request list) option" where
  "fifo (Enq r) (q, d) = Some (q @ [r], d)"
| "fifo Deq (r # q, d) = Some (q, d @ [r])"
| "fifo Deq ([], d) = None"

definition queue_of :: "rstate \<Rightarrow> request list \<times> request list" where
  "queue_of s = (drop (length (perf s)) (subm s), perf s)"

fun event_of :: "rstate \<Rightarrow> act \<Rightarrow> fevent option" where
  "event_of s Store = (case rppc s of PChecked i j r \<Rightarrow> Some (Enq r) | _ \<Rightarrow> None)"
| "event_of s Exec = Some Deq"
| "event_of s _ = None"

lemma exec_req:
  assumes "rinv g s" and "rstep g Exec s = Inr s'"
  shows "length (perf s) < length (subm s) \<and> perf s' = perf s @ [subm s ! length (perf s)] \<and> subm s' = subm s"
proof -
  have i': "rinv g s'" using rinv_exec [OF assms] .
  have q: "qinv g s" and w: "winv g s" and q': "qinv g s'" using assms(1) i' by (simp_all add: rinv_def)
  have p: "perf s' = perf s @ [last (perf s')]" and sb: "subm s' = subm s"
    using assms(2) by (auto simp: Let_def bind_res_Inr_iff case_prod_beta split: wpc.splits if_splits)
  have l: "length (perf s) < length (subm s)" using qinvD(5) [OF q'] arg_cong [OF p, of length] sb by simp
  have "perf s' = take (Suc (length (perf s))) (subm s)" using qinvD(4) [OF q'] arg_cong [OF p, of length] sb by simp
  then show ?thesis using qinvD(4) [OF q] l sb by (simp add: take_Suc_conv_app_nth)
qed

lemma queue_step:
  assumes "rinv g s" and "rstep g a s = Inr s'"
  shows "(case event_of s a of None \<Rightarrow> queue_of s' = queue_of s | Some e \<Rightarrow> fifo e (queue_of s) = Some (queue_of s'))"
proof (cases a)
  case Exec
  show ?thesis
    using exec_req [OF assms(1) assms(2) [unfolded Exec]]
    by (simp add: Exec queue_of_def Cons_nth_drop_Suc [symmetric])
next
  case Store
  have "length (perf s) \<le> length (subm s)" using assms(1) qinvD(5) [of g s] by (simp add: rinv_def)
  then show ?thesis
    using assms(2) by (auto simp: Store queue_of_def store_tail_def Let_def split: ppc.splits if_splits)
qed (use assms(2) in \<open>auto simp: queue_of_def Let_def bind_res_Inr_iff split: ppc.splits wpc.splits if_splits\<close>)

section \<open>Where the test of \<open>update_index\<close> fails\<close>

definition guarded :: "globals \<Rightarrow> rstate \<Rightarrow> bool" where
  "guarded g s = (case rppc s of
     PChecked i j r \<Rightarrow> tail_entry (hdr (rch s)) \<noteq> MAX_TABLE_ENTRY g - 1 \<longrightarrow> length (subm s) + 1 < pub s + slots g
   | _ \<Rightarrow> True)"

lemma guarded_step:
  assumes "rinv g s" and "MAX_TABLE_LEN g = 1" and "guarded g s" and "rstep g a s = Inr s'"
  shows "guarded g s'"
proof (cases a)
  case Test
  with assms(4) obtain i j r where "rppc s = PFilled i j r" "\<not> wait_full (hdr (rch s))" "s' = s\<lparr>rppc := PChecked i j r\<rparr>"
    by (auto split: ppc.splits if_splits)
  then show ?thesis using single_room [OF assms(1,2)] by (simp add: guarded_def)
qed (use assms(3,4) pub_mono [OF assms(1,4)] in
    \<open>auto simp: guarded_def Let_def store_tail_def bind_res_Inr_iff case_prod_beta split: ppc.splits wpc.splits if_splits\<close>)

lemma reachable_single:
  assumes "reachable g s" and "MAX_TABLE_LEN g = 1" and "\<not> overrun s"
  shows "rinv g s \<and> guarded g s \<and> \<not> torn s"
  using assms
proof (induction rule: reachable.induct)
  case (start ch)
  then show ?case using rinv_init by (simp add: rinit_def guarded_def)
next
  case (step s a s')
  then have i: "rinv g s" "guarded g s" "\<not> torn s" using rstep_mono(1) by blast+
  have "\<not> torn s'" using i(1) step(5) step(3) i(3) by (rule single_not_torn)
  with guarded_step [OF i(1) step(5) i(2) step(3)] rinv_step [OF i(1) step(2,3)] step(6) show ?case by simp
qed

section \<open>Properties\<close>

definition tiny_globals :: globals where
  "tiny_globals = sample_globals\<lparr>MAX_TABLE_ENTRY := 3, MAX_TABLE_LEN := 1\<rparr>"

lemma tiny_globals_simps [simp]:
  "MAX_TABLE_ENTRY tiny_globals = 3" "MAX_TABLE_LEN tiny_globals = 1" "slots tiny_globals = 3"
  by (simp_all add: tiny_globals_def slots_def)

definition call :: "nat \<Rightarrow> request" where
  "call k = (of_nat k, 1, [of_nat k])"

lemma call_call_ok [simp]: "call_ok (call k)"
  by (simp add: call_def call_ok_def)

definition tiny_chan :: chan where
  "tiny_chan = (sample_chan 3 ((sample_hdr 0 0 0 0)\<lparr>flags := ESCA_WORKER_NEED_WAKEUP\<rparr>))\<lparr>npages := 1\<rparr>"

lemma tiny_ready [simp]: "ready_chan tiny_globals tiny_chan"
proof -
  have "ring_ok tiny_globals" by (simp add: ring_ok_def tiny_globals_def)
  moreover have "i = 0" if "0 \<le> i" "i < 1" for i :: int using that by simp
  ultimately show ?thesis
    by (auto simp: ready_chan_def chan_ok_def layout_ok_def mapped_def entries_ok_def tiny_chan_def sample_chan_def
      sample_hdr_def sample_entry_def BENTRY_EMPTY_def read_cell_def)
qed

text \<open>One call made and performed, a second one made during the pass.\<close>

definition tiny_acts :: "act list" where
  "tiny_acts = [Fill (call 0), Test, Store, Busy, Poll, ReadT, ReadE, Exec, Fill (call 1), Test, Store, Busy]"

lemma tiny_run:
  "(case run tiny_globals tiny_acts (rinit tiny_chan) of Inl e \<Rightarrow> False | Inr s \<Rightarrow> \<not> overrun s \<and> \<not> torn s \<and>
     rppc s = PIdle \<and> rwpc s = WRun 0 1 0 \<and> perf s = [call 0] \<and> subm s = [call 0, call 1])"
  by code_simp

lemma tiny_state:
  "\<exists>s. reachable tiny_globals s \<and> \<not> overrun s \<and> \<not> torn s \<and> rppc s = PIdle \<and> rwpc s = WRun 0 1 0 \<and>
     perf s = [call 0] \<and> subm s = [call 0, call 1]"
proof -
  obtain s where s: "run tiny_globals tiny_acts (rinit tiny_chan) = Inr s" "\<not> overrun s" "\<not> torn s" "rppc s = PIdle"
    "rwpc s = WRun 0 1 0" "perf s = [call 0]" "subm s = [call 0, call 1]"
    using tiny_run by (auto split: sum.splits)
  have "reachable tiny_globals s"
    by (rule run_reachable [OF reachable.start [OF tiny_ready] _ s(1)]) (simp add: tiny_acts_def act_ok_def)
  with s show ?thesis by blast
qed

text \<open>
  C4: in every interleaving, as long as the tail has not been moved onto the published head and
  the worker has not read a torn tail, the calls performed are the calls submitted, in order and
  each once, the ring holds the rest, and no step of either side reaches outside the table.
\<close>

theorem ring_fifo:
  assumes "reachable g s" and "\<not> overrun s" and "\<not> torn s"
  shows "perf s @ map (\<lambda>k. req_of (read_cell (rch s) (cell_of g k))) [length (perf s)..<length (subm s)] = subm s \<and>
    length (subm s) < pub s + slots g \<and> (\<forall>a e. rstep g a s = Inl e \<longrightarrow> e = Blocked)"
proof -
  have i: "rinv g s" using assms by (rule reachable_rinv)
  then have q: "qinv g s" by (simp add: rinv_def)
  have "map (\<lambda>k. req_of (read_cell (rch s) (cell_of g k))) [length (perf s)..<length (subm s)] = drop (length (perf s)) (subm s)"
    using qinvD(9) [OF q] by (intro nth_equalityI) simp_all
  then show ?thesis using qinvD(4,7) [OF q] rstep_safe [OF i] by (metis append_take_drop_id)
qed

theorem ring_fifo_witness:
  "\<exists>s. subm s = [call 0, call 1] \<and> req_of (read_cell (rch s) (cell_of tiny_globals 1)) = call 1 \<and>
     (\<forall>a e. rstep tiny_globals a s = Inl e \<longrightarrow> e = Blocked)"
proof -
  obtain s where s: "reachable tiny_globals s" "\<not> overrun s" "\<not> torn s" "perf s = [call 0]" "subm s = [call 0, call 1]"
    using tiny_state by blast
  from ring_fifo [OF s(1-3)] s(4,5) show ?thesis by (auto simp: upt_rec simp del: rstep.simps)
qed

text \<open>
  C3: the ring refines a queue: in a reachable state with neither hazard, moving the tail
  appends the call to the queue of pending calls, performing an entry removes its first element
  and records it as done, and every other step of either side leaves queue and record alone.
\<close>

theorem ring_refines_queue:
  assumes "reachable g s" and "\<not> overrun s" and "\<not> torn s" and "rstep g a s = Inr s'"
  shows "case event_of s a of None \<Rightarrow> queue_of s' = queue_of s | Some e \<Rightarrow> fifo e (queue_of s) = Some (queue_of s')"
  using reachable_rinv [OF assms(1-3)] assms(4) by (rule queue_step)

theorem ring_refines_queue_witness:
  "\<exists>s s'. rstep tiny_globals Pub1 s = Inr s' \<and> queue_of s' = queue_of s \<and> queue_of s = ([call 1], [call 0])"
proof -
  obtain s where s: "reachable tiny_globals s" "\<not> overrun s" "\<not> torn s" "perf s = [call 0]" "subm s = [call 0, call 1]"
    "rwpc s = WRun 0 1 0"
    using tiny_state by blast
  obtain s' where s': "rstep tiny_globals Pub1 s = Inr s'" using s(6) by simp
  from ring_refines_queue [OF s(1-3) s'] have "queue_of s' = queue_of s" by simp
  moreover have "queue_of s = ([call 1], [call 0])" using s by (simp add: queue_of_def)
  ultimately show ?thesis using s' by blast
qed

text \<open>
  On a ring of one table, a process that makes a call only while at least two entries are free
  meets neither hazard, in any interleaving, and its calls are performed in order, each once.
\<close>

theorem roomy_process_safe:
  assumes "roomy g s" and "MAX_TABLE_LEN g = 1"
  shows "\<not> overrun s \<and> \<not> torn s \<and> perf s = take (length (perf s)) (subm s) \<and> length (subm s) < pub s + slots g"
  using roomy_inv [OF assms] qinvD(4,7) [of g s] by (simp add: rinv_def)

theorem roomy_process_safe_witness:
  "\<exists>s. rppc s = PFilled 0 0 (call 0) \<and> roomy tiny_globals s \<and> \<not> overrun s \<and> \<not> torn s"
proof -
  let ?s = "rinit tiny_chan"
  have h: "hdr (rch ?s) = hdr tiny_chan" by (simp add: rinit_def)
  have "reachable tiny_globals ?s" by (rule reachable.start [OF tiny_ready])
  have "(case rstep tiny_globals (Fill (call 0)) ?s of Inl e \<Rightarrow> False | Inr s \<Rightarrow> rppc s = PFilled 0 0 (call 0))"
    by code_simp
  then obtain s where s: "rstep tiny_globals (Fill (call 0)) ?s = Inr s" "rppc s = PFilled 0 0 (call 0)"
    by (auto split: sum.splits simp del: rstep.simps)
  have "roomy tiny_globals s"
    by (rule roomy.step [OF roomy.start [OF tiny_ready] _ s(1)]) (simp_all add: act_ok_def rinit_def)
  with s(2) roomy_process_safe [of tiny_globals s] show ?thesis by auto
qed

text \<open>
  C14: on a ring of one table the worker never reads a torn tail before the ring is overrun, and
  the only step that can overrun it is the store that resets \<open>tail_entry\<close> behind the last entry,
  when exactly one entry was free: there \<open>update_index\<close> compares the tail with no head at all.
\<close>

theorem overrun_only_at_last_entry:
  assumes "reachable g s" and "MAX_TABLE_LEN g = 1" and "\<not> overrun s" and "rstep g a s = Inr s'"
  shows "\<not> torn s' \<and> (overrun s' \<longrightarrow> a = Store \<and> tail_entry (hdr (rch s)) = MAX_TABLE_ENTRY g - 1 \<and>
    length (subm s) + 1 = pub s + slots g)"
proof -
  have i: "rinv g s" "guarded g s" "\<not> torn s" using reachable_single [OF assms(1-3)] by simp_all
  have "length (subm s) < pub s + slots g" using i(1) qinvD(7) [of g s] by (simp add: rinv_def)
  then have "overrun s' \<longrightarrow> a = Store \<and> tail_entry (hdr (rch s)) = MAX_TABLE_ENTRY g - 1 \<and>
    length (subm s) + 1 = pub s + slots g"
    using i(2) assms(3,4)
    by (cases a; auto simp: guarded_def store_tail_def Let_def bind_res_Inr_iff case_prod_beta split: ppc.splits wpc.splits if_splits)
  with single_not_torn [OF i(1) assms(2,4) i(3)] show ?thesis by blast
qed

theorem overrun_only_at_last_entry_witness:
  "\<exists>s s'. rstep tiny_globals (Fill (call 2)) s = Inr s' \<and> \<not> torn s' \<and> \<not> overrun s'"
proof -
  obtain s where s: "reachable tiny_globals s" "\<not> overrun s" "\<not> torn s" "rppc s = PIdle"
    using tiny_state by blast
  have "rinv tiny_globals s" using s(1-3) by (rule reachable_rinv)
  then have "chan_ok tiny_globals (rch s)" "tail_is tiny_globals s (length (subm s))"
    using s(4) by (simp_all add: rinv_def qinv_def pinv_def Let_def)
  then obtain s' where s': "rstep tiny_globals (Fill (call 2)) s = Inr s'"
    using s(4) cells_at(1) by (fastforce simp: Let_def)
  from overrun_only_at_last_entry [OF s(1) _ s(2) s'] s' show ?thesis by auto
qed



end
