(* ===== verification/Ring_Hazards.thy ===== *)
theory Ring_Hazards
  imports Ring_Safety
begin

text \<open>
  Runs in which the ring is not a queue: a full ring that the test of \<open>update_index\<close> lets through,
  a tail read between its two stores, and an entry marked busy after it was performed.
\<close>

section \<open>Whole calls and whole passes\<close>

text \<open>A call made while nothing else moves, when the test of \<open>update_index\<close> passes.\<close>

definition call_acts :: "globals \<Rightarrow> rstate \<Rightarrow> request \<Rightarrow> act list" where
  "call_acts g s r = (if tail_entry (hdr (rch s)) = MAX_TABLE_ENTRY g - 1
     then [Fill r, Test, Store, Store2, Busy] else [Fill r, Test, Store, Busy])"

lemma whole_call:
  assumes c: "chan_ok g (rch s)" and pc: "rppc s = PIdle" and t: "tail_is g s k" and w: "\<not> wait_full (hdr (rch s))"
  shows "\<exists>s' e. run g (call_acts g s r) s = Inr s' \<and> rppc s' = PIdle \<and> tail_is g s' (Suc k) \<and> rwpc s' = rwpc s \<and>
    subm s' = subm s @ [r] \<and> perf s' = perf s \<and> pub s' = pub s \<and> chan_ok g (rch s') \<and>
    head_table (hdr (rch s')) = head_table (hdr (rch s)) \<and> head_entry (hdr (rch s')) = head_entry (hdr (rch s)) \<and>
    overrun s' = (overrun s \<or> length (subm s) + 1 \<ge> pub s + slots g) \<and> torn s' = torn s \<and>
    e = (fill_entry r (read_cell (rch s) (cell_of g k)))\<lparr>rstatus := BENTRY_BUSY\<rparr> \<and>
    (\<forall>x. read_cell (rch s') x = (if x = cell_of g k then e else read_cell (rch s) x))"
proof -
  note rg = chan_ok_ring [OF c]
  note u = cells_at(1) [OF c t] and n = cell_next_split [OF rg, of k] and sh = cell_short [OF rg, of "Suc k"]
  have f: "tail_table (hdr (rch s)) = fst (cell_of g k)" "tail_entry (hdr (rch s)) = snd (cell_of g k)"
    using t [symmetric] by simp_all
  have c2: "chan_ok g (write_cell x e (rch s)\<lparr>hdr := h\<rparr>)" if "tables h = tables (hdr (rch s))" "user_tables h = user_tables (hdr (rch s))" for x e h
    using that c by (subst chan_ok_hdr) simp_all
  have u2: "user_cell (write_cell x e (rch s)\<lparr>hdr := h\<rparr>) (fst (cell_of g k)) (snd (cell_of g k)) = Inr (cell_of g k)"
    if "tables h = tables (hdr (rch s))" "user_tables h = user_tables (hdr (rch s))" for x e h
    using cells_at(1) [OF c2 [OF that], of "fst (cell_of g k)" "snd (cell_of g k)" k] by simp
  show ?thesis
  proof (cases "snd (cell_of g k) = MAX_TABLE_ENTRY g - 1")
    case True
    then show ?thesis
      using u w n sh c2 u2
      by (simp add: call_acts_def run_Cons pc f store_tail_def set_hdr_def Let_def read_write_cell) (simp add: run_def read_write_cell)
  next
    case False
    then show ?thesis
      using u w n sh c2 u2
      by (simp add: call_acts_def run_Cons pc f store_tail_def set_hdr_def Let_def read_write_cell) (simp add: run_def read_write_cell f)
  qed
qed

lemma call_acts_ok: "call_ok r \<Longrightarrow> list_all act_ok (call_acts g s r)"
  by (simp add: call_acts_def act_ok_def)

lemma head_start_open: "chan_ok g (rch s) \<Longrightarrow> tail_is g s k \<Longrightarrow> head_entry (hdr (rch s)) = 0 \<Longrightarrow> \<not> wait_full (hdr (rch s))"
  using cell_ok(1) [OF chan_ok_ring, of g "rch s" k] by (auto simp: wait_full_def idx_ok_def dest: sym)

text \<open>Calls made from the start while the worker does nothing: the ring is filled, and refilled.\<close>

definition filled :: "globals \<Rightarrow> request list \<Rightarrow> rstate \<Rightarrow> bool" where
  "filled g rs s \<longleftrightarrow> reachable g s \<and> rppc s = PIdle \<and> rwpc s = WPoll \<and> subm s = rs \<and> perf s = [] \<and> pub s = 0 \<and>
     \<not> torn s \<and> overrun s = (slots g \<le> length rs) \<and> chan_ok g (rch s) \<and> entries_ok (rch s) \<and>
     tail_is g s (length rs) \<and> head_is g s 0 \<and>
     (\<forall>k < length rs. length rs \<le> k + slots g \<longrightarrow> req_of (read_cell (rch s) (cell_of g k)) = rs ! k \<and>
        rstatus (read_cell (rch s) (cell_of g k)) = BENTRY_BUSY)"

lemma cell_0: "cell_of g 0 = (0, 0)"
  by (simp add: cell_of_def slot_cell_def)

lemma filled_call:
  assumes "filled g rs s" and "call_ok r"
  shows "\<exists>s'. filled g (rs @ [r]) s'"
proof -
  let ?k = "length rs" and ?c = "cell_of g (length rs)"
  have F: "reachable g s" "rppc s = PIdle" "rwpc s = WPoll" "subm s = rs" "perf s = []" "pub s = 0" "\<not> torn s"
    "overrun s = (slots g \<le> ?k)" "chan_ok g (rch s)" "entries_ok (rch s)" "tail_is g s ?k" "head_is g s 0"
    using assms(1) by (simp_all add: filled_def)
  have old: "req_of (read_cell (rch s) (cell_of g k)) = rs ! k \<and> rstatus (read_cell (rch s) (cell_of g k)) = BENTRY_BUSY"
    if "k < ?k" "?k \<le> k + slots g" for k
    using assms(1) that unfolding filled_def by blast
  note rg = chan_ok_ring [OF F(9)]
  have "\<not> wait_full (hdr (rch s))" using head_start_open [OF F(9,11)] F(12) by (simp add: cell_0)
  from whole_call [OF F(9,2,11) this, of r] obtain s' where S: "run g (call_acts g s r) s = Inr s'"
    "rppc s' = PIdle" "tail_is g s' (Suc ?k)" "rwpc s' = WPoll" "subm s' = rs @ [r]" "perf s' = []" "pub s' = 0"
    "chan_ok g (rch s')" "head_is g s' 0" "overrun s' = (slots g \<le> Suc ?k)" "\<not> torn s'"
    and rd: "\<And>x. read_cell (rch s') x = (if x = ?c
       then (fill_entry r (read_cell (rch s) ?c))\<lparr>rstatus := BENTRY_BUSY\<rparr> else read_cell (rch s) x)"
    using F by auto
  note fr = fill_req [OF assms(2) entries_okD [OF F(10), of ?c]]
  have "reachable g s'" using F(1) call_acts_ok [OF assms(2)] S(1) by (rule run_reachable)
  moreover have "entries_ok (rch s')"
    using F(10) fr(2) by (simp add: entries_ok_def rd del: split_paired_All)
  moreover have "req_of (read_cell (rch s') (cell_of g k)) = (rs @ [r]) ! k \<and>
      rstatus (read_cell (rch s') (cell_of g k)) = BENTRY_BUSY"
    if "k < Suc ?k" "Suc ?k \<le> k + slots g" for k
  proof (cases "k = ?k")
    case True
    then show ?thesis using fr(1) by (simp add: rd req_of_def)
  next
    case False
    with that have "cell_of g k \<noteq> ?c" by (intro cell_neq [OF rg]) simp_all
    then show ?thesis using that False old [of k] by (simp add: rd nth_append)
  qed
  ultimately have "filled g (rs @ [r]) s'" using S unfolding filled_def by simp
  then show ?thesis ..
qed

lemma filled_all:
  assumes "ready_chan g ch" and "list_all call_ok rs"
  shows "\<exists>s. filled g rs s"
  using assms(2)
proof (induction rs rule: rev_induct)
  case Nil
  have "rinv g (rinit ch)" "reachable g (rinit ch)" using assms(1) by (auto intro: rinv_init reachable.start)
  then have "filled g [] (rinit ch)"
    using qinvD(1-3) [of g "rinit ch"] ring_okD(6) [of g]
    by (simp add: filled_def rinit_def rinv_def pinv_def winv_def Let_def)
  then show ?case ..
next
  case (snoc r rs)
  then obtain s where "filled g rs s" "call_ok r" by auto
  then show ?case by (rule filled_call)
qed

text \<open>A pass over one entry, from polling to polling.\<close>

lemma pass_of_one:
  assumes c: "chan_ok g (rch s)" and pc: "rwpc s = WPoll" and h: "head_is g s k" and t: "tail_is g s l"
    and l: "l mod slots g = Suc k mod slots g" "1 < slots g"
    and b: "rstatus (read_cell (rch s) (cell_of g k)) = BENTRY_BUSY"
  shows "\<exists>s'. (wstep g)\<^sup>*\<^sup>* s s' \<and> rwpc s' = WPoll \<and> subm s' = subm s \<and> rppc s' = rppc s \<and>
    perf s' = perf s @ [req_of (read_cell (rch s) (cell_of g k))]"
proof -
  note rg = chan_ok_ring [OF c]
  let ?i = "fst (cell_of g k)" and ?j = "snd (cell_of g k)" and ?h = "hdr (rch s)"
  have f: "head_table ?h = ?i" "head_entry ?h = ?j" "tail_table ?h = fst (cell_of g l)" "tail_entry ?h = snd (cell_of g l)"
    using h [symmetric] t [symmetric] by simp_all
  have "unat (submitted_count g ?h ?i ?j) = Suc k - k"
  proof (rule submitted_count_distance [OF rg])
    show "tail_pos g ?h = Suc k mod slots g" using cell_ok(2) [OF rg, of l] l(1) by (simp add: f)
  qed (use cell_ok [OF rg, of k] cell_ok(1) [OF rg, of l] l f in auto)
  then have n: "submitted_count g ?h ?i ?j = 1" by (simp add: word_unat_eq_iff)
  have hh: "?h\<lparr>tail_table := fst (cell_of g l)\<rparr> = ?h" by (simp add: f(3) [symmetric])
  have "BENTRY_BUSY \<noteq> BENTRY_EMPTY" by (simp add: BENTRY_BUSY_def BENTRY_EMPTY_def)
  then obtain s' where r: "run g [Poll, ReadT, ReadE, Exec, Pub1, Pub2] s = Inr s'" and
    s': "rwpc s' = WPoll \<and> subm s' = subm s \<and> rppc s' = rppc s \<and> perf s' = perf s @ [req_of (read_cell (rch s) (cell_of g k))]"
    using cells_at(2) [OF c h] b n
    by (simp add: run_Cons pc f hh Let_def case_prod_beta) (simp add: run_def)
  have "(wstep g)\<^sup>*\<^sup>* s s'" by (rule run_wsteps [OF _ r]) (simp add: worker_act_def)
  with s' show ?thesis by blast
qed

text \<open>Entries performed, whatever they hold.\<close>

lemma exec_many:
  assumes "chan_ok g (rch s)" and "rwpc s = WRun i j n" and "idx_ok g i j" and "k \<le> unat n"
  shows "\<exists>s'. run g (replicate k Exec) s = Inr s' \<and> length (perf s') = length (perf s) + k \<and>
    subm s' = subm s \<and> overrun s' = overrun s"
  using assms
proof (induction k arbitrary: s i j n)
  case 0
  then show ?case by (simp add: run_def)
next
  case (Suc k)
  have n: "n \<noteq> 0" using Suc(5) by auto
  have m: "unat (n - 1) = unat n - 1" using unat_minus_one [OF n] .
  obtain i' j' where nx: "worker_next g (i, j) = (i', j')" by force
  have ok: "idx_ok g i' j'" using worker_next_ok [OF chan_ok_ring [OF Suc(2)] Suc(4)] nx by simp
  obtain c where kc: "kernel_cell (rch s) i j = Inr c" using chan_cells [OF Suc(2,4)] by auto
  define s1 where "s1 = s\<lparr>rch := write_cell c ((read_cell (rch s) c)\<lparr>rstatus := BENTRY_EMPTY\<rparr>) (rch s),
    rwpc := WRun i' j' (n - 1), perf := perf s @ [req_of (read_cell (rch s) c)]\<rparr>"
  have st: "rstep g Exec s = Inr s1" using n by (simp add: Suc(3) kc nx s1_def Let_def)
  have "\<exists>s'. run g (replicate k Exec) s1 = Inr s' \<and> length (perf s') = length (perf s1) + k \<and>
    subm s' = subm s1 \<and> overrun s' = overrun s1"
    using Suc(5) m by (intro Suc(1) [where i = i' and j = j' and n = "n - 1"]) (simp_all add: s1_def Suc(2) ok)
  then show ?case using st by (simp add: run_Cons s1_def del: rstep.simps)
qed

text \<open>A call made between passes, with room.\<close>

definition resting :: "globals \<Rightarrow> request list \<Rightarrow> rstate \<Rightarrow> bool" where
  "resting g r s \<longleftrightarrow> reachable g s \<and> calm g r s \<and> rwpc s = WPoll"

lemma resting_call:
  assumes "resting g rs s" and "call_ok r" and "\<not> wait_full (hdr (rch s))" and "length rs + 1 < length (perf s) + slots g"
  shows "\<exists>s'. resting g (rs @ [r]) s' \<and> perf s' = perf s"
proof -
  have c: "calm g rs s" and w: "rwpc s = WPoll" and R: "reachable g s" using assms(1) by (simp_all add: resting_def)
  note D = calmD [OF c]
  have p: "rppc s = PIdle" "\<not> overrun s" "\<not> torn s" using c by (simp_all add: calm_def)
  have pb: "pub s = length (perf s)" using D(2) w by (simp add: winv_def Let_def)
  from whole_call [OF D(4) p(1) D(5) assms(3), of r] obtain s' where S: "run g (call_acts g s r) s = Inr s'"
    "rppc s' = PIdle" "rwpc s' = WPoll" "subm s' = rs @ [r]" "perf s' = perf s" "\<not> overrun s'" "\<not> torn s'"
    using assms(4) pb p w D(6) by auto
  have R': "reachable g s'" using R call_acts_ok [OF assms(2)] S(1) by (rule run_reachable)
  have "rinv g s'" using R' S(6,7) by (rule reachable_rinv)
  with R' S show ?thesis unfolding resting_def calm_def by blast
qed

lemma first_table_cells:
  assumes "ring_ok g" and "int k < MAX_TABLE_ENTRY g"
  shows "cell_of g k = (0, int k)"
proof -
  have "MAX_TABLE_ENTRY g \<le> int (slots g)"
    using ring_okD(1,2,8) [OF assms(1)] by (simp add: mult_le_cancel_left1)
  then have "k mod slots g = k" using assms(2) by simp
  then show ?thesis using assms(2) by (simp add: cell_of_def slot_cell_def)
qed

text \<open>All but the last entry of the first table filled, the first call done.\<close>

lemma resting_first:
  assumes "ready_chan g ch" and "call_ok r" and "1 < slots g"
  shows "\<exists>s. resting g [r] s \<and> perf s = [r]"
proof -
  have rg: "ring_ok g" using assms(1) chan_ok_ring by (auto simp: ready_chan_def)
  have i: "rinv g (rinit ch)" "reachable g (rinit ch)" using assms(1) by (auto intro: rinv_init reachable.start)
  have b: "resting g [] (rinit ch)" using i by (simp add: resting_def calm_def rinit_def)
  have "\<not> wait_full (hdr (rch (rinit ch)))" using assms(1) by (simp add: rinit_def ready_chan_def wait_full_def)
  from resting_call [OF b assms(2) this] assms(3) obtain s1 where 1: "resting g [r] s1"
    by (auto simp: rinit_def)
  then obtain s2 where 2: "(wstep g)\<^sup>*\<^sup>* s1 s2" "calm g [r] s2" "rwpc s2 = WPoll" "perf s2 = [r]"
    using calm_poll by (metis resting_def)
  have "reachable g s2" using 2(1) 1 reachable_wsteps by (metis resting_def)
  with 2 show ?thesis by (auto simp: resting_def)
qed

lemma resting_many:
  assumes "resting g [r] s" and "perf s = [r]" and "list_all call_ok rs"
    and "1 + int (length rs) < MAX_TABLE_ENTRY g"
  shows "\<exists>s'. resting g (r # rs) s' \<and> perf s' = [r]"
  using assms(3,4)
proof (induction rs rule: rev_induct)
  case Nil
  then show ?case using assms(1,2) by auto
next
  case (snoc x rs)
  then obtain s1 where s1: "resting g (r # rs) s1" "perf s1 = [r]" by auto
  have c: "calm g (r # rs) s1" using s1(1) by (simp add: resting_def)
  note D = calmD [OF c]
  have E: "int (length (r # rs)) < MAX_TABLE_ENTRY g" using snoc(3) by simp
  have "MAX_TABLE_ENTRY g \<le> int (slots g)"
    using ring_okD(1,2,8) [OF D(3)] by (simp add: mult_le_cancel_left1)
  then have room: "length (r # rs) + 1 < length (perf s1) + slots g" using snoc(3) s1(2) by simp
  have "head_is g s1 1" using D(2) s1 by (simp add: winv_def Let_def resting_def)
  then have "\<not> wait_full (hdr (rch s1))"
    using D(5) first_table_cells [OF D(3) E] first_table_cells [OF D(3), of 1] snoc(3)
    by (auto simp: wait_full_def)
  from resting_call [OF s1(1) _ this room] snoc(2) s1(2) show ?case by auto
qed

text \<open>The tail reset and its table not yet moved: the worker counts nearly a whole ring.\<close>

lemma torn_count:
  assumes "resting g rs s" and "perf s = [r]" and "int (length rs) = MAX_TABLE_ENTRY g - 1" and "2 \<le> length rs"
    and "call_ok x"
  shows "\<exists>s' n. reachable g s' \<and> rwpc s' = WRun 0 1 n \<and> unat n = slots g - 1 \<and> chan_ok g (rch s') \<and>
    subm s' = rs @ [x] \<and> perf s' = [r] \<and> (slots g > length rs \<longrightarrow> \<not> overrun s')"
proof -
  have R: "reachable g s" and c: "calm g rs s" and w: "rwpc s = WPoll" using assms(1) by (simp_all add: resting_def)
  note D = calmD [OF c]
  have p: "rppc s = PIdle" "\<not> overrun s" "\<not> torn s" using c by (simp_all add: calm_def)
  have W: "head_is g s 1" "pub s = 1" using D(2) w assms(2) by (simp_all add: winv_def Let_def)
  have h: "head_table (hdr (rch s)) = 0" "head_entry (hdr (rch s)) = 1"
    using W(1) first_table_cells [OF D(3), of 1] assms(3,4) by simp_all
  have t: "tail_table (hdr (rch s)) = 0" "tail_entry (hdr (rch s)) = MAX_TABLE_ENTRY g - 1"
    using D(5) first_table_cells [OF D(3), of "length rs"] assms(3) by simp_all
  have c1: "cell_of g 1 = (0, 1)" using first_table_cells [OF D(3), of 1] assms(3,4) by simp
  have ct: "cell_of g (length rs) = (0, MAX_TABLE_ENTRY g - 1)" using t D(5) by simp
  have u: "user_cell (rch s) 0 (MAX_TABLE_ENTRY g - 1) = Inr (0, MAX_TABLE_ENTRY g - 1)"
    using cells_at(1) [OF D(4) ct [symmetric]] ct by simp
  have kc: "kernel_cell ((write_cell y e (rch s))\<lparr>hdr := (hdr (rch s))\<lparr>tail_entry := 0\<rparr>\<rparr>) 0 1 = Inr (0, 1)" for y e
  proof -
    have "chan_ok g ((write_cell y e (rch s))\<lparr>hdr := (hdr (rch s))\<lparr>tail_entry := 0\<rparr>\<rparr>)"
      by (subst chan_ok_hdr) (use D(4) in simp_all)
    from cells_at(2) [OF this c1 [symmetric]] show ?thesis using c1 by simp
  qed
  have co: "chan_ok g ((write_cell y e (rch s))\<lparr>hdr := (hdr (rch s))\<lparr>tail_entry := 0\<rparr>\<rparr>)" for y e
    by (subst chan_ok_hdr) (use D(4) in simp_all)
  have b: "rstatus (read_cell (rch s) (0, 1)) = BENTRY_BUSY" using D(7) [of 1] c1 assms(2,4) by simp
  have ne: "BENTRY_BUSY \<noteq> BENTRY_EMPTY" "MAX_TABLE_ENTRY g - 1 \<noteq> 1" "MAX_TABLE_ENTRY g \<noteq> 1"
    using assms(3,4) by (simp_all add: BENTRY_BUSY_def BENTRY_EMPTY_def)
  let ?h = "(hdr (rch s))\<lparr>tail_entry := 0\<rparr>"
  have "unat (submitted_count g ?h 0 1) = slots g - 1"
  proof (rule submitted_count_distance [OF D(3)])
    show "idx_ok g 0 1" "spos g 0 1 = 1 mod slots g" using cell_ok [OF D(3), of 1] c1 by simp_all
    show "idx_ok g (tail_table ?h) (tail_entry ?h)" using cell_ok(1) [OF D(3), of 0] t by (simp add: cell_0)
    show "tail_pos g ?h = slots g mod slots g" using cell_ok(2) [OF D(3), of 0] t by (simp add: cell_0)
  qed (use ring_okD(6) [OF D(3)] in simp_all)
  moreover have hh: "(hdr (rch s))\<lparr>tail_entry := 0, tail_table := 0\<rparr> = ?h"
    by (cases "hdr (rch s)") (use t in simp)
  moreover obtain s' where "run g [Fill x, Test, Store, Poll, ReadT, ReadE] s = Inr s'"
    "rwpc s' = WRun 0 1 (submitted_count g ?h 0 1)" "chan_ok g (rch s')" "subm s' = rs @ [x]" "perf s' = [r]"
    "slots g > length rs \<longrightarrow> \<not> overrun s'"
    using u kc co b ne p w W(2) D(6) assms(2)
    by (simp add: run_Cons h t hh wait_full_def store_tail_def set_hdr_def Let_def read_write_cell) (simp add: run_def)
  moreover have "list_all act_ok [Fill x, Test, Store, Poll, ReadT, ReadE]" using assms(5) by (simp add: act_ok_def)
  ultimately show ?thesis using run_reachable [OF R] by blast
qed

text \<open>With nothing pending and the entry at the head marked, a pass leads back to where it began.\<close>

definition idle_pass :: "act list" where
  "idle_pass = [Poll, ReadT, ReadE, Pub1, Pub2]"

lemma idle_pass_loops:
  assumes "calm g r s" and "rwpc s = WPoll" and "perf s = r"
    and "rstatus (read_cell (rch s) (cell_of g (length r))) = BENTRY_BUSY"
  shows "run g idle_pass s = Inr s"
proof -
  note D = calmD [OF assms(1)]
  let ?c = "cell_of g (length r)" and ?h = "hdr (rch s)"
  have p: "pinv g s" and n: "\<not> torn s" using assms(1) by (simp_all add: calm_def rinv_def)
  have W: "head_is g s (length r)" "pub s = length r"
    using D(2) assms(2,3) by (simp_all add: winv_def Let_def)
  have f: "head_table ?h = fst ?c" "head_entry ?h = snd ?c" "tail_table ?h = fst ?c" "tail_entry ?h = snd ?c"
    using W(1) [symmetric] D(5) [symmetric] by simp_all
  have hh: "?h\<lparr>tail_table := fst ?c\<rparr> = ?h" "?h\<lparr>head_table := fst ?c\<rparr> = ?h" "?h\<lparr>head_entry := snd ?c\<rparr> = ?h"
    using f by (cases ?h; simp)+
  have t: "tail_pos g ?h = length r mod slots g" using cell_ok(2) [OF D(3), of "length r"] by (simp add: f)
  have "unat (submitted_count g ?h (fst ?c) (snd ?c)) = length r - length r"
    by (rule submitted_count_distance [OF D(3)])
      (use cell_ok [OF D(3), of "length r"] t ring_okD(6) [OF D(3)] f in simp_all)
  then have z: "submitted_count g ?h (fst ?c) (snd ?c) = 0" by (simp add: unat_eq_0)
  have "BENTRY_BUSY \<noteq> BENTRY_EMPTY" by (simp add: BENTRY_BUSY_def BENTRY_EMPTY_def)
  then show ?thesis
    using cells_at(2) [OF D(4) W(1)] assms(2-4) n t D(6) W(2) cell_short [OF D(3), of "length r"] z
    by (simp add: idle_pass_def run_Cons set_hdr_def f hh Let_def) (auto simp: run_def intro!: rstate.equality)
qed

text \<open>
  A call marked busy only after the worker, in the middle of a pass, has performed it; then the
  calls that bring the ring round to its entry again.
\<close>

definition late_mark :: "act list" where
  "late_mark =
     [Fill (call 0), Test, Store, Busy, Poll, Fill (call 1), Test, Store, ReadT, ReadE, Exec, Exec, Busy, Pub1, Pub2,
      Fill (call 2), Test, Store, Store2, Busy, Poll, ReadT, ReadE, Exec, Pub1, Pub2,
      Fill (call 3), Test, Store, Busy, Poll, ReadT, ReadE, Exec, Pub1, Pub2]"

lemma tiny_cells:
  assumes "psz ch = 4096" and "npages ch = 1" and "tables (hdr ch) = tables (hdr tiny_chan)"
    and "user_tables (hdr ch) = user_tables (hdr tiny_chan)" and "0 \<le> j" and "j < 3"
  shows "user_cell ch 0 j = Inr (0, j)" "kernel_cell ch 0 j = Inr (0, j)"
  using assms chan_cells [of tiny_globals ch 0 j]
  by (auto simp: chan_ok_def mapped_def layout_ok_def ring_ok_def idx_ok_def tiny_globals_def tiny_chan_def sample_chan_def
      sample_globals_def slots_def)

lemma write_cell_shape [simp]: "psz (write_cell c e ch) = psz ch" "npages (write_cell c e ch) = npages ch"
  by (cases c, simp add: write_cell_def)+

lemmas eval_steps = run_Cons tiny_cells rinit_def wait_full_def store_tail_def set_hdr_def Let_def read_write_cell
  next_table_def worker_next_def submitted_count_def slot_index_def short_of_def spos_def tiny_chan_def sample_chan_def
  sample_hdr_def BENTRY_BUSY_def BENTRY_EMPTY_def

lemma late_mark_run:
  "(case run tiny_globals late_mark (rinit tiny_chan) of Inl e \<Rightarrow> False | Inr s \<Rightarrow> \<not> overrun s \<and> \<not> torn s \<and>
     rppc s = PIdle \<and> rwpc s = WPoll \<and> perf s = map call [0, 1, 2, 3] \<and> subm s = map call [0, 1, 2, 3] \<and>
     rstatus (read_cell (rch s) (0, 1)) = BENTRY_BUSY)"
  by (simp add: late_mark_def eval_steps)
    (simp add: run_def read_write_cell BENTRY_BUSY_def,
      simp add: read_cell_def sample_entry_def fill_entry_def req_of_def call_def)

section \<open>Properties\<close>

text \<open>
  C15: a full ring is not detected: while the worker has not moved the head off the first entry,
  one call more than the ring has entries goes through without waiting; the worker's pass then
  performs the last call only and takes everything before it for done.
\<close>

theorem full_ring_not_detected:
  assumes "ready_chan g ch" and "list_all call_ok rs" and "length rs = slots g + 1" and "1 < slots g"
  shows "\<exists>s s'. reachable g s \<and> rppc s = PIdle \<and> subm s = rs \<and> perf s = [] \<and>
    (wstep g)\<^sup>*\<^sup>* s s' \<and> rwpc s' = WPoll \<and> subm s' = rs \<and> perf s' = [last rs]"
proof -
  obtain s where s: "filled g rs s" using filled_all [OF assms(1,2)] by blast
  have F: "reachable g s" "rppc s = PIdle" "rwpc s = WPoll" "subm s = rs" "perf s = []" "chan_ok g (rch s)"
    "tail_is g s (length rs)" "head_is g s 0"
    using s by (simp_all add: filled_def)
  have c: "cell_of g (slots g) = cell_of g 0" by (simp add: cell_of_def)
  have e: "req_of (read_cell (rch s) (cell_of g 0)) = last rs" "rstatus (read_cell (rch s) (cell_of g 0)) = BENTRY_BUSY"
    using s assms(3,4) last_conv_nth [of rs] c unfolding filled_def
    by (metis add_diff_cancel_right' le_add2 length_0_conv less_add_one add_is_0 one_neq_zero less_imp_le_nat add.commute
        add_le_cancel_right)+
  have "length rs mod slots g = Suc 0 mod slots g" by (simp only: assms(3) mod_add_self1 One_nat_def)
  from pass_of_one [OF F(6,3,8,7) this assms(4) e(2)] F(4,5) e(1)
  obtain s' where "(wstep g)\<^sup>*\<^sup>* s s'" "rwpc s' = WPoll" "subm s' = rs" "perf s' = [last rs]" by auto
  with F show ?thesis by blast
qed

theorem full_ring_not_detected_witness:
  "\<exists>s s'. reachable tiny_globals s \<and> subm s = map call [0, 1, 2, 3] \<and> (wstep tiny_globals)\<^sup>*\<^sup>* s s' \<and> perf s' = [call 3]"
proof -
  have "\<exists>s s'. reachable tiny_globals s \<and> rppc s = PIdle \<and> subm s = map call [0, 1, 2, 3] \<and> perf s = [] \<and>
    (wstep tiny_globals)\<^sup>*\<^sup>* s s' \<and> rwpc s' = WPoll \<and> subm s' = map call [0, 1, 2, 3] \<and> perf s' = [last (map call [0, 1, 2, 3])]"
    by (rule full_ring_not_detected [OF tiny_ready]) simp_all
  then show ?thesis by auto
qed

text \<open>
  C16: on a ring of several tables the worker can read the tail between the two stores that move it
  to the next table; it then performs more entries than were submitted.
\<close>

theorem torn_tail_runs_ahead:
  assumes "ready_chan g ch" and "2 \<le> MAX_TABLE_LEN g" and "3 \<le> MAX_TABLE_ENTRY g"
  shows "\<exists>s. reachable g s \<and> \<not> overrun s \<and> int (length (subm s)) = MAX_TABLE_ENTRY g \<and> length (perf s) = slots g \<and>
    length (subm s) < length (perf s)"
proof -
  have rg: "ring_ok g" using assms(1) chan_ok_ring by (auto simp: ready_chan_def)
  have N: "int (slots g) \<ge> 2 * MAX_TABLE_ENTRY g"
    using assms(2,3) ring_okD(8) [OF rg] mult_left_mono [of 2 "MAX_TABLE_LEN g" "MAX_TABLE_ENTRY g"] by simp
  let ?rs = "replicate (nat (MAX_TABLE_ENTRY g) - 2) (call 0)"
  have l: "int (length ?rs) = MAX_TABLE_ENTRY g - 2" using assms(3) by simp
  have l2: "2 \<le> length (call 0 # ?rs)" using l assms(3) by simp
  have ok: "list_all call_ok ?rs" by (simp add: list_all_length)
  obtain s1 where s1: "resting g [call 0] s1" "perf s1 = [call 0]"
    using resting_first [OF assms(1), of "call 0"] N assms(3) by auto
  obtain s2 where s2: "resting g (call 0 # ?rs) s2" "perf s2 = [call 0]"
    using resting_many [OF s1 ok] l by auto
  obtain s3 n where s3: "reachable g s3" "rwpc s3 = WRun 0 1 n" "unat n = slots g - 1" "chan_ok g (rch s3)"
    "subm s3 = (call 0 # ?rs) @ [call 0]" "perf s3 = [call 0]" "slots g > length (call 0 # ?rs) \<longrightarrow> \<not> overrun s3"
    using torn_count [OF s2 _ l2 call_call_ok, of 0] l by auto
  have i: "idx_ok g 0 1" using assms(2,3) by (simp add: idx_ok_def)
  obtain s4 where s4: "run g (replicate (slots g - 1) Exec) s3 = Inr s4" "length (perf s4) = length (perf s3) + (slots g - 1)"
    "subm s4 = subm s3" "overrun s4 = overrun s3"
    using exec_many [OF s3(4,2) i, of "slots g - 1"] s3(3) by auto
  have "reachable g s4" by (rule run_reachable [OF s3(1) _ s4(1)]) (simp add: list_all_length act_ok_def)
  moreover have "length (subm s4) = length ?rs + 2" "length (perf s4) = 1 + (slots g - 1)"
    using s4(2,3) s3(5,6) by simp_all
  moreover have "slots g > length (call 0 # ?rs)" using l N assms(3) by simp
  moreover have "int (length (subm s4)) = MAX_TABLE_ENTRY g" "length (perf s4) = slots g" "length (subm s4) < length (perf s4)"
    using calculation(2-4) l N assms(3) by linarith+
  ultimately show ?thesis using s4(4) s3(7) by blast
qed

theorem torn_tail_runs_ahead_witness:
  "\<exists>s. reachable sample_globals s \<and> \<not> overrun s \<and> length (subm s) = 64 \<and> length (perf s) = 128"
proof -
  let ?ch = "sample_chan 64 ((sample_hdr 0 0 0 0)\<lparr>flags := ESCA_WORKER_NEED_WAKEUP\<rparr>)"
  have "ready_chan sample_globals ?ch" unfolding ready_chan_def
    by (intro conjI sample_chan_ok)
      (auto simp: entries_ok_def sample_chan_def sample_hdr_def sample_entry_def BENTRY_EMPTY_def read_cell_def)
  from torn_tail_runs_ahead [OF this] show ?thesis by auto
qed

text \<open>
  A call performed before its entry is marked busy leaves the mark behind; when the head comes
  round to it with nothing pending, the worker goes round its loop for ever, neither performing
  anything nor falling asleep.
\<close>

theorem late_mark_spins:
  "\<exists>s. reachable tiny_globals s \<and> \<not> overrun s \<and> \<not> torn s \<and> rppc s = PIdle \<and> perf s = subm s \<and>
     run tiny_globals idle_pass s = Inr s"
proof -
  obtain s where s: "run tiny_globals late_mark (rinit tiny_chan) = Inr s" "\<not> overrun s" "\<not> torn s" "rppc s = PIdle"
    "rwpc s = WPoll" "perf s = map call [0, 1, 2, 3]" "subm s = map call [0, 1, 2, 3]"
    "rstatus (read_cell (rch s) (0, 1)) = BENTRY_BUSY"
    using late_mark_run by (auto split: sum.splits)
  have r: "reachable tiny_globals s"
    by (rule run_reachable [OF reachable.start [OF tiny_ready] _ s(1)]) (simp add: late_mark_def act_ok_def)
  have c: "calm tiny_globals (subm s) s" using reachable_rinv [OF r s(2,3)] s by (simp add: calm_def)
  have "cell_of tiny_globals (length (subm s)) = (0, 1)" by (simp add: s(7) cell_of_def slot_cell_def)
  then have "run tiny_globals idle_pass s = Inr s" using s by (intro idle_pass_loops [OF c]) simp_all
  moreover have "perf s = subm s" using s(6,7) by simp
  ultimately show ?thesis using s(2-4) r by blast
qed

end
