(* ===== verification/Store_Buffer.thy ===== *)
theory Store_Buffer
  imports Ring_Hazards
begin

text \<open>
  The ring on hardware that delays stores. Process and worker each have a buffer of stores not yet
  in memory and see their own stores at once. On x86-64 a buffer drains in order; on aarch64 plain
  stores to different variables drain in any order, and a release store after everything before it.
  Loads take place in program order.
\<close>

section \<open>Stores\<close>

text \<open>
  The stores of a wrapper and of \<open>update_index\<close> to the fields of an entry and to the tail, the
  marks in \<open>rstatus\<close>, and the worker's stores to the head. The last arguments of \<open>STailE\<close> and
  \<open>SHeadE\<close> are not stored: they count the calls submitted and performed at that point.
\<close>

datatype store =
    SNum cell "32 word"
  | SNargs cell int
  | SArg cell nat "64 word"
  | STailE int nat
  | STailT int
  | SStat cell int
  | SHeadT int
  | SHeadE int nat

primrec put :: "store \<Rightarrow> chan \<Rightarrow> chan" where
  "put (SNum c v) ch = write_cell c ((read_cell ch c)\<lparr>sysnum := v\<rparr>) ch"
| "put (SNargs c v) ch = write_cell c ((read_cell ch c)\<lparr>nargs := v\<rparr>) ch"
| "put (SArg c k v) ch = write_cell c ((read_cell ch c)\<lparr>args := (args (read_cell ch c))[k := v]\<rparr>) ch"
| "put (STailE v n) ch = ch\<lparr>hdr := (hdr ch)\<lparr>tail_entry := v\<rparr>\<rparr>"
| "put (STailT v) ch = ch\<lparr>hdr := (hdr ch)\<lparr>tail_table := v\<rparr>\<rparr>"
| "put (SStat c v) ch = write_cell c ((read_cell ch c)\<lparr>rstatus := v\<rparr>) ch"
| "put (SHeadT v) ch = ch\<lparr>hdr := (hdr ch)\<lparr>head_table := v\<rparr>\<rparr>"
| "put (SHeadE v n) ch = ch\<lparr>hdr := (hdr ch)\<lparr>head_entry := v\<rparr>\<rparr>"

text \<open>What a thread with buffer \<open>b\<close> sees.\<close>

definition view :: "store list \<Rightarrow> chan \<Rightarrow> chan" where
  "view b ch = fold put b ch"

primrec loc_of :: "store \<Rightarrow> nat \<times> cell \<times> nat" where
  "loc_of (SNum c v) = (0, c, 0)"
| "loc_of (SNargs c v) = (1, c, 0)"
| "loc_of (SArg c k v) = (2, c, k)"
| "loc_of (STailE v n) = (3, (0, 0), 0)"
| "loc_of (STailT v) = (4, (0, 0), 0)"
| "loc_of (SStat c v) = (5, c, 0)"
| "loc_of (SHeadT v) = (6, (0, 0), 0)"
| "loc_of (SHeadE v n) = (7, (0, 0), 0)"

text \<open>\<open>esca_smp_store_release\<close> is used for the busy mark only.\<close>

definition is_release :: "store \<Rightarrow> bool" where
  "is_release st = (case st of SStat c v \<Rightarrow> v = BENTRY_BUSY | _ \<Rightarrow> False)"

definition may_drain :: "arch \<Rightarrow> store list \<Rightarrow> nat \<Rightarrow> bool" where
  "may_drain arc b k \<longleftrightarrow> k < length b \<and> (case arc of
     X86_64 \<Rightarrow> k = 0
   | AARCH64 \<Rightarrow> list_all (\<lambda>st. loc_of st \<noteq> loc_of (b ! k)) (take k b) \<and> (is_release (b ! k) \<longrightarrow> k = 0))"

section \<open>Steps\<close>

text \<open>
  The control points are those of the interleaving without buffers. \<open>mtail\<close> and \<open>mpub\<close> count the
  calls that the tail and the head in memory cover.
\<close>

record mstate =
  mch :: chan
  pbuf :: "store list"
  wbuf :: "store list"
  mppc :: ppc
  mwpc :: wpc
  msub :: "request list"
  mperf :: "request list"
  mtail :: nat
  mpub :: nat

datatype mact =
    MFill request | MTest | MStore | MStore2 | MBusy
  | MPoll | MReadT | MReadE | MExec | MPub1 | MPub2
  | DrainP nat | DrainW nat

text \<open>The stores that fill an entry.\<close>

definition fill_stores :: "cell \<Rightarrow> request \<Rightarrow> store list" where
  "fill_stores c r = (case r of (num, n, as) \<Rightarrow> SNum c num # SNargs c n # map (\<lambda>(k, a). SArg c k a) (enumerate 0 as))"

definition pview :: "mstate \<Rightarrow> chan" where
  "pview s = view (pbuf s) (mch s)"

definition wview :: "mstate \<Rightarrow> chan" where
  "wview s = view (wbuf s) (mch s)"

text \<open>The number of calls the tail covers once a store is in memory, and the head.\<close>

definition tail_after :: "store \<Rightarrow> nat \<Rightarrow> nat" where
  "tail_after st t = (case st of STailE v n \<Rightarrow> n | _ \<Rightarrow> t)"

definition head_after :: "store \<Rightarrow> nat \<Rightarrow> nat" where
  "head_after st p = (case st of SHeadE v n \<Rightarrow> n | _ \<Rightarrow> p)"

definition commit :: "store \<Rightarrow> mstate \<Rightarrow> mstate" where
  "commit st s = s\<lparr>mch := put st (mch s), mtail := tail_after st (mtail s), mpub := head_after st (mpub s)\<rparr>"

fun mstep :: "arch \<Rightarrow> globals \<Rightarrow> mact \<Rightarrow> mstate \<Rightarrow> mstate res" where
  "mstep arc g (MFill r) s = (case mppc s of
     PIdle \<Rightarrow>
       let h = hdr (pview s) in
       bind_res (user_cell (pview s) (tail_table h) (tail_entry h)) (\<lambda>c.
       Inr (s\<lparr>pbuf := pbuf s @ fill_stores c r, mppc := PFilled (tail_table h) (tail_entry h) r\<rparr>))
   | _ \<Rightarrow> Inl Blocked)"
| "mstep arc g MTest s = (case mppc s of
     PFilled i j r \<Rightarrow> if wait_full (hdr (pview s)) then Inl Blocked else Inr (s\<lparr>mppc := PChecked i j r\<rparr>)
   | _ \<Rightarrow> Inl Blocked)"
| "mstep arc g MStore s = (case mppc s of
     PChecked i j r \<Rightarrow>
       let te = tail_entry (hdr (pview s)); n = Suc (length (msub s)) in
       if te = MAX_TABLE_ENTRY g - 1
       then Inr (s\<lparr>pbuf := pbuf s @ [STailE 0 n], msub := msub s @ [r], mppc := PTorn i j\<rparr>)
       else Inr (s\<lparr>pbuf := pbuf s @ [STailE (short_of (te + 1)) n], msub := msub s @ [r], mppc := PAdvanced i j\<rparr>)
   | _ \<Rightarrow> Inl Blocked)"
| "mstep arc g MStore2 s = (case mppc s of
     PTorn i j \<Rightarrow> Inr (s\<lparr>pbuf := pbuf s @ [STailT (short_of (next_table g (tail_table (hdr (pview s)))))], mppc := PAdvanced i j\<rparr>)
   | _ \<Rightarrow> Inl Blocked)"
| "mstep arc g MBusy s = (case mppc s of
     PAdvanced i j \<Rightarrow>
       bind_res (user_cell (pview s) i j) (\<lambda>c. Inr (s\<lparr>pbuf := pbuf s @ [SStat c BENTRY_BUSY], mppc := PIdle\<rparr>))
   | _ \<Rightarrow> Inl Blocked)"
| "mstep arc g MPoll s = (case mwpc s of
     WPoll \<Rightarrow>
       let h = hdr (wview s) in
       bind_res (kernel_cell (wview s) (head_table h) (head_entry h)) (\<lambda>c.
       if rstatus (read_cell (wview s) c) = BENTRY_EMPTY then Inl Blocked
       else Inr (s\<lparr>mwpc := WCount (head_table h) (head_entry h)\<rparr>))
   | _ \<Rightarrow> Inl Blocked)"
| "mstep arc g MReadT s = (case mwpc s of
     WCount i j \<Rightarrow> Inr (s\<lparr>mwpc := WCountE i j (tail_table (hdr (wview s)))\<rparr>)
   | _ \<Rightarrow> Inl Blocked)"
| "mstep arc g MReadE s = (case mwpc s of
     WCountE i j tt \<Rightarrow> Inr (s\<lparr>mwpc := WRun i j (submitted_count g ((hdr (wview s))\<lparr>tail_table := tt\<rparr>) i j)\<rparr>)
   | _ \<Rightarrow> Inl Blocked)"
| "mstep arc g MExec s = (case mwpc s of
     WRun i j n \<Rightarrow>
       if n = 0 then Inl Blocked
       else bind_res (kernel_cell (wview s) i j) (\<lambda>c.
         let (i', j') = worker_next g (i, j) in
         Inr (s\<lparr>wbuf := wbuf s @ [SStat c BENTRY_EMPTY], mwpc := WRun i' j' (n - 1),
                mperf := mperf s @ [req_of (read_cell (wview s) c)]\<rparr>))
   | _ \<Rightarrow> Inl Blocked)"
| "mstep arc g MPub1 s = (case mwpc s of
     WRun i j n \<Rightarrow>
       if n \<noteq> 0 then Inl Blocked else Inr (s\<lparr>wbuf := wbuf s @ [SHeadT (short_of i)], mwpc := WPub i j\<rparr>)
   | _ \<Rightarrow> Inl Blocked)"
| "mstep arc g MPub2 s = (case mwpc s of
     WPub i j \<Rightarrow> Inr (s\<lparr>wbuf := wbuf s @ [SHeadE (short_of j) (length (mperf s))], mwpc := WPoll\<rparr>)
   | _ \<Rightarrow> Inl Blocked)"
| "mstep arc g (DrainP k) s =
     (if may_drain arc (pbuf s) k
      then Inr (commit (pbuf s ! k) (s\<lparr>pbuf := take k (pbuf s) @ drop (Suc k) (pbuf s)\<rparr>)) else Inl Blocked)"
| "mstep arc g (DrainW k) s =
     (if may_drain arc (wbuf s) k
      then Inr (commit (wbuf s ! k) (s\<lparr>wbuf := take k (wbuf s) @ drop (Suc k) (wbuf s)\<rparr>)) else Inl Blocked)"

definition minit :: "chan \<Rightarrow> mstate" where
  "minit ch = \<lparr>mch = ch, pbuf = [], wbuf = [], mppc = PIdle, mwpc = WPoll, msub = [], mperf = [], mtail = 0, mpub = 0\<rparr>"

text \<open>The runs in which a call is made only while two entries are free, and its arguments fit an entry.\<close>

definition leaves_room :: "globals \<Rightarrow> mact \<Rightarrow> mstate \<Rightarrow> bool" where
  "leaves_room g a s = (case a of MFill r \<Rightarrow> call_ok r \<and> length (msub s) + 1 < mpub s + slots g | _ \<Rightarrow> True)"

inductive mreach :: "arch \<Rightarrow> globals \<Rightarrow> mstate \<Rightarrow> bool" for arc g where
  start: "ready_chan g ch \<Longrightarrow> mreach arc g (minit ch)"
| step: "mreach arc g s \<Longrightarrow> leaves_room g a s \<Longrightarrow> mstep arc g a s = Inr s' \<Longrightarrow> mreach arc g s'"

fun mrun :: "arch \<Rightarrow> globals \<Rightarrow> mact list \<Rightarrow> mstate \<Rightarrow> mstate res" where
  "mrun arc g [] s = Inr s"
| "mrun arc g (a # as) s = (if leaves_room g a s then bind_res (mstep arc g a s) (mrun arc g as) else Inl Blocked)"

lemma mrun_reach: "mreach arc g s \<Longrightarrow> mrun arc g as s = Inr s' \<Longrightarrow> mreach arc g s'"
  by (induction as arbitrary: s) (auto simp: bind_res_Inr_iff intro: mreach.step simp del: mstep.simps split: if_splits)

section \<open>Views\<close>

lemma view_simps [simp]: "view [] ch = ch" "view (st # b) ch = view b (put st ch)" "view (b @ b') ch = view b' (view b ch)"
  by (simp_all add: view_def)

text \<open>What no store changes: where the entries are.\<close>

lemma put_frame [simp]:
  "psz (put st ch) = psz ch" "npages (put st ch) = npages ch" "tables (hdr (put st ch)) = tables (hdr ch)"
  "user_tables (hdr (put st ch)) = user_tables (hdr ch)"
  by (cases st; simp)+

lemma view_frame [simp]:
  "psz (view b ch) = psz ch" "npages (view b ch) = npages ch" "tables (hdr (view b ch)) = tables (hdr ch)"
  "user_tables (hdr (view b ch)) = user_tables (hdr ch)"
  by (induction b arbitrary: ch) simp_all

lemma view_chan_ok [simp]: "chan_ok g (view b ch) = chan_ok g ch" "chan_ok g (put st ch) = chan_ok g ch"
  by (simp_all add: chan_ok_def mapped_def)

lemma put_entries_ok: "entries_ok ch \<Longrightarrow> entries_ok (put st ch)"
  by (cases st) (auto simp: entries_ok_write entries_okD)

lemma view_entries_ok: "entries_ok ch \<Longrightarrow> entries_ok (view b ch)"
  by (induction b arbitrary: ch) (simp_all add: put_entries_ok)

text \<open>The part of memory the process writes, but for the marks, and the stores that touch it.\<close>

definition psame :: "chan \<Rightarrow> chan \<Rightarrow> bool" where
  "psame ch ch' \<longleftrightarrow> (\<forall>c. sysnum (read_cell ch' c) = sysnum (read_cell ch c) \<and> nargs (read_cell ch' c) = nargs (read_cell ch c) \<and>
       args (read_cell ch' c) = args (read_cell ch c)) \<and>
     tail_table (hdr ch') = tail_table (hdr ch) \<and> tail_entry (hdr ch') = tail_entry (hdr ch)"

definition wsame :: "chan \<Rightarrow> chan \<Rightarrow> bool" where
  "wsame ch ch' \<longleftrightarrow> head_table (hdr ch') = head_table (hdr ch) \<and> head_entry (hdr ch') = head_entry (hdr ch)"

primrec fills :: "store \<Rightarrow> cell option" where
  "fills (SNum c v) = Some c"
| "fills (SNargs c v) = Some c"
| "fills (SArg c k v) = Some c"
| "fills (STailE v n) = None"
| "fills (STailT v) = None"
| "fills (SStat c v) = None"
| "fills (SHeadT v) = None"
| "fills (SHeadE v n) = None"

definition by_process :: "store \<Rightarrow> bool" where
  "by_process st = (case st of SHeadT v \<Rightarrow> False | SHeadE v n \<Rightarrow> False | SStat c v \<Rightarrow> v = BENTRY_BUSY | _ \<Rightarrow> True)"

definition by_worker :: "store \<Rightarrow> bool" where
  "by_worker st = (case st of SHeadT v \<Rightarrow> True | SHeadE v n \<Rightarrow> True | SStat c v \<Rightarrow> v = BENTRY_EMPTY | _ \<Rightarrow> False)"

lemma psame_refl [simp]: "psame ch ch"
  by (simp add: psame_def)

lemma psame_put: "psame ch ch' \<Longrightarrow> psame (put st ch) (put st ch')"
  by (cases st) (auto simp: psame_def read_write_cell)

lemma psame_view: "psame ch ch' \<Longrightarrow> psame (view b ch) (view b ch')"
  by (induction b arbitrary: ch ch') (simp_all add: psame_put)

lemma psame_worker: "by_worker st \<Longrightarrow> psame ch (put st ch)"
  by (cases st) (auto simp: psame_def by_worker_def read_write_cell)

lemma psame_trans: "psame a b \<Longrightarrow> psame b c \<Longrightarrow> psame a c"
  by (simp add: psame_def)

lemma psame_wview: "list_all by_worker b \<Longrightarrow> psame ch (view b ch)"
  by (induction b arbitrary: ch) (auto intro: psame_trans psame_worker)

lemma psame_req: "psame ch ch' \<Longrightarrow> req_of (read_cell ch' c) = req_of (read_cell ch c)"
  by (simp add: psame_def req_of_def del: split_paired_All)

lemma wsame_put: "wsame ch ch' \<Longrightarrow> wsame (put st ch) (put st ch')"
  by (cases st) (auto simp: wsame_def)

lemma wsame_view: "wsame ch ch' \<Longrightarrow> wsame (view b ch) (view b ch')"
  by (induction b arbitrary: ch ch') (simp_all add: wsame_put)

lemma wsame_process: "by_process st \<Longrightarrow> wsame ch (put st ch)"
  by (cases st) (auto simp: wsame_def by_process_def)

lemma put_other: "fills st \<noteq> Some c \<Longrightarrow> req_of (read_cell (put st ch) c) = req_of (read_cell ch c)"
  by (cases st) (auto simp: read_write_cell)

lemma view_other: "\<forall>st \<in> set b. fills st \<noteq> Some c \<Longrightarrow> req_of (read_cell (view b ch) c) = req_of (read_cell ch c)"
  by (induction b arbitrary: ch) (simp_all add: put_other)

lemma view_args:
  "args (read_cell (view (map (\<lambda>(k, a). SArg c k a) (enumerate m as)) ch) c) =
     foldl (\<lambda>l (k, a). l[k := a]) (args (read_cell ch c)) (enumerate m as)"
  by (induction as arbitrary: m ch) (simp_all add: read_write_cell)

lemma update_args:
  "m + length as \<le> length l \<Longrightarrow>
   foldl (\<lambda>l (k, a). l[k := a]) l (enumerate m as) = take m l @ as @ drop (m + length as) l"
proof (induction as arbitrary: m l)
  case (Cons a as)
  have "take (Suc m) (l[m := a]) = take m l @ [a]" using Cons.prems by (simp add: take_Suc_conv_app_nth)
  with Cons show ?case by simp
qed simp

lemma view_keeps:
  "sysnum (read_cell (view (map (\<lambda>(k, a). SArg c k a) xs) ch) d) = sysnum (read_cell ch d)"
  "nargs (read_cell (view (map (\<lambda>(k, a). SArg c k a) xs) ch) d) = nargs (read_cell ch d)"
  by (induction xs arbitrary: ch) (auto simp: read_write_cell)

lemma view_fill:
  assumes "call_ok r" and "entries_ok ch"
  shows "req_of (read_cell (view (fill_stores c r) ch) c) = r"
proof -
  obtain num n as where r: "r = (num, n, as)" by (cases r)
  have "length (args (read_cell ch c)) = 6" using assms(2) by (rule entries_okD)
  then show ?thesis
    using assms(1) update_args [of 0 as "args (read_cell ch c)"]
    by (auto simp: r call_ok_def fill_stores_def req_of_def view_args view_keeps read_write_cell)
qed

lemma fill_stores_facts:
  "st \<in> set (fill_stores c r) \<Longrightarrow> fills st = Some c \<and> by_process st"
  by (auto simp: fill_stores_def by_process_def split: prod.splits)

section \<open>Buffers that drain in order\<close>

text \<open>
  What drains before and with a store of the tail: the entry of the call that the store submits is
  complete in memory by then. \<open>t\<close> is the number of calls the tail in memory covers.
\<close>

fun pbuf_ok :: "globals \<Rightarrow> request list \<Rightarrow> nat \<Rightarrow> chan \<Rightarrow> store list \<Rightarrow> bool" where
  "pbuf_ok g sub t ch [] \<longleftrightarrow> True"
| "pbuf_ok g sub t ch (st # b) \<longleftrightarrow> by_process st \<and>
     (case st of
        STailE v n \<Rightarrow> n = Suc t \<and> t < length sub \<and> v = snd (cell_of g n) \<and> req_of (read_cell ch (cell_of g t)) = sub ! t
      | STailT v \<Rightarrow> v = 0
      | _ \<Rightarrow> fills st = None \<or> fills st = Some (cell_of g t)) \<and>
     pbuf_ok g sub (tail_after st t) (put st ch) b"

fun wbuf_ok :: "nat \<Rightarrow> store list \<Rightarrow> bool" where
  "wbuf_ok p [] \<longleftrightarrow> True"
| "wbuf_ok p (st # b) \<longleftrightarrow> by_worker st \<and> p \<le> head_after st p \<and> wbuf_ok (head_after st p) b"

definition tail_end :: "store list \<Rightarrow> nat \<Rightarrow> nat" where
  "tail_end b t = fold tail_after b t"

definition head_end :: "store list \<Rightarrow> nat \<Rightarrow> nat" where
  "head_end b p = fold head_after b p"

lemma end_simps [simp]:
  "tail_end [] t = t" "tail_end (st # b) t = tail_end b (tail_after st t)" "tail_end (b @ b') t = tail_end b' (tail_end b t)"
  "head_end [] p = p" "head_end (st # b) p = head_end b (head_after st p)" "head_end (b @ b') p = head_end b' (head_end b p)"
  by (simp_all add: tail_end_def head_end_def)

lemma pbuf_ok_append:
  "pbuf_ok g sub t ch (b @ b') \<longleftrightarrow> pbuf_ok g sub t ch b \<and> pbuf_ok g sub (tail_end b t) (view b ch) b'"
  by (induction b arbitrary: t ch) auto

lemma wbuf_ok_append: "wbuf_ok p (b @ b') \<longleftrightarrow> wbuf_ok p b \<and> wbuf_ok (head_end b p) b'"
  by (induction b arbitrary: p) auto

lemma wbuf_ok_by: "wbuf_ok p b \<Longrightarrow> list_all by_worker b \<and> p \<le> head_end b p"
  by (induction b arbitrary: p) fastforce+

lemma pbuf_ok_psame: "psame ch ch' \<Longrightarrow> pbuf_ok g sub t ch' b = pbuf_ok g sub t ch b"
proof (induction b arbitrary: t ch ch')
  case (Cons st b)
  then show ?case using psame_req [OF Cons.prems] psame_put [OF Cons.prems, of st] by (auto split: store.splits)
qed simp

lemma pbuf_ok_more: "pbuf_ok g sub t ch b \<Longrightarrow> pbuf_ok g (sub @ [r]) t ch b"
  by (induction b arbitrary: t ch) (auto simp: nth_append split: store.splits)

lemma pbuf_ok_end: "pbuf_ok g sub t ch b \<Longrightarrow> t \<le> tail_end b t"
proof (induction b arbitrary: t ch)
  case (Cons st b)
  then have "t \<le> tail_after st t" by (auto simp: tail_after_def split: store.splits)
  with Cons show ?case by fastforce
qed simp

lemma pbuf_ok_by: "pbuf_ok g sub t ch (st # b) \<Longrightarrow> by_process st"
  by simp

text \<open>The tail the process sees, on a ring of one table.\<close>

lemma pbuf_ok_tail:
  assumes "pbuf_ok g sub t ch b" and "tail_table (hdr ch) = 0" and "tail_entry (hdr ch) = snd (cell_of g t)"
  shows "tail_table (hdr (view b ch)) = 0" and "tail_entry (hdr (view b ch)) = snd (cell_of g (tail_end b t))"
proof -
  have "tail_table (hdr (view b ch)) = 0 \<and> tail_entry (hdr (view b ch)) = snd (cell_of g (tail_end b t))"
    using assms
  proof (induction b arbitrary: t ch)
    case (Cons st b)
    have "tail_table (hdr (put st ch)) = 0 \<and> tail_entry (hdr (put st ch)) = snd (cell_of g (tail_after st t))"
      using Cons.prems by (cases st) (auto simp: tail_after_def)
    with Cons.IH [of "tail_after st t" "put st ch"] Cons.prems(1) show ?case by simp
  qed simp
  then show "tail_table (hdr (view b ch)) = 0" "tail_entry (hdr (view b ch)) = snd (cell_of g (tail_end b t))" by simp_all
qed

section \<open>The invariant on x86-64\<close>

definition mqinv :: "globals \<Rightarrow> mstate \<Rightarrow> bool" where
  "mqinv g s = (let a = length (msub s); c = length (mperf s); t = mtail s in
     chan_ok g (mch s) \<and> entries_ok (mch s) \<and> mperf s = take c (msub s) \<and> c \<le> t \<and> a < mpub s + slots g \<and>
     tail_table (hdr (mch s)) = 0 \<and> tail_entry (hdr (mch s)) = snd (cell_of g t) \<and>
     pbuf_ok g (msub s) t (mch s) (pbuf s) \<and> tail_end (pbuf s) t = a \<and>
     wbuf_ok (mpub s) (wbuf s) \<and> head_end (wbuf s) (mpub s) \<le> c \<and>
     (\<forall>k. c \<le> k \<and> k < t \<longrightarrow> req_of (read_cell (mch s) (cell_of g k)) = msub s ! k))"

definition mpinv :: "globals \<Rightarrow> mstate \<Rightarrow> bool" where
  "mpinv g s = (let a = length (msub s) in
     case mppc s of
       PIdle \<Rightarrow> True
     | PFilled i j r \<Rightarrow> (i, j) = cell_of g a \<and> req_of (read_cell (pview s) (cell_of g a)) = r \<and> a + 1 < mpub s + slots g
     | PChecked i j r \<Rightarrow> (i, j) = cell_of g a \<and> req_of (read_cell (pview s) (cell_of g a)) = r \<and> a + 1 < mpub s + slots g
     | PTorn i j \<Rightarrow> 0 < a \<and> (i, j) = cell_of g (a - 1)
     | PAdvanced i j \<Rightarrow> 0 < a \<and> (i, j) = cell_of g (a - 1))"

definition mwinv :: "globals \<Rightarrow> mstate \<Rightarrow> bool" where
  "mwinv g s = (let c = length (mperf s) in head_table (hdr (wview s)) = 0 \<and>
     (case mwpc s of
       WPoll \<Rightarrow> head_entry (hdr (wview s)) = snd (cell_of g c)
     | WCount i j \<Rightarrow> (i, j) = cell_of g c
     | WCountE i j tt \<Rightarrow> (i, j) = cell_of g c \<and> tt = 0
     | WRun i j n \<Rightarrow> (i, j) = cell_of g c \<and> c + unat n \<le> mtail s
     | WPub i j \<Rightarrow> (i, j) = cell_of g c))"

definition minv :: "globals \<Rightarrow> mstate \<Rightarrow> bool" where
  "minv g s \<longleftrightarrow> mqinv g s \<and> mpinv g s \<and> mwinv g s"

lemma mqinvD:
  assumes "mqinv g s"
  shows "chan_ok g (mch s)" "entries_ok (mch s)" "ring_ok g" "mperf s = take (length (mperf s)) (msub s)"
    "length (mperf s) \<le> mtail s" "length (msub s) < mpub s + slots g" "pbuf_ok g (msub s) (mtail s) (mch s) (pbuf s)"
    "tail_end (pbuf s) (mtail s) = length (msub s)" "wbuf_ok (mpub s) (wbuf s)"
    "head_end (wbuf s) (mpub s) \<le> length (mperf s)" "mpub s \<le> length (mperf s)" "mtail s \<le> length (msub s)"
    "tail_table (hdr (mch s)) = 0" "tail_entry (hdr (mch s)) = snd (cell_of g (mtail s))"
    "length (mperf s) \<le> k \<Longrightarrow> k < mtail s \<Longrightarrow> req_of (read_cell (mch s) (cell_of g k)) = msub s ! k"
  using assms chan_ok_ring wbuf_ok_by [of "mpub s" "wbuf s"] pbuf_ok_end [of g "msub s" "mtail s" "mch s" "pbuf s"]
  by (auto simp: mqinv_def Let_def)

lemma mtail_view:
  assumes "mqinv g s"
  shows "tail_table (hdr (pview s)) = 0" and "tail_entry (hdr (pview s)) = snd (cell_of g (length (msub s)))"
  using pbuf_ok_tail [OF mqinvD(7) [OF assms] mqinvD(13,14) [OF assms]] mqinvD(8) [OF assms] by (simp_all add: pview_def)

lemma wview_psame:
  assumes "mqinv g s"
  shows "psame (mch s) (wview s)"
  unfolding wview_def using wbuf_ok_by [OF mqinvD(9) [OF assms]] by (intro psame_wview) simp

lemma pbuf_ok_fills:
  assumes "\<forall>st \<in> set b. fills st = Some (cell_of g t) \<and> by_process st"
  shows "pbuf_ok g sub t ch b" and "tail_end b t = t"
proof -
  have "pbuf_ok g sub t ch b \<and> tail_end b t = t"
    using assms
  proof (induction b arbitrary: ch)
    case (Cons st b)
    then have "tail_after st t = t" by (cases st) (simp_all add: tail_after_def)
    with Cons show ?case by (cases st) auto
  qed simp
  then show "pbuf_ok g sub t ch b" "tail_end b t = t" by simp_all
qed

lemma tail_cell:
  assumes "mqinv g s" and "MAX_TABLE_LEN g = 1"
  shows "(tail_table (hdr (pview s)), tail_entry (hdr (pview s))) = cell_of g (length (msub s))"
  using mtail_view [OF assms(1)] single_fst [OF mqinvD(3) [OF assms(1)] assms(2)] by (simp add: prod_eq_iff)

lemma view_cells:
  assumes "mqinv g s" and "(i, j) = cell_of g k"
  shows "user_cell (pview s) i j = Inr (cell_of g k)" and "kernel_cell (wview s) i j = Inr (cell_of g k)"
  using cells_at [of g "pview s" i j k] cells_at [of g "wview s" i j k] mqinvD(1) [OF assms(1)] assms(2)
  by (simp_all add: pview_def wview_def)

text \<open>The worker's part of the invariant depends on what the worker reads, and the process's part on
  what the process reads.\<close>

lemma mwinv_frame:
  assumes "mwinv g s" and "wsame (wview s) (wview s')" and "mwpc s' = mwpc s" and "mperf s' = mperf s"
    and "mtail s \<le> mtail s'"
  shows "mwinv g s'"
  using assms by (auto simp: mwinv_def wsame_def Let_def split: wpc.splits)

lemma mpinv_frame:
  assumes "mpinv g s" and "psame (pview s) (pview s')" and "mppc s' = mppc s" and "msub s' = msub s"
    and "mpub s \<le> mpub s'"
  shows "mpinv g s'"
  using assms psame_req [OF assms(2)] by (auto simp: mpinv_def Let_def split: ppc.splits)

lemma wview_frame: "wbuf s' = wbuf s \<Longrightarrow> mch s' = mch s \<Longrightarrow> wsame (wview s) (wview s')"
  by (simp add: wview_def wsame_def)

lemma pview_frame: "pbuf s' = pbuf s \<Longrightarrow> mch s' = mch s \<Longrightarrow> psame (pview s) (pview s')"
  by (simp add: pview_def psame_def)

section \<open>The steps of the process\<close>

lemma minv_fill:
  assumes inv: "minv g s" and one: "MAX_TABLE_LEN g = 1" and room: "leaves_room g (MFill r) s"
    and st: "mstep arc g (MFill r) s = Inr s'"
  shows "minv g s'"
proof -
  let ?a = "length (msub s)"
  have q: "mqinv g s" and w: "mwinv g s" using inv by (simp_all add: minv_def)
  have pc: "mppc s = PIdle" using st by (simp split: ppc.splits)
  note t = tail_cell [OF q one]
  let ?fs = "fill_stores (cell_of g ?a) r"
  have s': "s' = s\<lparr>pbuf := pbuf s @ ?fs, mppc := PFilled (tail_table (hdr (pview s))) (tail_entry (hdr (pview s))) r\<rparr>"
    using st view_cells(1) [OF q t] by (simp add: pc Let_def)
  have "\<forall>st \<in> set ?fs. fills st = Some (cell_of g ?a) \<and> by_process st" using fill_stores_facts by blast
  note f = pbuf_ok_fills [OF this]
  have "mqinv g s'" using q f by (simp add: mqinv_def s' Let_def pbuf_ok_append)
  moreover have "mwinv g s'" by (rule mwinv_frame [OF w wview_frame]) (simp_all add: s')
  moreover have "req_of (read_cell (pview s') (cell_of g ?a)) = r"
    using room mqinvD(2) [OF q] by (simp add: s' pview_def view_fill view_entries_ok leaves_room_def)
  then have "mpinv g s'" using t room by (simp add: mpinv_def s' leaves_room_def Let_def)
  ultimately show ?thesis by (simp add: minv_def)
qed

lemma minv_test:
  assumes "minv g s" and "mstep arc g MTest s = Inr s'"
  shows "minv g s'"
proof -
  obtain i j r where "mppc s = PFilled i j r" "s' = s\<lparr>mppc := PChecked i j r\<rparr>"
    using assms(2) by (auto split: ppc.splits if_splits)
  then show ?thesis
    using assms(1) mwinv_frame [of g s s', OF _ wview_frame]
    by (simp add: minv_def mqinv_def mpinv_def Let_def pview_def)
qed

lemma minv_store:
  assumes inv: "minv g s" and st: "mstep arc g MStore s = Inr s'"
  shows "minv g s'"
proof -
  let ?a = "length (msub s)"
  have q: "mqinv g s" and w: "mwinv g s" and p: "mpinv g s" using inv by (simp_all add: minv_def)
  note rg = mqinvD(3) [OF q]
  obtain i j r where pc: "mppc s = PChecked i j r" using st by (auto split: ppc.splits)
  have P: "(i, j) = cell_of g ?a" "req_of (read_cell (pview s) (cell_of g ?a)) = r" "?a + 1 < mpub s + slots g"
    using p by (simp_all add: mpinv_def pc Let_def)
  have te: "tail_entry (hdr (pview s)) = snd (cell_of g ?a)" using q by (rule mtail_view)
  obtain pc' where s': "s' = s\<lparr>pbuf := pbuf s @ [STailE (snd (cell_of g (Suc ?a))) (Suc ?a)], msub := msub s @ [r], mppc := pc'\<rparr>"
    and pc': "pc' = PTorn i j \<or> pc' = PAdvanced i j"
    using st cell_next_split [OF rg, of ?a] cell_short(2) [OF rg, of "Suc ?a"]
    by (auto simp: pc Let_def te split: if_splits)
  have "pbuf_ok g (msub s @ [r]) ?a (view (pbuf s) (mch s)) [STailE (snd (cell_of g (Suc ?a))) (Suc ?a)]"
    using P(2) by (simp add: by_process_def pview_def)
  then have "mqinv g s'"
    using q P(3) mqinvD(5,12) [OF q]
    by (auto simp: mqinv_def s' Let_def pbuf_ok_append pbuf_ok_more tail_after_def nth_append)
  moreover have "mwinv g s'" by (rule mwinv_frame [OF w wview_frame]) (simp_all add: s')
  moreover have "mpinv g s'" using pc' P(1) by (auto simp: mpinv_def s' Let_def)
  ultimately show ?thesis by (simp add: minv_def)
qed

lemma minv_store2:
  assumes inv: "minv g s" and one: "MAX_TABLE_LEN g = 1" and st: "mstep arc g MStore2 s = Inr s'"
  shows "minv g s'"
proof -
  have q: "mqinv g s" and w: "mwinv g s" and p: "mpinv g s" using inv by (simp_all add: minv_def)
  obtain i j where pc: "mppc s = PTorn i j"
    and "s' = s\<lparr>pbuf := pbuf s @ [STailT (short_of (next_table g (tail_table (hdr (pview s)))))], mppc := PAdvanced i j\<rparr>"
    using st by (auto split: ppc.splits)
  then have s': "s' = s\<lparr>pbuf := pbuf s @ [STailT 0], mppc := PAdvanced i j\<rparr>"
    using mtail_view(1) [OF q] one by (simp add: next_table_def short_of_def)
  have "mqinv g s'"
    using q by (simp add: mqinv_def s' Let_def pbuf_ok_append by_process_def tail_after_def)
  moreover have "mwinv g s'" by (rule mwinv_frame [OF w wview_frame]) (simp_all add: s')
  moreover have "mpinv g s'" using p by (simp add: mpinv_def s' pc Let_def)
  ultimately show ?thesis by (simp add: minv_def)
qed

lemma minv_busy:
  assumes inv: "minv g s" and st: "mstep arc g MBusy s = Inr s'"
  shows "minv g s'"
proof -
  have q: "mqinv g s" and w: "mwinv g s" and p: "mpinv g s" using inv by (simp_all add: minv_def)
  obtain c where s': "s' = s\<lparr>pbuf := pbuf s @ [SStat c BENTRY_BUSY], mppc := PIdle\<rparr>"
    using st by (auto simp: bind_res_Inr_iff split: ppc.splits)
  have "mqinv g s'" using q by (simp add: mqinv_def s' Let_def pbuf_ok_append by_process_def tail_after_def)
  moreover have "mwinv g s'" by (rule mwinv_frame [OF w wview_frame]) (simp_all add: s')
  moreover have "mpinv g s'" by (simp add: mpinv_def s' Let_def)
  ultimately show ?thesis by (simp add: minv_def)
qed

section \<open>The steps of the worker\<close>

text \<open>A step that changes the worker's control point and appends to its buffer.\<close>

lemma minv_worker:
  assumes inv: "minv g s" and s': "s' = s\<lparr>wbuf := wbuf s @ b, mwpc := pc, mperf := pf\<rparr>"
    and b: "wbuf_ok (head_end (wbuf s) (mpub s)) b" "head_end b (head_end (wbuf s) (mpub s)) \<le> length pf"
    and pf: "pf = take (length pf) (msub s)" "length (mperf s) \<le> length pf" "length pf \<le> mtail s"
    and w: "mwinv g s'"
  shows "minv g s'"
proof -
  have q: "mqinv g s" and p: "mpinv g s" using inv by (simp_all add: minv_def)
  have "mqinv g s'"
    using q b pf by (auto simp: mqinv_def s' Let_def wbuf_ok_append)
  moreover have "mpinv g s'" by (rule mpinv_frame [OF p pview_frame]) (simp_all add: s')
  ultimately show ?thesis using w by (simp add: minv_def)
qed

lemma minv_wpc:
  assumes inv: "minv g s" and s': "s' = s\<lparr>mwpc := pc\<rparr>" and w: "mwinv g s'"
  shows "minv g s'"
proof -
  have q: "mqinv g s" using inv by (simp add: minv_def)
  show ?thesis
    using mqinvD(4,5,10) [OF q] w by (intro minv_worker [OF inv, where b = "[]" and pc = pc and pf = "mperf s"]) (simp_all add: s')
qed

lemma minv_poll:
  assumes inv: "minv g s" and one: "MAX_TABLE_LEN g = 1" and st: "mstep arc g MPoll s = Inr s'"
  shows "minv g s'"
proof -
  have q: "mqinv g s" and w: "mwinv g s" using inv by (simp_all add: minv_def)
  have pc: "mwpc s = WPoll" using st by (simp split: wpc.splits)
  have h: "(head_table (hdr (wview s)), head_entry (hdr (wview s))) = cell_of g (length (mperf s))"
    using w single_fst [OF mqinvD(3) [OF q] one] by (simp add: mwinv_def pc Let_def prod_eq_iff)
  have s': "s' = s\<lparr>mwpc := WCount (head_table (hdr (wview s))) (head_entry (hdr (wview s)))\<rparr>"
    using st view_cells(2) [OF q h] by (simp add: pc Let_def split: if_splits)
  have "mwinv g s'" using w h by (simp add: mwinv_def s' Let_def wview_def)
  then show ?thesis by (rule minv_wpc [OF inv s'])
qed

lemma minv_readT:
  assumes inv: "minv g s" and st: "mstep arc g MReadT s = Inr s'"
  shows "minv g s'"
proof -
  have q: "mqinv g s" and w: "mwinv g s" using inv by (simp_all add: minv_def)
  obtain i j where pc: "mwpc s = WCount i j" and s': "s' = s\<lparr>mwpc := WCountE i j (tail_table (hdr (wview s)))\<rparr>"
    using st by (auto split: wpc.splits)
  have "tail_table (hdr (wview s)) = 0"
    using wview_psame [OF q] mqinvD(13) [OF q] by (simp add: psame_def)
  then have "mwinv g s'" using w by (simp add: mwinv_def s' pc Let_def wview_def)
  then show ?thesis by (rule minv_wpc [OF inv s'])
qed

lemma minv_readE:
  assumes inv: "minv g s" and one: "MAX_TABLE_LEN g = 1" and st: "mstep arc g MReadE s = Inr s'"
  shows "minv g s'"
proof -
  let ?c = "length (mperf s)"
  have q: "mqinv g s" and w: "mwinv g s" using inv by (simp_all add: minv_def)
  note rg = mqinvD(3) [OF q]
  obtain i j tt where pc: "mwpc s = WCountE i j tt" using st by (auto split: wpc.splits)
  let ?h = "(hdr (wview s))\<lparr>tail_table := tt\<rparr>"
  have s': "s' = s\<lparr>mwpc := WRun i j (submitted_count g ?h i j)\<rparr>" using st by (simp add: pc Let_def)
  have W: "(i, j) = cell_of g ?c" "tt = 0" using w by (simp_all add: mwinv_def pc Let_def)
  have t: "(tail_table ?h, tail_entry ?h) = cell_of g (mtail s)"
    using wview_psame [OF q] mqinvD(14) [OF q] W(2) single_fst [OF rg one] by (simp add: psame_def prod_eq_iff)
  have "unat (submitted_count g ?h i j) = mtail s - ?c"
  proof (rule submitted_count_distance)
    show "ring_ok g" by (rule rg)
    show "idx_ok g i j" "spos g i j = ?c mod slots g" using cell_ok [OF rg, of ?c] W(1) [symmetric] by simp_all
    show "idx_ok g (tail_table ?h) (tail_entry ?h)" "tail_pos g ?h = mtail s mod slots g"
      using cell_ok [OF rg, of "mtail s"] unfolding t [symmetric] by simp_all
  qed (use mqinvD(5,6,11,12) [OF q] in auto)
  then have "mwinv g s'" using w W mqinvD(5) [OF q] by (simp add: mwinv_def s' Let_def wview_def)
  then show ?thesis by (rule minv_wpc [OF inv s'])
qed

lemma minv_exec:
  assumes inv: "minv g s" and st: "mstep arc g MExec s = Inr s'"
  shows "minv g s'"
proof -
  let ?c = "length (mperf s)" and ?C = "cell_of g (length (mperf s))"
  have q: "mqinv g s" and w: "mwinv g s" using inv by (simp_all add: minv_def)
  note rg = mqinvD(3) [OF q]
  obtain i j n where pc: "mwpc s = WRun i j n" and n: "n \<noteq> 0" using st by (auto split: wpc.splits if_splits)
  have W: "(i, j) = ?C" "?c + unat n \<le> mtail s" using w by (simp_all add: mwinv_def pc Let_def)
  have un: "unat (n - 1) = unat n - 1" "0 < unat n" using n by (simp_all add: unat_minus_one unat_gt_0)
  obtain i' j' where nx: "worker_next g (i, j) = (i', j')" "(i', j') = cell_of g (Suc ?c)"
    using cell_next [OF rg, of ?c] W(1) by (metis surj_pair)
  have "req_of (read_cell (wview s) ?C) = msub s ! ?c"
    using psame_req [OF wview_psame [OF q]] mqinvD(15) [OF q le_refl] W(2) un(2) by simp
  then have s': "s' = s\<lparr>wbuf := wbuf s @ [SStat ?C BENTRY_EMPTY], mwpc := WRun i' j' (n - 1), mperf := mperf s @ [msub s ! ?c]\<rparr>"
    using st n view_cells(2) [OF q W(1)] nx(1) by (simp add: pc)
  have "?c < length (msub s)" using W(2) un(2) mqinvD(12) [OF q] by linarith
  then have pf: "mperf s @ [msub s ! ?c] = take (Suc ?c) (msub s)"
    using mqinvD(4) [OF q] by (simp add: take_Suc_conv_app_nth)
  have "mwinv g s'" using w W un nx(2) by (simp add: mwinv_def s' Let_def wview_def)
  then show ?thesis
    using pf [symmetric] W(2) un(2) mqinvD(10) [OF q]
    by (intro minv_worker [OF inv s']) (simp_all add: by_worker_def head_after_def)
qed

lemma minv_pub1:
  assumes inv: "minv g s" and one: "MAX_TABLE_LEN g = 1" and st: "mstep arc g MPub1 s = Inr s'"
  shows "minv g s'"
proof -
  have q: "mqinv g s" and w: "mwinv g s" using inv by (simp_all add: minv_def)
  obtain i j n where pc: "mwpc s = WRun i j n" and s: "s' = s\<lparr>wbuf := wbuf s @ [SHeadT (short_of i)], mwpc := WPub i j\<rparr>"
    using st by (auto split: wpc.splits if_splits)
  have W: "(i, j) = cell_of g (length (mperf s))" using w by (simp add: mwinv_def pc Let_def)
  then have "i = 0" using single_fst [OF mqinvD(3) [OF q] one] by (metis fst_conv)
  then have s': "s' = s\<lparr>wbuf := wbuf s @ [SHeadT 0], mwpc := WPub i j, mperf := mperf s\<rparr>" using s by (simp add: short_of_def)
  have "mwinv g s'" using w W by (simp add: mwinv_def s' Let_def wview_def)
  then show ?thesis
    using mqinvD(4,5,10) [OF q] by (intro minv_worker [OF inv s']) (simp_all add: by_worker_def head_after_def)
qed

lemma minv_pub2:
  assumes inv: "minv g s" and st: "mstep arc g MPub2 s = Inr s'"
  shows "minv g s'"
proof -
  have q: "mqinv g s" and w: "mwinv g s" using inv by (simp_all add: minv_def)
  let ?c = "length (mperf s)"
  obtain i j where pc: "mwpc s = WPub i j" and s: "s' = s\<lparr>wbuf := wbuf s @ [SHeadE (short_of j) ?c], mwpc := WPoll\<rparr>"
    using st by (auto split: wpc.splits)
  have W: "(i, j) = cell_of g ?c" using w by (simp add: mwinv_def pc Let_def)
  then have "short_of j = snd (cell_of g ?c)" using cell_short(2) [OF mqinvD(3) [OF q], of ?c] by (metis snd_conv)
  then have s': "s' = s\<lparr>wbuf := wbuf s @ [SHeadE (snd (cell_of g ?c)) ?c], mwpc := WPoll, mperf := mperf s\<rparr>"
    using s by simp
  have "mwinv g s'" using w by (simp add: mwinv_def s' Let_def wview_def)
  then show ?thesis
    using mqinvD(4,5,10) [OF q] by (intro minv_worker [OF inv s']) (simp_all add: by_worker_def head_after_def)
qed

section \<open>Draining\<close>

lemma minv_drainP:
  assumes inv: "minv g s" and st: "mstep X86_64 g (DrainP k) s = Inr s'"
  shows "minv g s'"
proof -
  let ?c = "length (mperf s)"
  have q: "mqinv g s" and w: "mwinv g s" and p: "mpinv g s" using inv by (simp_all add: minv_def)
  note rg = mqinvD(3) [OF q]
  obtain x b where pb: "pbuf s = x # b" and s': "s' = commit x (s\<lparr>pbuf := b\<rparr>)"
    using st by (cases "pbuf s") (auto simp: may_drain_def split: if_splits)
  have B: "by_process x" "pbuf_ok g (msub s) (tail_after x (mtail s)) (put x (mch s)) b"
    using mqinvD(7) [OF q] by (simp_all add: pb)
  have hx: "head_after x (mpub s) = mpub s" using B(1) by (cases x) (simp_all add: head_after_def by_process_def)
  have t: "mtail s \<le> tail_after x (mtail s)"
    using mqinvD(7) [OF q] by (auto simp: pb tail_after_def split: store.splits)
  have tl: "tail_table (hdr (put x (mch s))) = 0" "tail_entry (hdr (put x (mch s))) = snd (cell_of g (tail_after x (mtail s)))"
    using mqinvD(7,13,14) [OF q] by (cases x; simp add: pb tail_after_def)+
  have req: "req_of (read_cell (put x (mch s)) (cell_of g k)) = msub s ! k" if "?c \<le> k" "k < tail_after x (mtail s)" for k
  proof (cases "k < mtail s")
    case True
    have "cell_of g k \<noteq> cell_of g (mtail s)"
      using True that(1) mqinvD(6,11,12) [OF q] by (intro cell_neq [OF rg]) auto
    then have "fills x \<noteq> Some (cell_of g k)" using mqinvD(7) [OF q] by (auto simp: pb split: store.splits)
    then show ?thesis using put_other mqinvD(15) [OF q that(1) True] by simp
  next
    case False
    with that(2) obtain v n where x: "x = STailE v n" by (cases x) (simp_all add: tail_after_def)
    then have "k = mtail s" using False that(2) mqinvD(7) [OF q] by (simp add: pb tail_after_def)
    then show ?thesis using mqinvD(7) [OF q] by (simp add: pb x)
  qed
  have "mqinv g s'"
    using q B(2) hx t tl req by (auto simp: mqinv_def s' commit_def Let_def pb put_entries_ok)
  moreover have "mpinv g s'" by (rule mpinv_frame [OF p]) (simp_all add: s' commit_def pview_def psame_def pb hx)
  moreover have "mwinv g s'"
    using wsame_view [OF wsame_process [OF B(1), of "mch s"]] t
    by (intro mwinv_frame [OF w]) (simp_all add: wview_def s' commit_def)
  ultimately show ?thesis by (simp add: minv_def)
qed

lemma minv_drainW:
  assumes inv: "minv g s" and st: "mstep X86_64 g (DrainW k) s = Inr s'"
  shows "minv g s'"
proof -
  have q: "mqinv g s" and w: "mwinv g s" and p: "mpinv g s" using inv by (simp_all add: minv_def)
  obtain x b where wb: "wbuf s = x # b" and s': "s' = commit x (s\<lparr>wbuf := b\<rparr>)"
    using st by (cases "wbuf s") (auto simp: may_drain_def split: if_splits)
  have B: "by_worker x" "mpub s \<le> head_after x (mpub s)" using mqinvD(9) [OF q] by (simp_all add: wb)
  have ta: "tail_after x (mtail s) = mtail s" using B(1) by (cases x) (simp_all add: tail_after_def by_worker_def)
  note ps = psame_worker [OF B(1), of "mch s"]
  have "mqinv g s'"
    using q B(2) ps pbuf_ok_psame [OF ps] psame_req [OF ps]
    by (auto simp: mqinv_def s' commit_def Let_def wb put_entries_ok ta psame_def)
  moreover have "mpinv g s'"
    using psame_view [OF ps, of "pbuf s"] B(2)
    by (intro mpinv_frame [OF p]) (simp_all add: pview_def s' commit_def)
  moreover have "mwinv g s'"
    by (rule mwinv_frame [OF w]) (simp_all add: wview_def wsame_def s' commit_def wb ta)
  ultimately show ?thesis by (simp add: minv_def)
qed

lemma minv_step:
  assumes "minv g s" and "MAX_TABLE_LEN g = 1" and "leaves_room g a s" and "mstep X86_64 g a s = Inr s'"
  shows "minv g s'"
proof (cases a)
  case (MFill r)
  with assms minv_fill show ?thesis by blast
next
  case MStore2
  with assms minv_store2 show ?thesis by blast
next
  case MPoll
  with assms minv_poll show ?thesis by blast
next
  case MReadE
  with assms minv_readE show ?thesis by blast
next
  case MPub1
  with assms minv_pub1 show ?thesis by blast
qed (use assms in \<open>blast intro: minv_test minv_store minv_busy minv_readT minv_exec minv_pub2 minv_drainP minv_drainW\<close>)+

lemma mreach_minv:
  assumes "mreach X86_64 g s" and "MAX_TABLE_LEN g = 1"
  shows "minv g s"
  using assms(1)
proof (induction rule: mreach.induct)
  case (start ch)
  have "cell_of g 0 = (0, 0)" by (simp add: cell_of_def slot_cell_def)
  then show ?case
    using start ring_okD(6) [OF chan_ok_ring, of g ch]
    by (simp add: minv_def mqinv_def mpinv_def mwinv_def minit_def ready_chan_def Let_def wview_def)
next
  case (step s a s')
  then show ?case using minv_step assms(2) by blast
qed

lemma mstep_safe:
  assumes inv: "minv g s" and one: "MAX_TABLE_LEN g = 1" and st: "mstep arc g a s = Inl e"
  shows "e = Blocked"
proof -
  have q: "mqinv g s" and p: "mpinv g s" and w: "mwinv g s" using inv by (simp_all add: minv_def)
  note c = view_cells [OF q]
  have f: "user_cell (pview s) (tail_table (hdr (pview s))) (tail_entry (hdr (pview s))) = Inr (cell_of g (length (msub s)))"
    using c(1) [OF tail_cell [OF q one]] .
  have b: "user_cell (pview s) i j = Inr (cell_of g (length (msub s) - 1))" if "mppc s = PAdvanced i j" for i j
    using c(1) p that by (simp add: mpinv_def Let_def)
  have h: "(head_table (hdr (wview s)), head_entry (hdr (wview s))) = cell_of g (length (mperf s))" if "mwpc s = WPoll"
    using w that single_fst [OF mqinvD(3) [OF q] one] by (simp add: mwinv_def Let_def prod_eq_iff)
  have x: "kernel_cell (wview s) i j = Inr (cell_of g (length (mperf s)))" if "mwpc s = WRun i j n" for i j n
    using c(2) w that by (simp add: mwinv_def Let_def)
  show ?thesis
    using st f b x c(2) [OF h]
    by (cases a) (auto simp: Let_def case_prod_beta split: ppc.splits wpc.splits if_splits)
qed

section \<open>Properties\<close>

text \<open>One call made and performed, the head still in the worker's buffer; a second call in the process's buffer.\<close>

definition buffered_acts :: "mact list" where
  "buffered_acts = [MFill (call 0), MTest, MStore, MBusy] @ replicate 5 (DrainP 0) @
     [MPoll, MReadT, MReadE, MExec, MPub1, MPub2, MFill (call 1), MTest, MStore]"

lemma buffered_run:
  "(case mrun X86_64 tiny_globals buffered_acts (minit tiny_chan) of Inl e \<Rightarrow> False
    | Inr s \<Rightarrow> msub s = [call 0, call 1] \<and> length (mperf s) = 1 \<and> length (pbuf s) = 4 \<and> length (wbuf s) = 3)"
  by code_simp

text \<open>
  C5: with store buffers that drain in order, as on x86-64, a ring of one table is safe in every
  interleaving of the two sides and their buffers: while two entries are free at every call, the
  calls performed are the first of those submitted, none of them before its tail store has reached
  memory, and no step reaches outside the table. No barrier other than the order of the code is needed.
\<close>

theorem tso_fifo:
  assumes "mreach X86_64 g s" and "MAX_TABLE_LEN g = 1"
  shows "mperf s = take (length (mperf s)) (msub s) \<and> length (mperf s) \<le> mtail s \<and> mtail s \<le> length (msub s) \<and>
    (\<forall>a e. mstep X86_64 g a s = Inl e \<longrightarrow> e = Blocked)"
proof -
  have i: "minv g s" using assms by (rule mreach_minv)
  then have "mqinv g s" by (simp add: minv_def)
  then show ?thesis using mqinvD(4,5,12) mstep_safe [OF i assms(2)] by blast
qed

theorem tso_fifo_witness:
  "\<exists>s. mreach X86_64 tiny_globals s \<and> length (pbuf s) = 4 \<and> length (wbuf s) = 3 \<and> msub s = [call 0, call 1] \<and> mperf s = [call 0] \<and>
     1 \<le> mtail s"
proof -
  obtain s where s: "mrun X86_64 tiny_globals buffered_acts (minit tiny_chan) = Inr s" "msub s = [call 0, call 1]"
    "length (mperf s) = 1" "length (pbuf s) = 4" "length (wbuf s) = 3"
    using buffered_run by (auto split: sum.splits)
  have r: "mreach X86_64 tiny_globals s" by (rule mrun_reach [OF mreach.start [OF tiny_ready] s(1)])
  from tso_fifo [OF r] s have "mperf s = take 1 [call 0, call 1]" "1 \<le> mtail s" by simp_all
  with r s show ?thesis by auto
qed

text \<open>The first call complete in memory; the second call's tail reaches memory before its entry does.\<close>

definition tail_first :: "mact list" where
  "tail_first = [MFill (call 0), MTest, MStore, MBusy] @ replicate 5 (DrainP 0) @
     [MPoll, MFill (call 1), MTest, MStore, DrainP 3, MReadT, MReadE, MExec, MExec]"

lemma tail_first_run:
  "(case mrun AARCH64 tiny_globals tail_first (minit tiny_chan) of Inl e \<Rightarrow> False
    | Inr s \<Rightarrow> msub s = [call 0, call 1] \<and> mperf s = [call 0, (0, 0, [])])"
  by code_simp

text \<open>
  C17: on aarch64 the same ring is not safe: the stores of \<open>update_index\<close> are plain, so the new tail
  can be in memory before the entry it covers, and a worker already counting performs what the
  entry held before; here an entry never filled.
\<close>

theorem weak_order_stale_entry:
  "\<exists>s. mreach AARCH64 tiny_globals s \<and> msub s = [call 0, call 1] \<and> mperf s = [call 0, (0, 0, [])] \<and>
     mperf s \<noteq> take (length (mperf s)) (msub s)"
proof -
  obtain s where s: "mrun AARCH64 tiny_globals tail_first (minit tiny_chan) = Inr s" "msub s = [call 0, call 1]"
    "mperf s = [call 0, (0, 0, [])]"
    using tail_first_run by (auto split: sum.splits)
  have "mreach AARCH64 tiny_globals s" by (rule mrun_reach [OF mreach.start [OF tiny_ready] s(1)])
  with s show ?thesis by (auto simp: call_def)
qed

end
