(* ===== verification/Worker_Sleep.thy ===== *)
theory Worker_Sleep
  imports Batch_Control
begin

unbundle bit_operations_syntax

text \<open>
  The worker going to sleep and being woken: the inner loop of \<open>worker\<close> (\<open>module/lioo.c\<close>), the
  body of \<open>batch_start\<close> for one table (\<open>wrapper/preload.c\<close>) and \<open>sys_esca_wakeup\<close>, interleaved at
  the grain of single loads and stores of \<open>flags\<close> and \<open>rstatus\<close>. The pass over the pending
  entries is one step here.
\<close>

section \<open>States\<close>

text \<open>
  Control points of the worker: loading \<open>rstatus\<close>; the tests of the signal and of the clock;
  \<open>prepare_to_wait\<close>; loading and storing \<open>flags\<close> to set the request for a wake-up; loading \<open>rstatus\<close>
  again; in \<open>schedule\<close>; \<open>finish_wait\<close>; loading and storing \<open>flags\<close> to withdraw the request, the
  boolean telling whether \<open>schedule\<close> was called; the pass; gone.
\<close>

datatype spc =
    SPoll | SClock | SPrep | SReqLd | SReqSt "32 word" | SRecheck | SSched
  | SFinish bool | SClrLd bool | SClrSt bool "32 word" | SPass | SExit

text \<open>
  Control points of the process: between calls; in \<open>batch_start\<close>, having seen the request, loading
  and storing \<open>flags\<close> to announce the wake-up; in \<open>sys_esca_wakeup\<close>; loading and storing \<open>flags\<close> to
  withdraw the announcement.
\<close>

datatype upc = UIdle | UOrLd | UOrSt "32 word" | UWake | UAndLd | UAndSt "32 word"

text \<open>
  The shared flags; the number of entries marked busy and not yet performed; the clock and the
  worker's deadline in jiffies; whether the worker is on its wait queue, may run, has a signal
  pending. The last field records that the process has overwritten the worker's request.
\<close>

record sstate =
  sflags :: "32 word"
  pend :: nat
  jiffies :: "64 word"
  timeout :: "64 word"
  idle :: "32 word"
  onq :: bool
  runnable :: bool
  sig :: bool
  spc_of :: spc
  upc_of :: upc
  lost :: bool

definition need :: "32 word \<Rightarrow> bool" where
  "need f \<longleftrightarrow> f AND ESCA_WORKER_NEED_WAKEUP \<noteq> 0"

abbreviation asleep :: "sstate \<Rightarrow> bool" where
  "asleep s \<equiv> spc_of s = SSched \<and> \<not> runnable s \<and> \<not> sig s"

section \<open>Steps\<close>

text \<open>The kernel's comparison of times, which survives the wrap-around of the clock.\<close>

definition time_after :: "64 word \<Rightarrow> 64 word \<Rightarrow> bool" where
  "time_after a b \<longleftrightarrow> sint (b - a) < 0"

text \<open>
  \<open>wake_up\<close> makes a waiting task runnable and takes it off the queue, which is what the wait
  entries of \<open>DEFINE_WAIT\<close> ask for.
\<close>

definition wake_up :: "sstate \<Rightarrow> sstate" where
  "wake_up s = (if onq s then s\<lparr>onq := False, runnable := True\<rparr> else s)"

definition worker_sleep_step :: "sstate \<Rightarrow> sstate res" where
  "worker_sleep_step s = (case spc_of s of
     SPoll \<Rightarrow> Inr (s\<lparr>spc_of := (if pend s = 0 then SClock else SPass)\<rparr>)
   | SClock \<Rightarrow> Inr (s\<lparr>spc_of := (if sig s then SExit else if \<not> time_after (jiffies s) (timeout s) then SPoll else SPrep)\<rparr>)
   | SPrep \<Rightarrow> Inr (s\<lparr>onq := True, runnable := False, spc_of := SReqLd\<rparr>)
   | SReqLd \<Rightarrow> Inr (s\<lparr>spc_of := SReqSt (sflags s)\<rparr>)
   | SReqSt f \<Rightarrow> Inr (s\<lparr>sflags := f OR ESCA_WORKER_NEED_WAKEUP, spc_of := SRecheck\<rparr>)
   | SRecheck \<Rightarrow> Inr (s\<lparr>spc_of := (if pend s = 0 then SSched else SFinish False)\<rparr>)
   | SSched \<Rightarrow> if runnable s \<or> sig s then Inr (s\<lparr>spc_of := SFinish True\<rparr>) else Inl Blocked
   | SFinish b \<Rightarrow> Inr (s\<lparr>onq := False, runnable := True, spc_of := SClrLd b\<rparr>)
   | SClrLd b \<Rightarrow> Inr (s\<lparr>spc_of := SClrSt b (sflags s)\<rparr>)
   | SClrSt b f \<Rightarrow> Inr (s\<lparr>sflags := f AND NOT ESCA_WORKER_NEED_WAKEUP,
         timeout := (if b then jiffies s + ucast (idle s) else timeout s), spc_of := SPoll\<rparr>)
   | SPass \<Rightarrow> Inr (s\<lparr>pend := 0, timeout := jiffies s + ucast (idle s), spc_of := (if sig s then SExit else SPoll)\<rparr>)
   | SExit \<Rightarrow> Inl Blocked)"

text \<open>A store of the process that takes the worker's request away is recorded.\<close>

definition store_flags :: "32 word \<Rightarrow> sstate \<Rightarrow> sstate" where
  "store_flags f s = s\<lparr>sflags := f, lost := (lost s \<or> need (sflags s) \<and> \<not> need f)\<rparr>"

definition process_step :: "sstate \<Rightarrow> sstate res" where
  "process_step s = (case upc_of s of
     UIdle \<Rightarrow> Inr (s\<lparr>upc_of := (if need (sflags s) then UOrLd else UIdle)\<rparr>)
   | UOrLd \<Rightarrow> Inr (s\<lparr>upc_of := UOrSt (sflags s)\<rparr>)
   | UOrSt f \<Rightarrow> Inr ((store_flags (f OR ESCA_START_WAKEUP) s)\<lparr>upc_of := UWake\<rparr>)
   | UWake \<Rightarrow> Inr ((if sflags s AND ESCA_START_WAKEUP \<noteq> 0 then wake_up s else s)\<lparr>upc_of := UAndLd\<rparr>)
   | UAndLd \<Rightarrow> Inr (s\<lparr>upc_of := UAndSt (sflags s)\<rparr>)
   | UAndSt f \<Rightarrow> Inr ((store_flags (f AND NOT ESCA_START_WAKEUP) s)\<lparr>upc_of := UIdle\<rparr>))"

text \<open>
  \<open>BatchStart\<close> enters \<open>batch_start\<close> and \<open>Process\<close> goes on in it; \<open>Mark\<close> is the store of \<open>rstatus\<close> in
  a wrapper, \<open>Tick\<close> the clock, \<open>Kill\<close> a signal.
\<close>

datatype sact = Worker | BatchStart | Process | Mark | Tick | Kill

fun sstep :: "sact \<Rightarrow> sstate \<Rightarrow> sstate res" where
  "sstep Worker s = worker_sleep_step s"
| "sstep BatchStart s = (if upc_of s = UIdle then process_step s else Inl Blocked)"
| "sstep Process s = (if upc_of s = UIdle then Inl Blocked else process_step s)"
| "sstep Mark s = (if upc_of s = UIdle then Inr (s\<lparr>pend := pend s + 1\<rparr>) else Inl Blocked)"
| "sstep Tick s = Inr (s\<lparr>jiffies := jiffies s + 1\<rparr>)"
| "sstep Kill s = Inr (s\<lparr>sig := True\<rparr>)"

definition srun :: "sact list \<Rightarrow> sstate \<Rightarrow> sstate res" where
  "srun as s = fold_res sstep as s"

text \<open>The state \<open>sys_esca_register\<close> leaves, with the worker at the head of its loop.\<close>

definition sinit :: "64 word \<Rightarrow> 32 word \<Rightarrow> sstate" where
  "sinit now idl = \<lparr>sflags = ESCA_WORKER_NEED_WAKEUP, pend = 0, jiffies = now, timeout = 0, idle = idl, onq = False,
     runnable = True, sig = False, spc_of = SPoll, upc_of = UIdle, lost = False\<rparr>"

inductive sreach :: "sstate \<Rightarrow> bool" where
  start: "sreach (sinit now idl)"
| step: "sreach s \<Longrightarrow> sstep a s = Inr s' \<Longrightarrow> sreach s'"

lemma srun_Cons [simp]: "srun (a # as) s = bind_res (sstep a s) (srun as)"
  by (cases "sstep a s") (simp_all add: srun_def)

lemma srun_Nil [simp]: "srun [] s = Inr s"
  by (simp add: srun_def)

lemma srun_reach: "sreach s \<Longrightarrow> srun as s = Inr s' \<Longrightarrow> sreach s'"
  by (induction as arbitrary: s) (auto simp: bind_res_Inr_iff intro: sreach.step simp del: sstep.simps)

section \<open>The invariant\<close>

lemma flag_bits: "ESCA_WORKER_NEED_WAKEUP = 2 ^ 1" "ESCA_START_WAKEUP = 2 ^ 2"
  by (simp_all add: ESCA_WORKER_NEED_WAKEUP_def ESCA_START_WAKEUP_def)

lemma need_bit: "need f \<longleftrightarrow> bit f 1"
  by (simp only: need_def flag_bits and_exp_eq_0_iff_not_bit not_not)

lemma start_bit: "f AND ESCA_START_WAKEUP \<noteq> 0 \<longleftrightarrow> bit f 2"
  by (simp only: flag_bits and_exp_eq_0_iff_not_bit not_not)

lemma bit_flag: "bit (ESCA_WORKER_NEED_WAKEUP) n \<longleftrightarrow> n = 1" "bit (ESCA_START_WAKEUP) n \<longleftrightarrow> n = 2"
  unfolding flag_bits bit_exp_iff by auto

lemma need_simps [simp]:
  "need (f OR ESCA_WORKER_NEED_WAKEUP)" "\<not> need (f AND NOT ESCA_WORKER_NEED_WAKEUP)"
  "need (f OR ESCA_START_WAKEUP) \<longleftrightarrow> need f" "need (f AND NOT ESCA_START_WAKEUP) \<longleftrightarrow> need f"
  "need ESCA_WORKER_NEED_WAKEUP" "(f OR ESCA_START_WAKEUP) AND ESCA_START_WAKEUP \<noteq> 0"
  unfolding need_bit start_bit by (simp_all add: bit_or_iff bit_and_iff bit_not_iff bit_flag)

text \<open>From its request on until it withdraws it, the worker's flag stands; it sleeps on its queue.\<close>

definition sinv :: "sstate \<Rightarrow> bool" where
  "sinv s \<longleftrightarrow>
     (case spc_of s of SRecheck \<Rightarrow> need (sflags s) \<or> lost s | SSched \<Rightarrow> need (sflags s) \<or> lost s
      | SFinish b \<Rightarrow> need (sflags s) \<or> lost s | _ \<Rightarrow> True) \<and>
     (case spc_of s of SReqLd \<Rightarrow> onq s \<or> runnable s | SReqSt f \<Rightarrow> onq s \<or> runnable s | SRecheck \<Rightarrow> onq s \<or> runnable s
      | SSched \<Rightarrow> onq s \<or> runnable s | _ \<Rightarrow> True)"

lemmas sstep_defs = worker_sleep_step_def process_step_def store_flags_def wake_up_def

lemma sinv_step:
  assumes "sinv s" and "sstep a s = Inr s'"
  shows "sinv s'"
proof (cases a)
  case Worker
  then show ?thesis
    using assms by (cases "spc_of s") (auto simp: sinv_def worker_sleep_step_def split: if_splits)
next
  case BatchStart
  then show ?thesis
    using assms by (auto simp: sinv_def process_step_def split: if_splits cong: spc.case_cong)
next
  case Process
  then show ?thesis
    using assms
    by (cases "upc_of s"; cases "spc_of s") (auto simp: sinv_def sstep_defs split: if_splits)
qed (use assms in \<open>auto simp: sinv_def split: if_splits spc.splits\<close>)

lemma sreach_sinv: "sreach s \<Longrightarrow> sinv s"
proof (induction rule: sreach.induct)
  case (start now idl)
  then show ?case by (simp add: sinit_def sinv_def)
qed (rule sinv_step)

section \<open>A sleeper no step wakes\<close>

text \<open>The steps that are neither a signal nor, for the second notion, a \<open>batch_start\<close>.\<close>

definition forsaken :: "sstate \<Rightarrow> bool" where
  "forsaken s \<longleftrightarrow> asleep s \<and> \<not> need (sflags s) \<and> upc_of s = UIdle"

lemma forsaken_step:
  assumes "forsaken s" and "sstep a s = Inr s'" and "a \<noteq> Kill"
  shows "forsaken s' \<and> pend s \<le> pend s'"
  using assms by (cases a) (auto simp: forsaken_def worker_sleep_step_def process_step_def)

lemma forsaken_run:
  assumes "forsaken s" and "srun as s = Inr s'" and "Kill \<notin> set as"
  shows "forsaken s' \<and> pend s \<le> pend s'"
  using assms
proof (induction as arbitrary: s)
  case (Cons a as)
  then obtain s1 where "sstep a s = Inr s1" "srun as s1 = Inr s'" by (auto simp: bind_res_Inr_iff)
  with Cons forsaken_step [of s a s1] show ?case by fastforce
qed simp

lemma resting_run:
  assumes "asleep s" and "upc_of s = UIdle" and "srun as s = Inr s'" and "set as \<inter> {Kill, BatchStart} = {}"
  shows "asleep s' \<and> upc_of s' = UIdle \<and> pend s \<le> pend s'"
  using assms
proof (induction as arbitrary: s)
  case (Cons a as)
  then obtain s1 where 1: "sstep a s = Inr s1" "srun as s1 = Inr s'" by (auto simp: bind_res_Inr_iff)
  then have "asleep s1 \<and> upc_of s1 = UIdle \<and> pend s \<le> pend s1"
    using Cons.prems by (cases a) (auto simp: worker_sleep_step_def)
  with Cons.IH [of s1] Cons.prems(4) 1(2) show ?case by fastforce
qed simp

section \<open>Runs\<close>

text \<open>The worker falling asleep, from the head of its loop.\<close>

definition fall_asleep :: "sact list" where
  "fall_asleep = replicate 6 Worker"

definition whole_start :: "sact list" where
  "whole_start = BatchStart # replicate 5 Process"

definition get_up :: "sact list" where
  "get_up = replicate 6 Worker"

text \<open>
  A \<open>batch_start\<close> interrupted between the load and the store that withdraw the announcement, while
  the worker serves nothing, waits its idle time out and asks to be woken again.
\<close>

definition crossed :: "sact list" where
  "crossed = fall_asleep @ [BatchStart, Process, Process, Process] @ replicate 4 Worker @ [Process] @
     replicate 38 Tick @ fall_asleep @ [Process, Mark]"

lemma time_after_idle [simp]: "\<not> time_after t (t + ucast (w :: 32 word))"
proof -
  have u: "uint w < 2 ^ 32" "0 \<le> uint w" using uint_lt2p [of w] by simp_all
  have "- (2 ^ 63) \<le> uint w" by (rule order_trans [OF _ u(2)]) simp
  moreover have "uint w < 2 ^ 63" by (rule less_trans [OF u(1)]) simp
  ultimately have "signed_take_bit 63 (uint w) = uint w" by (simp only: signed_take_bit_int_eq_self_iff)
  then have "sint (ucast w :: 64 word) = uint w" by (simp add: sint_uint uint_up_ucast is_up)
  then show ?thesis using u(2) by (simp add: time_after_def)
qed

lemma start_nonzero [simp]: "ESCA_START_WAKEUP \<noteq> 0"
  by (simp add: ESCA_START_WAKEUP_def)

section \<open>Properties\<close>

text \<open>
  C9: a worker asleep stands on its wait queue, and its request for a wake-up stands in \<open>flags\<close>,
  in every interleaving in which no store of the process has taken the request away.
\<close>

theorem sleeper_is_flagged:
  assumes "sreach s" and "asleep s" and "\<not> lost s"
  shows "need (sflags s) \<and> onq s"
  using sreach_sinv [OF assms(1)] assms(2,3) by (simp add: sinv_def)

theorem sleeper_is_flagged_witness:
  "\<exists>s. srun fall_asleep (sinit 1 37) = Inr s \<and> asleep s \<and> need (sflags s) \<and> onq s"
proof -
  have "(case srun fall_asleep (sinit 1 37) of Inl e \<Rightarrow> False | Inr s \<Rightarrow> asleep s \<and> \<not> lost s)" by code_simp
  then obtain s where s: "srun fall_asleep (sinit 1 37) = Inr s" "asleep s" "\<not> lost s" by (auto split: sum.splits)
  have "sreach s" using sreach.start s(1) by (rule srun_reach)
  from sleeper_is_flagged [OF this s(2,3)] s show ?thesis by blast
qed

text \<open>
  C10: a \<open>batch_start\<close> wakes a sleeping worker whose request stands, and after six steps of the worker
  everything marked before it is done and the worker is in its polling loop.
\<close>

theorem batch_start_gets_worker_up:
  assumes "sreach s" and "asleep s" and "\<not> lost s" and "upc_of s = UIdle"
  shows "\<exists>s'. srun (whole_start @ get_up) s = Inr s' \<and> pend s' = 0 \<and> \<not> asleep s' \<and> upc_of s' = UIdle \<and> spc_of s' = SPoll"
proof -
  have n: "need (sflags s)" "onq s" using sreach_sinv [OF assms(1)] assms(2,3) by (simp_all add: sinv_def)
  show ?thesis
    using n assms(2-4)
    by (simp add: whole_start_def get_up_def numeral_eq_Suc sstep_defs)
qed

theorem batch_start_gets_worker_up_witness:
  "\<exists>s s'. srun fall_asleep (sinit 1 37) = Inr s \<and> asleep s \<and> srun (whole_start @ get_up) s = Inr s' \<and> spc_of s' = SPoll"
proof -
  have "(case srun fall_asleep (sinit 1 37) of Inl e \<Rightarrow> False | Inr s \<Rightarrow> asleep s \<and> \<not> lost s \<and> upc_of s = UIdle)" by code_simp
  then obtain s where s: "srun fall_asleep (sinit 1 37) = Inr s" "asleep s" "\<not> lost s" "upc_of s = UIdle"
    by (auto split: sum.splits)
  have "sreach s" using sreach.start s(1) by (rule srun_reach)
  from batch_start_gets_worker_up [OF this s(2-4)] s show ?thesis by blast
qed

text \<open>
  A call marked busy after \<open>batch_start\<close> found the worker awake, and after it has gone back to
  sleep, is not performed before the next \<open>batch_start\<close>, whatever else happens short of a signal.
\<close>

theorem late_call_waits_for_next_batch:
  "\<exists>s. sreach s \<and> \<not> lost s \<and> pend s = 1 \<and>
     (\<forall>as s'. srun as s = Inr s' \<longrightarrow> set as \<inter> {Kill, BatchStart} = {} \<longrightarrow> asleep s' \<and> 1 \<le> pend s')"
proof -
  let ?as = "fall_asleep @ whole_start @ replicate 4 Worker @ replicate 38 Tick @ fall_asleep @ [Mark]"
  have "(case srun ?as (sinit 1 37) of Inl e \<Rightarrow> False | Inr s \<Rightarrow> asleep s \<and> \<not> lost s \<and> upc_of s = UIdle \<and> pend s = 1)"
    by code_simp
  then obtain s where s: "srun ?as (sinit 1 37) = Inr s" "asleep s" "\<not> lost s" "upc_of s = UIdle" "pend s = 1"
    by (auto split: sum.splits)
  have "sreach s" using sreach.start s(1) by (rule srun_reach)
  with s resting_run [OF s(2,4)] show ?thesis by metis
qed

theorem late_call_waits_for_next_batch_witness:
  "\<exists>s s'. sreach s \<and> \<not> lost s \<and> asleep s \<and> srun [Tick] s = Inr s' \<and> asleep s' \<and> 1 \<le> pend s'"
proof -
  obtain s where s: "sreach s" "\<not> lost s"
    "\<And>as s'. srun as s = Inr s' \<Longrightarrow> set as \<inter> {Kill, BatchStart} = {} \<Longrightarrow> asleep s' \<and> 1 \<le> pend s'"
    using late_call_waits_for_next_batch by blast
  show ?thesis using s s(3) [of "[]" s] s(3) [of "[Tick]" "s\<lparr>jiffies := jiffies s + 1\<rparr>"] by auto
qed

text \<open>
  C18: the updates of \<open>flags\<close> on the two sides can cross so that the worker's request is lost while
  it sleeps; from then on no \<open>batch_start\<close> wakes it and its table is never served again.
\<close>

theorem wakeup_lost_for_good:
  "\<exists>s. sreach s \<and> pend s = 1 \<and>
     (\<forall>as s'. srun as s = Inr s' \<longrightarrow> Kill \<notin> set as \<longrightarrow> asleep s' \<and> 1 \<le> pend s')"
proof -
  have "(case srun crossed (sinit 1 37) of Inl e \<Rightarrow> False | Inr s \<Rightarrow> forsaken s \<and> pend s = 1)" by code_simp
  then obtain s where s: "srun crossed (sinit 1 37) = Inr s" "forsaken s" "pend s = 1" by (auto split: sum.splits)
  have "sreach s" using sreach.start s(1) by (rule srun_reach)
  with s forsaken_run [OF s(2)] show ?thesis unfolding forsaken_def by metis
qed

theorem wakeup_lost_for_good_witness:
  "\<exists>s s'. sreach s \<and> pend s = 1 \<and> asleep s \<and> srun [Tick] s = Inr s' \<and> asleep s' \<and> 1 \<le> pend s'"
proof -
  obtain s where s: "sreach s" "pend s = 1"
    "\<And>as s'. srun as s = Inr s' \<Longrightarrow> Kill \<notin> set as \<Longrightarrow> asleep s' \<and> 1 \<le> pend s'"
    using wakeup_lost_for_good by blast
  show ?thesis using s s(3) [of "[]" s] s(3) [of "[Tick]" "s\<lparr>jiffies := jiffies s + 1\<rparr>"] by auto
qed

end
