(* ===== verification/Worker_Thread.thy ===== *)
theory Worker_Thread
  imports Worker_Sleep
begin

unbundle bit_operations_syntax

text \<open>
  The worker thread as a whole (\<open>worker\<close> in \<open>module/lioo.c\<close>): where it is bound, its polling loop
  with the deadline and the request for a wake-up in the shared header, the pass, its end. What
  happens while the thread polls, waits or sleeps is given turn by turn.
\<close>

section \<open>Start\<close>

text \<open>
  \<open>cpumask_of\<close> is the kernel's table of masks, \<open>msz\<close> the size of one mask: the offset of the
  configuration is added to the pointer, not to the number of the CPU.
\<close>

definition worker_mask :: "(int \<Rightarrow> int) \<Rightarrow> int \<Rightarrow> globals \<Rightarrow> int \<Rightarrow> int res" where
  "worker_mask cpumask_of msz g cur =
     bind_res (if ESCA_LOCALIZE g \<noteq> 0 then c_div cur (RATIO g) else Inr cur) (\<lambda>cpu.
     Inr (cpumask_of cpu + AFF_OFF g * msz))"

record 'w wthread =
  th_mask :: int
  th_timeout :: "64 word"
  th_ch :: chan
  th_sub :: "int \<Rightarrow> 16 word"
  th_wakes :: "int list"
  th_world :: 'w

definition worker_enter ::
  "(int \<Rightarrow> int) \<Rightarrow> int \<Rightarrow> globals \<Rightarrow> int \<Rightarrow> chan \<Rightarrow> (int \<Rightarrow> 16 word) \<Rightarrow> 'w \<Rightarrow> 'w wthread res" where
  "worker_enter cpumask_of msz g cur ch sub w =
     bind_res (worker_mask cpumask_of msz g cur) (\<lambda>m.
     bind_res (cpu_index cur) (\<lambda>_.
     Inr \<lparr>th_mask = m, th_timeout = 0, th_ch = ch, th_sub = sub, th_wakes = [], th_world = w\<rparr>))"

section \<open>The polling loop\<close>

text \<open>
  What a turn of the polling loop meets: a pending signal, the clock at the test of the deadline,
  what the process does to the channel while the thread yields, between its request and the second
  load of \<open>rstatus\<close>, and while it sleeps, and the clock when it wakes up.
\<close>

record turn =
  t_sig :: bool
  t_now :: "64 word"
  t_spin :: "chan \<Rightarrow> chan"
  t_mid :: "chan \<Rightarrow> chan"
  t_slept :: "chan \<Rightarrow> chan"
  t_woken :: "64 word"

datatype polled = Again | Ready | Killed

definition edit_flags :: "(32 word \<Rightarrow> 32 word) \<Rightarrow> chan \<Rightarrow> chan" where
  "edit_flags f ch = set_flags (f (flags (hdr ch))) ch"

definition poll_turn :: "int \<Rightarrow> int \<Rightarrow> turn \<Rightarrow> 'w wthread \<Rightarrow> (polled \<times> 'w wthread) res" where
  "poll_turn i j e t =
     bind_res (kernel_cell (th_ch t) i j) (\<lambda>c.
     if rstatus (read_cell (th_ch t) c) \<noteq> BENTRY_EMPTY then Inr (Ready, t)
     else if t_sig e then Inr (Killed, t)
     else if \<not> time_after (t_now e) (th_timeout t) then Inr (Again, t\<lparr>th_ch := t_spin e (th_ch t)\<rparr>)
     else
       let ch = t_mid e (edit_flags (\<lambda>f. f OR ESCA_WORKER_NEED_WAKEUP) (th_ch t)) in
       bind_res (kernel_cell ch i j) (\<lambda>c.
       if rstatus (read_cell ch c) = BENTRY_EMPTY then
         let ch = edit_flags (\<lambda>f. f AND NOT ESCA_WORKER_NEED_WAKEUP) (t_slept e ch) in
         Inr (Again, t\<lparr>th_ch := ch, th_timeout := t_woken e + ucast (idle_time (hdr ch))\<rparr>)
       else Inr (Again, t\<lparr>th_ch := edit_flags (\<lambda>f. f AND NOT ESCA_WORKER_NEED_WAKEUP) ch\<rparr>)))"

text \<open>With no turn left the thread is still polling.\<close>

fun poll_loop :: "int \<Rightarrow> int \<Rightarrow> turn list \<Rightarrow> 'w wthread \<Rightarrow> (polled \<times> 'w wthread) res" where
  "poll_loop i j [] t = Inr (Again, t)"
| "poll_loop i j (e # es) t =
     bind_res (poll_turn i j e t) (\<lambda>(p, t). if p = Again then poll_loop i j es t else Inr (p, t))"

section \<open>The outer loop\<close>

text \<open>
  The pass starts at the position the thread read before it began to poll. \<open>r_now\<close> is the clock
  when the last entry has been performed, \<open>r_sig\<close> tells whether a signal is pending after the pass.
\<close>

record round =
  r_turns :: "turn list"
  r_now :: "64 word"
  r_sig :: bool

definition serve_from ::
  "arch \<Rightarrow> 'w systab \<Rightarrow> globals \<Rightarrow> int \<Rightarrow> int \<Rightarrow> int \<Rightarrow> 64 word \<Rightarrow> 'w wthread \<Rightarrow> 'w wthread res" where
  "serve_from arc tab g cur i j now t =
     (let n = submitted_count g (hdr (th_ch t)) i j in
     bind_res (worker_loop arc tab g cur
       \<lparr>wl_i = i, wl_j = j, wl_ch = th_ch t, wl_sub = (th_sub t)(cur := n), wl_wakes = [], wl_world = th_world t\<rparr>) (\<lambda>l.
     let ch = (wl_ch l)\<lparr>hdr := (hdr (wl_ch l))\<lparr>head_table := short_of (wl_i l), head_entry := short_of (wl_j l)\<rparr>\<rparr> in
     Inr (t\<lparr>th_timeout := (if n = 0 then th_timeout t else now + ucast (idle_time (hdr ch))), th_ch := ch,
            th_sub := wl_sub l, th_wakes := th_wakes t @ wl_wakes l, th_world := wl_world l\<rparr>)))"

definition worker_iter ::
  "arch \<Rightarrow> 'w systab \<Rightarrow> globals \<Rightarrow> int \<Rightarrow> round \<Rightarrow> 'w wthread \<Rightarrow> (polled \<times> 'w wthread) res" where
  "worker_iter arc tab g cur r t =
     (let i = head_table (hdr (th_ch t)); j = head_entry (hdr (th_ch t)) in
     bind_res (poll_loop i j (r_turns r) t) (\<lambda>(p, t).
     if p \<noteq> Ready then Inr (p, t)
     else bind_res (serve_from arc tab g cur i j (r_now r) t) (\<lambda>t. Inr (if r_sig r then Killed else Ready, t))))"

text \<open>The thread ends with the signal, and otherwise goes on.\<close>

fun worker_main ::
  "arch \<Rightarrow> 'w systab \<Rightarrow> globals \<Rightarrow> int \<Rightarrow> round list \<Rightarrow> 'w wthread \<Rightarrow> (polled \<times> 'w wthread) res" where
  "worker_main arc tab g cur [] t = Inr (Ready, t)"
| "worker_main arc tab g cur (r # rs) t =
     bind_res (worker_iter arc tab g cur r t) (\<lambda>(p, t). if p = Ready then worker_main arc tab g cur rs t else Inr (p, t))"

section \<open>Channels with no stray mark\<close>

definition clean :: "globals \<Rightarrow> chan \<Rightarrow> bool" where
  "clean g ch \<longleftrightarrow> (\<forall>c. c \<notin> walked g (head_pos g (hdr ch)) (n_pending g ch) \<longrightarrow> rstatus (read_cell ch c) = BENTRY_EMPTY)"

lemma edit_flags_simps [simp]:
  "hdr_ok g (hdr (edit_flags f ch)) = hdr_ok g (hdr ch)" "chan_ok g (edit_flags f ch) = chan_ok g ch"
  "entries_ok (edit_flags f ch) = entries_ok ch" "read_cell (edit_flags f ch) c = read_cell ch c"
  "n_pending g (edit_flags f ch) = n_pending g ch" "head_pos g (hdr (edit_flags f ch)) = head_pos g (hdr ch)"
  "head_table (hdr (edit_flags f ch)) = head_table (hdr ch)" "head_entry (hdr (edit_flags f ch)) = head_entry (hdr ch)"
  "req_at g (edit_flags f ch) p = req_at g ch p" "flags (hdr (edit_flags f ch)) = f (flags (hdr ch))"
  by (simp_all add: edit_flags_def set_flags_def hdr_ok_def chan_ok_def mapped_def entries_ok_def read_cell_def n_pending_def
      submitted_count_def req_at_def)

lemma edit_flags_queue [simp]:
  "queue_inv g tab (edit_flags f ch) = queue_inv g tab ch" "pending g (edit_flags f ch) = pending g ch"
  "clean g (edit_flags f ch) = clean g ch"
  by (simp_all add: queue_inv_def pending_def clean_def)

lemma submit_clean:
  assumes "queue_inv g tab ch" and "clean g ch" and "req_ok tab r" and "length (pending g ch) < slots g - 1"
  shows "\<exists>ch'. submit_chan g r ch = Inr ch' \<and> queue_inv g tab ch' \<and> clean g ch' \<and> pending g ch' = pending g ch @ [r]"
proof -
  have "n_pending g ch + 1 < slots g" using assms(4) by (simp add: pending_def)
  then obtain ch' where c: "submit_chan g r ch = Inr ch'" "queue_inv g tab ch'" "pending g ch' = pending g ch @ [r]"
    "hdr ch' = advance_tail g (hdr ch)" "\<And>c. c \<noteq> (tail_table (hdr ch), tail_entry (hdr ch)) \<Longrightarrow> read_cell ch' c = read_cell ch c"
    using submit_chan_ok [OF assms(1,3)] by blast
  have h: "hdr_ok g (hdr ch)" "ring_ok g" using assms(1) chan_ok_ring by (auto simp: queue_inv_def)
  have "n_pending g ch' = Suc (n_pending g ch)" using arg_cong [OF c(3), of length] by (simp add: pending_def)
  moreover have "head_pos g (hdr ch') = head_pos g (hdr ch)" by (simp add: c(4))
  moreover have "(tail_table (hdr ch), tail_entry (hdr ch)) = slot_cell g ((head_pos g (hdr ch) + n_pending g ch) mod slots g)"
    using n_pending_tail [OF h(2,1)] slot_cell_spos [OF h(2), of "tail_table (hdr ch)" "tail_entry (hdr ch)"] h(1)
    by (simp add: hdr_ok_def)
  ultimately have "clean g ch'"
    using assms(2) c(5) by (auto simp: clean_def walked_def less_Suc_eq image_iff)
  with c show ?thesis by blast
qed

interpretation cq: call_queue "\<lambda>ch. set_ok g cur \<and> queue_inv g tab ch \<and> clean g ch" "pending g" "req_ok tab"
  "slots g - 1" "submit_chan g" "pass_of arc tab g cur sub" "perform_all arc tab"
  for g cur arc sub and tab :: "'w systab"
proof (unfold_locales, goal_cases)
  case (1 ch r)
  then show ?case using submit_clean [of g tab ch r] by blast
next
  case (2 ch w)
  then obtain l where l: "worker_pass arc tab g cur ch sub w = Inr l" "queue_inv g tab (wl_ch l)"
    "pending g (wl_ch l) = []" "perform_all arc tab (pending g ch) w = Inr (wl_world l)"
    "\<forall>c. rstatus (read_cell (wl_ch l) c) = (if c \<in> walked g (head_pos g (hdr ch)) (n_pending g ch)
       then BENTRY_EMPTY else rstatus (read_cell ch c))"
    using worker_pass_ok [of g tab ch cur arc sub w] by blast
  with 2 have "clean g (wl_ch l)" by (auto simp: clean_def)
  with 2 l show ?case by (simp add: pass_of_def)
qed (simp_all add: kq.run_Nil kq.run_append)

section \<open>Serving\<close>

text \<open>What a process does that submits calls while the thread polls.\<close>

definition feed :: "globals \<Rightarrow> request list \<Rightarrow> chan \<Rightarrow> chan" where
  "feed g rs ch = (case fold_res (submit_chan g) rs ch of Inl e \<Rightarrow> ch | Inr ch' \<Rightarrow> ch')"

definition quiet :: "turn \<Rightarrow> bool" where
  "quiet e \<longleftrightarrow> \<not> t_sig e \<and> t_spin e = id \<and> t_mid e = id \<and> t_slept e = id"

text \<open>
  A turn in which the calls come: while the thread yields, or just before or after it has looked
  for the second time.
\<close>

definition brings :: "globals \<Rightarrow> request list \<Rightarrow> turn \<Rightarrow> bool" where
  "brings g rs e \<longleftrightarrow> \<not> t_sig e \<and> t_spin e = feed g rs \<and>
     (t_mid e = feed g rs \<or> t_mid e = id \<and> t_slept e = feed g rs)"

definition round_of :: "globals \<Rightarrow> request list \<Rightarrow> round \<Rightarrow> bool" where
  "round_of g rs r \<longleftrightarrow> \<not> r_sig r \<and>
     (\<exists>es e1 e2 es'. r_turns r = es @ e1 # e2 # es' \<and> list_all quiet es \<and> brings g rs e1)"

definition polling :: "globals \<Rightarrow> 'v systab \<Rightarrow> int \<Rightarrow> int \<Rightarrow> request list \<Rightarrow> chan \<Rightarrow> bool" where
  "polling g tab i j rs ch \<longleftrightarrow> queue_inv g tab ch \<and> clean g ch \<and> pending g ch = rs \<and>
     head_table (hdr ch) = i \<and> head_entry (hdr ch) = j"

lemma polling_flags [simp]: "polling g tab i j rs (edit_flags f ch) = polling g tab i j rs ch"
  by (simp add: polling_def)

lemma polling_cell:
  assumes "polling g tab i j rs ch"
  shows "kernel_cell ch i j = Inr (i, j)" and "rstatus (read_cell ch (i, j)) = BENTRY_EMPTY \<longleftrightarrow> rs = []"
proof -
  have q: "queue_inv g tab ch" "clean g ch" "pending g ch = rs" "i = head_table (hdr ch)" "j = head_entry (hdr ch)"
    using assms by (simp_all add: polling_def)
  then have h: "chan_ok g ch" "idx_ok g i j" by (simp_all add: queue_inv_def hdr_ok_def)
  then show "kernel_cell ch i j = Inr (i, j)" by (rule chan_cells)
  note r = chan_ok_ring [OF h(1)]
  have c: "slot_cell g (head_pos g (hdr ch) mod slots g) = (i, j)"
    using slot_cell_spos [OF r h(2)] spos_less [OF r h(2)] q(4,5) by simp
  show "rstatus (read_cell ch (i, j)) = BENTRY_EMPTY \<longleftrightarrow> rs = []"
  proof (cases "n_pending g ch")
    case 0
    then show ?thesis using q(2,3) by (auto simp: clean_def walked_def pending_def)
  next
    case (Suc n)
    then have "rstatus (read_cell ch (i, j)) = BENTRY_BUSY" using q(1) c by (auto simp: queue_inv_def)
    then show ?thesis using Suc q(3) by (auto simp: pending_def BENTRY_BUSY_def BENTRY_EMPTY_def)
  qed
qed

lemma submit_keeps_head:
  "submit_chan g r ch = Inr ch' \<Longrightarrow> head_table (hdr ch') = head_table (hdr ch) \<and> head_entry (hdr ch') = head_entry (hdr ch)"
  by (auto simp: submit_chan_def update_index_def bind_res_Inr_iff Let_def split: if_splits)

lemma submits_keep_head:
  "fold_res (submit_chan g) rs ch = Inr ch' \<Longrightarrow>
   head_table (hdr ch') = head_table (hdr ch) \<and> head_entry (hdr ch') = head_entry (hdr ch)"
  by (induction rs arbitrary: ch) (auto simp: bind_res_Inr_iff dest: submit_keeps_head)

lemma feed_polling:
  assumes "polling g tab i j [] ch" and "list_all (req_ok tab) rs" and "length rs < slots g" and "set_ok g cur"
  shows "polling g tab i j rs (feed g rs ch)"
proof -
  have l: "length rs \<le> slots g - Suc 0" using assms(3) by simp
  obtain ch' where c: "fold_res (submit_chan g) rs ch = Inr ch'" "queue_inv g tab ch'" "clean g ch'" "pending g ch' = rs"
    using cq.submit_batch [of g cur tab ch rs] assms l by (auto simp: polling_def)
  with submits_keep_head [OF c(1)] assms(1) show ?thesis by (simp add: polling_def feed_def)
qed

lemma poll_quiet:
  assumes "polling g tab i j [] (th_ch t)" and "quiet e"
  shows "\<exists>t'. poll_turn i j e t = Inr (Again, t') \<and> polling g tab i j [] (th_ch t') \<and> th_world t' = th_world t"
proof -
  note p = polling_cell [OF assms(1)]
  have "polling g tab i j [] (edit_flags f (th_ch t))" for f using assms(1) by simp
  from polling_cell [OF this] p assms show ?thesis by (simp add: poll_turn_def quiet_def Let_def)
qed

lemma poll_brings:
  assumes "polling g tab i j [] (th_ch t)" and "brings g rs e" and "list_all (req_ok tab) rs" and "length rs < slots g"
    and "set_ok g cur" and "rs \<noteq> []"
  shows "\<exists>t'. poll_turn i j e t = Inr (Again, t') \<and> polling g tab i j rs (th_ch t') \<and> th_world t' = th_world t"
proof -
  note p = polling_cell [OF assms(1)]
  have f: "polling g tab i j [] (edit_flags f (th_ch t))" for f using assms(1) by simp
  note fp = feed_polling [OF f assms(3-5)]
  from polling_cell [OF f] polling_cell [OF fp] p fp feed_polling [OF assms(1,3-5)] assms(2,6)
  show ?thesis by (auto simp: poll_turn_def brings_def Let_def)
qed

lemma poll_ready:
  assumes "polling g tab i j rs (th_ch t)" and "rs \<noteq> []"
  shows "poll_turn i j e t = Inr (Ready, t)"
  using polling_cell [OF assms(1)] assms(2) by (simp add: poll_turn_def)

lemma poll_loop_ok:
  assumes "polling g tab i j [] (th_ch t)" and "list_all quiet es" and "brings g rs e" and "list_all (req_ok tab) rs"
    and "length rs < slots g" and "set_ok g cur" and "rs \<noteq> []"
  shows "\<exists>t'. poll_loop i j (es @ e # e2 # es') t = Inr (Ready, t') \<and> polling g tab i j rs (th_ch t') \<and> th_world t' = th_world t"
  using assms(1,2)
proof (induction es arbitrary: t)
  case Nil
  from poll_brings [OF Nil(1) assms(3-7)] obtain t1 where t1: "poll_turn i j e t = Inr (Again, t1)"
    "polling g tab i j rs (th_ch t1)" "th_world t1 = th_world t" by blast
  with poll_ready [OF t1(2) assms(7)] show ?case by simp
next
  case (Cons e0 es)
  then obtain t1 where t1: "poll_turn i j e0 t = Inr (Again, t1)" "polling g tab i j [] (th_ch t1)" "th_world t1 = th_world t"
    using poll_quiet [of g tab i j t e0] by auto
  with Cons.IH [OF t1(2)] Cons.prems(2) show ?case by simp
qed

lemma serve_from_pass:
  assumes "head_table (hdr (th_ch t)) = i" and "head_entry (hdr (th_ch t)) = j"
  shows "serve_from arc tab g cur i j now t =
    bind_res (worker_pass arc tab g cur (th_ch t) (th_sub t) (th_world t)) (\<lambda>l.
      Inr (t\<lparr>th_timeout := (if submitted_count g (hdr (th_ch t)) i j = 0 then th_timeout t else now + ucast (idle_time (hdr (wl_ch l)))),
        th_ch := wl_ch l, th_sub := wl_sub l, th_wakes := th_wakes t @ wl_wakes l, th_world := wl_world l\<rparr>))"
  by (cases "worker_loop arc tab g cur \<lparr>wl_i = i, wl_j = j, wl_ch = th_ch t,
      wl_sub = (th_sub t)(cur := submitted_count g (hdr (th_ch t)) i j), wl_wakes = [], wl_world = th_world t\<rparr>")
    (simp_all add: serve_from_def worker_pass_def Let_def assms)

lemma serve_ok:
  assumes "polling g tab i j rs (th_ch t)" and "set_ok g cur"
  shows "\<exists>t'. serve_from arc tab g cur i j now t = Inr t' \<and> queue_inv g tab (th_ch t') \<and> clean g (th_ch t') \<and>
    pending g (th_ch t') = [] \<and> perform_all arc tab rs (th_world t) = Inr (th_world t')"
proof -
  have p: "set_ok g cur \<and> queue_inv g tab (th_ch t) \<and> clean g (th_ch t)" "pending g (th_ch t) = rs"
    "head_table (hdr (th_ch t)) = i" "head_entry (hdr (th_ch t)) = j"
    using assms by (simp_all add: polling_def)
  from cq.pass_law [OF p(1), of arc "th_sub t" "th_world t"] p(2) obtain l where "worker_pass arc tab g cur (th_ch t) (th_sub t) (th_world t) = Inr l"
    "queue_inv g tab (wl_ch l)" "clean g (wl_ch l)" "pending g (wl_ch l) = []"
    "perform_all arc tab rs (th_world t) = Inr (wl_world l)"
    by (auto simp: pass_of_def bind_res_Inr_iff)
  then show ?thesis by (simp add: serve_from_pass [OF p(3,4)])
qed

lemma worker_iter_ok:
  assumes "queue_inv g tab (th_ch t)" and "clean g (th_ch t)" and "pending g (th_ch t) = []" and "set_ok g cur"
    and "round_of g rs r" and "list_all (req_ok tab) rs" and "length rs < slots g" and "rs \<noteq> []"
  shows "\<exists>t'. worker_iter arc tab g cur r t = Inr (Ready, t') \<and> queue_inv g tab (th_ch t') \<and> clean g (th_ch t') \<and>
    pending g (th_ch t') = [] \<and> perform_all arc tab rs (th_world t) = Inr (th_world t')"
proof -
  let ?i = "head_table (hdr (th_ch t))" and ?j = "head_entry (hdr (th_ch t))"
  have p: "polling g tab ?i ?j [] (th_ch t)" using assms(1-3) by (simp add: polling_def)
  obtain t1 where t1: "poll_loop ?i ?j (r_turns r) t = Inr (Ready, t1)" "polling g tab ?i ?j rs (th_ch t1)"
    "th_world t1 = th_world t"
    using poll_loop_ok [OF p _ _ assms(6,7,4,8)] assms(5) unfolding round_of_def by metis
  with serve_ok [OF t1(2) assms(4), of arc "r_now r"] assms(5) show ?thesis
    by (auto simp: worker_iter_def round_of_def Let_def)
qed


text \<open>A thread that finds nothing, asks to be woken, sleeps while two calls come, and then spins while one comes.\<close>

definition sample_thread :: "64 word list wthread" where
  "sample_thread = \<lparr>th_mask = 0, th_timeout = 0, th_ch = sample_chan 64 (sample_hdr 1 63 1 63), th_sub = \<lambda>_. 0, th_wakes = [],
     th_world = []\<rparr>"

definition sample_turn :: "64 word \<Rightarrow> request list \<Rightarrow> turn" where
  "sample_turn now rs = \<lparr>t_sig = False, t_now = now, t_spin = feed sample_globals rs, t_mid = id,
     t_slept = feed sample_globals rs, t_woken = now + 5\<rparr>"

definition sample_round :: "64 word \<Rightarrow> request list \<Rightarrow> round" where
  "sample_round now rs = \<lparr>r_turns = [sample_turn now rs, sample_turn now []], r_now = now + 6, r_sig = False\<rparr>"

lemma sample_round_of: "round_of sample_globals rs (sample_round now rs)"
  unfolding round_of_def
  by (rule conjI, simp add: sample_round_def)
    (rule exI [of _ "[]"], simp add: sample_round_def sample_turn_def brings_def)

lemma sample_thread_ok:
  "queue_inv sample_globals sample_tab (th_ch sample_thread)" "clean sample_globals (th_ch sample_thread)"
  "pending sample_globals (th_ch sample_thread) = []"
proof -
  let ?ch = "sample_chan 64 (sample_hdr 1 63 1 63)"
  have n: "n_pending sample_globals ?ch = 0" by (simp add: n_pending_def submitted_count_def sample_chan_def)
  have "entries_ok ?ch" by (simp add: entries_ok_def read_cell_def sample_chan_def sample_entry_def)
  then show "queue_inv sample_globals sample_tab (th_ch sample_thread)"
    using n by (simp add: queue_inv_def sample_thread_def sample_chan_ok) (simp add: sample_chan_def hdr_ok_def idx_ok_def)
  show "clean sample_globals (th_ch sample_thread)"
    by (simp add: clean_def sample_thread_def sample_chan_def sample_entry_def read_cell_def BENTRY_EMPTY_def)
  show "pending sample_globals (th_ch sample_thread) = []" using n by (simp add: pending_def sample_thread_def)
qed


text \<open>
  With \<open>esca_localize\<close> set, all workers of a process are bound to the CPU of the process's
  number; without it every worker to the CPU of its own number, each with the configured offset.
\<close>

theorem localized_workers_share_cpu:
  assumes "0 \<le> idx" and "idx * RATIO g \<le> k" and "k < idx * RATIO g + RATIO g" and "k < CPU_NUM_LIMIT"
    and "RATIO g \<le> CPU_NUM_LIMIT"
  shows "\<exists>t. worker_enter cpumask_of msz g k ch sub w = Inr t \<and> th_timeout t = 0 \<and>
    th_mask t = cpumask_of (if ESCA_LOCALIZE g \<noteq> 0 then idx else k) + AFF_OFF g * msz"
proof -
  have r: "0 < RATIO g" using assms(2,3) by linarith
  have k: "0 \<le> k" using mult_nonneg_nonneg [OF assms(1), of "RATIO g"] r assms(2) by linarith
  have "c_div k (RATIO g) = Inr (k div RATIO g)"
    using k r assms(4,5) by (intro c_div_nonneg) (auto simp: int_ok_def)
  moreover have "k div RATIO g = idx"
    using assms(2,3) r by (intro int_div_pos_eq [of _ _ _ "k - idx * RATIO g"]) (simp_all add: mult.commute)
  ultimately show ?thesis using k assms(4) by (simp add: worker_enter_def worker_mask_def cpu_index_def)
qed

theorem localized_workers_share_cpu_witness:
  "\<exists>t. worker_enter (\<lambda>c. 8 * c) 8 (sample_globals\<lparr>RATIO := 4, ESCA_LOCALIZE := 1, AFF_OFF := 2\<rparr>) 6
     (sample_chan 64 (sample_hdr 0 0 0 0)) (\<lambda>_. 0) () = Inr t \<and> th_mask t = 24"
  using localized_workers_share_cpu [of 1 "sample_globals\<lparr>RATIO := 4, ESCA_LOCALIZE := 1, AFF_OFF := 2\<rparr>" 6 "\<lambda>c. 8 * c" 8
      "sample_chan 64 (sample_hdr 0 0 0 0)" "\<lambda>_. 0" "()"]
  by auto

section \<open>The deadline\<close>

text \<open>The deadline \<open>d\<close> is at least \<open>n\<close> ticks after the clock \<open>t\<close>, and in its reach.\<close>

definition ahead :: "nat \<Rightarrow> 64 word \<Rightarrow> 64 word \<Rightarrow> bool" where
  "ahead n t d \<longleftrightarrow> (\<exists>r. n \<le> r \<and> r < 2 ^ 32 \<and> d = t + of_nat r)"

lemma ahead_idle: "n \<le> unat (w :: 32 word) \<Longrightarrow> ahead n t (t + ucast w)"
  unfolding ahead_def using unsigned_less [of w, where ?'a = nat] by (intro exI [of _ "unat w"]) simp

lemma ahead_not_after:
  assumes "ahead n t d"
  shows "\<not> time_after t d"
proof -
  obtain r where r: "r < 2 ^ 32" "d = t + of_nat r" using assms by (auto simp: ahead_def)
  then have "(of_nat r :: 64 word) = ucast (of_nat r :: 32 word)" by (simp add: unsigned_of_nat take_bit_nat_eq_self)
  then show ?thesis by (simp add: r(2))
qed

lemma ahead_tick:
  assumes "ahead (Suc n) t d"
  shows "ahead n (t + 1) d"
proof -
  obtain r where r: "Suc n \<le> r" "r < 2 ^ 32" "d = t + of_nat r" using assms by (auto simp: ahead_def)
  then have "d = t + 1 + of_nat (r - 1)" by simp
  with r show ?thesis unfolding ahead_def by (intro exI [of _ "r - 1"]) auto
qed

text \<open>The thread is in its polling loop or its pass, with at least \<open>n\<close> ticks left.\<close>

definition spinning :: "nat \<Rightarrow> sstate \<Rightarrow> bool" where
  "spinning n s \<longleftrightarrow> (spc_of s = SPoll \<or> spc_of s = SClock \<or> spc_of s = SPass \<or> spc_of s = SExit) \<and>
     n \<le> unat (idle s) \<and> ahead n (jiffies s) (timeout s)"

lemma spinning_step:
  assumes "spinning n s" and "sstep a s = Inr s'" and "a = Tick \<Longrightarrow> 0 < n"
  shows "spinning (if a = Tick then n - 1 else n) s'"
proof (cases a)
  case Worker
  then show ?thesis
    using assms ahead_not_after [of n "jiffies s" "timeout s"]
    by (auto simp: spinning_def worker_sleep_step_def ahead_idle split: if_splits)
next
  case Tick
  then show ?thesis using assms ahead_tick [of "n - 1" "jiffies s" "timeout s"] by (auto simp: spinning_def)
qed (use assms in \<open>auto simp: spinning_def process_step_def store_flags_def wake_up_def split: if_splits upc.splits\<close>)

lemma spinning_run:
  "spinning n s \<Longrightarrow> srun as s = Inr s' \<Longrightarrow> count_list as Tick \<le> n \<Longrightarrow> spinning (n - count_list as Tick) s'"
proof (induction as arbitrary: n s)
  case (Cons a as)
  then obtain s1 where "sstep a s = Inr s1" "srun as s1 = Inr s'" by (auto simp: bind_res_Inr_iff)
  with Cons.IH [of "if a = Tick then n - 1 else n" s1] spinning_step [of n s a s1] Cons.prems
  show ?case by (auto split: if_splits)
qed simp

text \<open>
  C11: after a pass the worker stays awake for its idle time, in every interleaving with the process
  and with the clock wrapping around or not: it does not ask to be woken, leave the run queue or
  sleep before \<open>idle_time\<close> ticks have passed.
\<close>

theorem awake_for_idle_time:
  assumes "spc_of s = SPass" and "worker_sleep_step s = Inr s1" and "srun as s1 = Inr s'" and "count_list as Tick \<le> unat (idle s)"
  shows "spc_of s' = SPoll \<or> spc_of s' = SClock \<or> spc_of s' = SPass \<or> spc_of s' = SExit"
proof -
  have "spinning (unat (idle s)) s1"
    using assms(1,2) by (auto simp: spinning_def worker_sleep_step_def ahead_idle split: if_splits)
  with spinning_run [OF _ assms(3,4)] show ?thesis by (fastforce simp: spinning_def)
qed

text \<open>Ten turns of the polling loop and the whole idle time of 37 ticks.\<close>

theorem awake_for_idle_time_witness:
  "\<exists>s s'. worker_sleep_step ((sinit (- 5) 37)\<lparr>pend := 1, spc_of := SPass\<rparr>) = Inr s \<and>
     srun (replicate 20 Worker @ replicate 37 Tick @ [Worker]) s = Inr s' \<and>
     (spc_of s' = SPoll \<or> spc_of s' = SClock \<or> spc_of s' = SPass \<or> spc_of s' = SExit)"
proof -
  let ?s = "(sinit (- 5) 37)\<lparr>pend := 1, spc_of := SPass\<rparr>"
  let ?as = "replicate 20 Worker @ replicate 37 Tick @ [Worker]"
  obtain s s' where r: "worker_sleep_step ?s = Inr s" "srun ?as s = Inr s'"
  proof -
    have "(case bind_res (worker_sleep_step ?s) (srun ?as) of Inl e \<Rightarrow> False | Inr s' \<Rightarrow> True)" by code_simp
    then show thesis using that by (auto simp: bind_res_Inr_iff split: sum.splits)
  qed
  have "spc_of ?s = SPass" "count_list ?as Tick \<le> unat (idle ?s)"
    by (simp add: sinit_def) code_simp
  from awake_for_idle_time [OF this(1) r this(2)] r show ?thesis by blast
qed

end
