(* ===== verification/Batch_Cycle.thy ===== *)
theory Batch_Cycle
  imports Wrappers
begin

text \<open>
  A batch from end to end: \<open>init_worker\<close>, \<open>batch_start\<close>, the calls of a server, the kernel workers of
  the process, each on its own table. The lemmas link the states the components leave to the ones
  the next component needs.
\<close>

section \<open>A worker in the state of the machine\<close>

text \<open>The pass of worker \<open>t\<close> over \<open>table[t]\<close>, with the module's variables.\<close>

definition worker_turn :: "arch \<Rightarrow> 'w systab \<Rightarrow> int \<Rightarrow> saio \<times> 'w \<Rightarrow> (saio \<times> 'w) res" where
  "worker_turn arc tab t sw = (case sw of (s, w) \<Rightarrow>
     bind_res (ktable_at s t) (\<lambda>p.
     bind_res (hdr_at s p) (\<lambda>ch.
     bind_res (worker_pass arc tab (kglob s) t ch (submitted s) w) (\<lambda>l.
     Inr ((put_hdr p (wl_ch l) s)\<lparr>submitted := wl_sub l\<rparr>, wl_world l)))))"

definition served :: "saio \<Rightarrow> int set \<Rightarrow> saio \<Rightarrow> bool" where
  "served s T s' \<longleftrightarrow> (\<exists>m sub. s' = s\<lparr>mem := m, submitted := sub\<rparr>) \<and>
     (\<forall>t. own s t \<longrightarrow> pending_at s' t = (if t \<in> T then [] else pending_at s t))"

lemma own_set_ok:
  assumes "attached s" and "own s t"
  shows "set_ok (glob s) t"
proof -
  let ?i = "this_worker_id s" and ?R = "RATIO (glob s)"
  have a: "1 \<le> ?R" "0 \<le> ?i" "(?i + 1) * ?R \<le> CPU_NUM_LIMIT" using assms(1) by (auto simp: attached_def)
  have o: "?i * ?R \<le> t" "t < ?i * ?R + ?R" using assms(2) by (auto simp: own_def)
  have i: "0 \<le> ?i * ?R" using a by simp
  have "t = ?i * ?R" if "t mod ?R = 0"
  proof -
    obtain q where q: "t = q * ?R" using \<open>t mod ?R = 0\<close> by (metis mod_0_imp_dvd dvd_def mult.commute)
    then have "?i * ?R \<le> q * ?R" "q * ?R < (?i + 1) * ?R" using o by (simp_all add: distrib_right)
    then have "?i \<le> q" "q < ?i + 1" using a(1) by (simp_all add: mult_less_cancel_right)
    then show ?thesis using q by simp
  qed
  moreover have "?i * ?R + ?R \<le> CPU_NUM_LIMIT" using a(3) by (simp add: distrib_right)
  moreover from this have "?R \<le> CPU_NUM_LIMIT" "0 \<le> t" "t < CPU_NUM_LIMIT" using o i by linarith+
  ultimately show ?thesis using a(1) by (auto simp: set_ok_def)
qed

lemma worker_turn_ok:
  assumes q: "queues_ok tab s" and k: "kglob s = glob s" and o: "own s t"
  shows "\<exists>s' w'. worker_turn arc tab t (s, w) = Inr (s', w') \<and> queues_ok tab s' \<and> served s {t} s' \<and>
    perform_all arc tab (pending_at s t) w = Inr w'"
proof -
  have a: "attached s" and inv: "\<And>t'. own s t' \<Longrightarrow> queue_inv (glob s) tab (chan_at s t')"
    using q by (auto simp: queues_ok_def)
  obtain p where p: "ktable_at s t = Inr p" "hdr_at s p = Inr (chan_at s t)" "utable s t = Some p"
    by (rule own_access [OF a o])
  obtain l where l: "worker_pass arc tab (glob s) t (chan_at s t) (submitted s) w = Inr l"
    "queue_inv (glob s) tab (wl_ch l)" "pending (glob s) (wl_ch l) = []"
    "perform_all arc tab (pending (glob s) (chan_at s t)) w = Inr (wl_world l)"
    using worker_pass_ok [OF inv [OF o] own_set_ok [OF a o]] by blast
  let ?s = "(put_hdr p (wl_ch l) s)\<lparr>submitted := wl_sub l\<rparr>"
  have at: "chan_at ?s t' = (if t' = t then wl_ch l else chan_at s t')" if "own s t'" for t'
    using chan_at_put [OF a o p(3) that, of "wl_ch l"] by (simp add: chan_at_def)
  have "attached ?s" "own ?s = own s" using a attached_cong [of ?s s] by (simp_all add: own_def fun_eq_iff)
  then have "queues_ok tab ?s" using inv at l(2) by (simp add: queues_ok_def)
  moreover have "served s {t} ?s"
    unfolding served_def using at l(3) by (auto simp: pending_at_def put_hdr_def)
  moreover have "worker_turn arc tab t (s, w) = Inr (?s, wl_world l)"
    by (simp add: worker_turn_def p k l(1))
  ultimately show ?thesis using l(4) by (auto simp: pending_at_def)
qed

text \<open>The workers of the set one after the other, in any order.\<close>

lemma worker_turns_ok:
  assumes "queues_ok tab s" and "kglob s = glob s" and "list_all (own s) ts" and "distinct ts"
  shows "\<exists>s' w'. fold_res (worker_turn arc tab) ts (s, w) = Inr (s', w') \<and> queues_ok tab s' \<and> served s (set ts) s' \<and>
    perform_all arc tab (concat (map (pending_at s) ts)) w = Inr w'"
  using assms
proof (induction ts arbitrary: s w)
  case Nil
  have "\<exists>m sub. s = s\<lparr>mem := m, submitted := sub\<rparr>" by (intro exI [of _ "mem s"] exI [of _ "submitted s"]) simp
  with Nil show ?case by (simp add: served_def perform_all_def)
next
  case (Cons t ts)
  obtain s1 w1 where 1: "worker_turn arc tab t (s, w) = Inr (s1, w1)" "queues_ok tab s1" "served s {t} s1"
    "perform_all arc tab (pending_at s t) w = Inr w1"
    using worker_turn_ok [of tab s t arc w] Cons.prems by auto
  from 1(3) have f: "glob s1 = glob s" "kglob s1 = kglob s" "own s1 = own s"
    and e: "\<exists>m sub. s1 = s\<lparr>mem := m, submitted := sub\<rparr>"
    by (auto simp: served_def own_def fun_eq_iff)
  obtain s2 w2 where 2: "fold_res (worker_turn arc tab) ts (s1, w1) = Inr (s2, w2)" "queues_ok tab s2" "served s1 (set ts) s2"
    "perform_all arc tab (concat (map (pending_at s1) ts)) w1 = Inr w2"
    using Cons.IH [of s1 w1] Cons.prems 1(2) f by auto
  have "concat (map (pending_at s1) ts) = concat (map (pending_at s) ts)"
    using 1(3) Cons.prems(3,4) by (intro arg_cong [of _ _ concat] map_cong) (auto simp: served_def list_all_iff)
  then have "perform_all arc tab (concat (map (pending_at s) (t # ts))) w = Inr w2"
    using 1(4) 2(4) by (simp add: perform_all_append)
  moreover have "served s (set (t # ts)) s2"
    using 1(3) 2(3) e f(3) by (fastforce simp: served_def)
  ultimately show ?case using 1(1) 2(1,2) by auto
qed

section \<open>After start-up\<close>

definition bootable :: "alloc_env \<Rightarrow> int \<Rightarrow> saio \<Rightarrow> bool" where
  "bootable env idx s \<longleftrightarrow> 0 \<le> idx \<and> idx < MAX_USR_WORKER (glob s) \<and> 1 \<le> RATIO (glob s) \<and>
     MAX_USR_WORKER (glob s) * RATIO (glob s) \<le> CPU_NUM_LIMIT \<and> kglob s = glob s \<and> layout_ok (pgsize s) (glob s) \<and>
     RATIO (glob s) * sizeof_table \<le> pgsize s \<and> (\<exists>page. header_page env = Some page \<and> (\<forall>k. typed_hdr (mem s page k))) \<and>
     (\<forall>i. (\<exists>b. table_buf env i = Some b \<and> (\<forall>p l. length (args (b p l)) = 6)) \<and> MAX_TABLE_LEN (glob s) \<le> pinned env i)"

lemma ready_chan_queue:
  assumes "ready_chan g ch"
  shows "queue_inv g tab ch" and "pending g ch = []" and "flags (hdr ch) = ESCA_WORKER_NEED_WAKEUP"
proof -
  have r: "ring_ok g" using assms by (auto simp: ready_chan_def chan_ok_def layout_ok_def)
  have n: "n_pending g ch = 0" using assms by (simp add: ready_chan_def n_pending_def submitted_count_def)
  show "queue_inv g tab ch"
    using assms ring_okD [OF r] n by (simp add: queue_inv_def ready_chan_def hdr_ok_def idx_ok_def)
  show "pending g ch = []" by (simp add: pending_def n)
  show "flags (hdr ch) = ESCA_WORKER_NEED_WAKEUP" using assms by (simp add: ready_chan_def)
qed

lemma bootable_ready:
  assumes "bootable env idx s"
  shows "\<exists>s'. init_worker env idx s = Inr s' \<and> queues_ok tab s' \<and> glob s' = glob s \<and> kglob s' = glob s \<and>
    this_worker_id s' = idx \<and> batch_num s' = 0 \<and>
    (\<forall>t. own s' t \<longrightarrow> pending_at s' t = [] \<and> flags (hdr (chan_at s' t)) = ESCA_WORKER_NEED_WAKEUP)"
proof -
  let ?R = "RATIO (glob s)"
  from assms obtain page where b: "0 \<le> idx" "idx < MAX_USR_WORKER (glob s)" "1 \<le> ?R"
    "MAX_USR_WORKER (glob s) * ?R \<le> CPU_NUM_LIMIT" "kglob s = glob s" "layout_ok (pgsize s) (glob s)"
    "?R * sizeof_table \<le> pgsize s" "header_page env = Some page"
    "\<forall>i. (\<exists>b. table_buf env i = Some b \<and> (\<forall>p l. length (args (b p l)) = 6)) \<and> MAX_TABLE_LEN (glob s) \<le> pinned env i"
    "\<forall>k. typed_hdr (mem s page k)"
    unfolding bootable_def by blast
  obtain s' where s': "init_worker env idx s = Inr s'" "this_worker_id s' = idx" "glob s' = glob s" "kglob s' = glob s"
    "pgsize s' = pgsize s" "batch_num s' = 0"
    and ut: "\<And>i. idx * ?R \<le> i \<Longrightarrow> i < idx * ?R + ?R \<Longrightarrow> utable s' i = Some (page, i - idx * ?R) \<and> ktable s' i = utable s' i \<and>
       ready_chan (glob s) (mem s' page (i - idx * ?R))"
    using init_worker_ok [OF b] by blast
  have ow: "own s' t \<longleftrightarrow> idx * ?R \<le> t \<and> t < idx * ?R + ?R" for t by (simp add: own_def s')
  have "(idx + 1) * ?R \<le> MAX_USR_WORKER (glob s) * ?R" using b(2,3) by (intro mult_right_mono) auto
  then have lim: "(idx + 1) * ?R \<le> CPU_NUM_LIMIT" using b(4) by linarith
  have fit: "(t - idx * ?R + 1) * sizeof_table \<le> pgsize s" if "own s' t" for t
    using b(7) that mult_right_mono [of "t - idx * ?R + 1" ?R sizeof_table] by (simp add: ow)
  have at: "chan_at s' t = mem s' page (t - idx * ?R)" if "own s' t" for t
    using ut [of t] that by (simp add: chan_at_def ow)
  have rc: "ready_chan (glob s') (chan_at s' t)" if "own s' t" for t
    using ut [of t] that at [OF that] by (simp add: ow s')
  have "attached s'"
    unfolding attached_def using b lim s' ut ow fit by (auto simp: ow)
  then show ?thesis
    using s' ready_chan_queue [OF rc] by (auto simp: queues_ok_def pending_at_def)
qed

text \<open>After \<open>batch_start\<close> the segment is open, and the tables have room for fewer calls than a ring holds.\<close>

lemma open_fits:
  assumes "queues_ok tab s" and "\<forall>t. own s t \<longrightarrow> pending_at s t = []" and "batch_num s = 0" and "length cs < slots (glob s)"
  shows "fits s dest cs"
proof -
  have "own s (this_worker_id s * RATIO (glob s))" using assms(1) by (simp add: queues_ok_def attached_def own_def)
  then have "ring_ok (glob s)" using assms(1) by (auto simp: queues_ok_def queue_inv_def dest: chan_ok_ring)
  then have "int_ok (int (length cs))" using assms(4) ring_okD(7) [of "glob s"] by (simp add: int_ok_def)
  moreover have "length (calls_for s dest t cs) < slots (glob s)" for t
    using assms(4) length_filter_le [of _ cs] le_less_trans unfolding calls_for_def by blast
  ultimately show ?thesis using assms(2,3) by (simp add: fits_def)
qed

lemma started_batch:
  assumes "bootable env idx s" and "length cs < slots (glob s)"
  shows "\<exists>s1 s2. init_worker env idx s = Inr s1 \<and>
    batch_start s1 = Inr (0, s2, [idx * RATIO (glob s)..idx * RATIO (glob s) + RATIO (glob s) - 1]) \<and>
    queues_ok tab s2 \<and> in_segment s2 \<noteq> 0 \<and> glob s2 = glob s \<and> kglob s2 = glob s \<and> this_worker_id s2 = idx \<and>
    (\<forall>t. own s2 t \<longrightarrow> pending_at s2 t = []) \<and> fits s2 dest cs"
proof -
  obtain s1 where 1: "init_worker env idx s = Inr s1" "queues_ok tab s1" "glob s1 = glob s" "kglob s1 = glob s"
    "this_worker_id s1 = idx" "batch_num s1 = 0"
    and fl: "\<And>t. own s1 t \<Longrightarrow> pending_at s1 t = [] \<and> flags (hdr (chan_at s1 t)) = ESCA_WORKER_NEED_WAKEUP"
    using bootable_ready [OF assms(1)] by blast
  let ?s2 = "s1\<lparr>in_segment := 1\<rparr>" and ?ts = "[idx * RATIO (glob s)..idx * RATIO (glob s) + RATIO (glob s) - 1]"
  have a: "attached s1" using 1(2) by (simp add: queues_ok_def)
  have z: "ESCA_WORKER_NEED_WAKEUP AND ESCA_START_WAKEUP = 0" "ESCA_WORKER_NEED_WAKEUP AND ESCA_WORKER_NEED_WAKEUP \<noteq> 0"
    by (simp_all add: flag_vals)
  have "\<forall>t \<in> set ?ts. own s1 t" by (simp add: own_def 1)
  then have f: "filter (\<lambda>j. flags (hdr (chan_at s1 j)) AND ESCA_WORKER_NEED_WAKEUP \<noteq> 0) ?ts = ?ts"
    using fl z(2) by (simp add: filter_id_conv)
  have "batch_start s1 = Inr (0, ?s2, ?ts)"
    using batch_start_ok [OF a] fl z(1) f by (simp add: 1)
  moreover have c: "queues_ok tab ?s2" "pending_at ?s2 = pending_at s1" "own ?s2 = own s1"
    using 1(2) by (simp_all add: queues_ok_cong [of ?s2 s1])
  moreover have "fits ?s2 dest cs" using open_fits [OF c(1)] fl c assms(2) 1 by simp
  ultimately show ?thesis using 1 fl by (intro exI [of _ s1] exI [of _ ?s2]) simp
qed

section \<open>A batch\<close>

context batched_calls
begin

lemma batch_served:
  assumes "bootable env idx s" and "list_all (\<lambda>c. fd_ok (dest c) \<and> req_ok tab (call c)) cs"
    and "length cs < slots (glob s)"
    and "distinct ts" and "set ts = {idx * RATIO (glob s)..<idx * RATIO (glob s) + RATIO (glob s)}"
  shows "\<exists>s1 s2 s3 s4 w'. init_worker env idx s = Inr s1 \<and>
    batch_start s1 = Inr (0, s2, [idx * RATIO (glob s)..idx * RATIO (glob s) + RATIO (glob s) - 1]) \<and>
    run_calls oper cs (s2, w) = Inr (map ret cs, s3, w) \<and>
    fold_res (worker_turn arc tab) ts (s3, w) = Inr (s4, w') \<and>
    perform_all arc tab (concat (map (\<lambda>t. map call
      (filter (\<lambda>c. idx * RATIO (glob s) + dest c mod RATIO (glob s) = t) cs)) ts)) w = Inr w' \<and>
    list_all (\<lambda>t. pending_at s4 t = []) ts \<and>
    batch_flush s4 = Inr (0, s4\<lparr>in_segment := 0, batch_num := 0\<rparr>)"
proof -
  obtain s1 s2 where 1: "init_worker env idx s = Inr s1"
    "batch_start s1 = Inr (0, s2, [idx * RATIO (glob s)..idx * RATIO (glob s) + RATIO (glob s) - 1])"
    and 2: "queues_ok tab s2" "in_segment s2 \<noteq> 0" "glob s2 = glob s" "kglob s2 = glob s" "this_worker_id s2 = idx"
      "\<forall>t. own s2 t \<longrightarrow> pending_at s2 t = []" "fits s2 dest cs"
    using started_batch [OF assms(1,3)] by blast
  obtain s3 where 3: "run_calls oper cs (s2, w) = Inr (map ret cs, s3, w)"
    "batched tab s2 dest call cs s3"
    using inside_sequence [OF 2(2,1) assms(2) 2(7)] by blast
  from 3(2) have b: "queues_ok tab s3" "glob s3 = glob s" "kglob s3 = glob s" "this_worker_id s3 = idx"
    and p3: "\<And>t. own s2 t \<Longrightarrow> pending_at s3 t = map call (calls_for s2 dest t cs)"
    using 2 by (auto simp: batched_def)
  have b': "own s3 = own s2" using b 2 by (intro same_process(1)) simp_all
  have o: "own s3 t \<longleftrightarrow> t \<in> set ts" for t unfolding assms(5) by (simp add: own_def b)
  obtain s4 w' where 4: "fold_res (worker_turn arc tab) ts (s3, w) = Inr (s4, w')" "queues_ok tab s4" "served s3 (set ts) s4"
    "perform_all arc tab (concat (map (pending_at s3) ts)) w = Inr w'"
    using worker_turns_ok [OF b(1) _ _ assms(4), of arc w] b(2,3) o by (auto simp: list_all_iff)
  have m: "map (pending_at s3) ts = map (\<lambda>t. map call
      (filter (\<lambda>c. idx * RATIO (glob s) + dest c mod RATIO (glob s) = t) cs)) ts"
    using p3 o b' 2(3,5) by (auto simp: calls_for_def table_of_def)
  have "list_all (\<lambda>t. pending_at s4 t = []) ts" using 4(3) o by (auto simp: served_def list_all_iff)
  moreover have "batch_flush s4 = Inr (0, s4\<lparr>in_segment := 0, batch_num := 0\<rparr>)"
    using 4(2) by (intro batch_flush_ok) (simp add: queues_ok_def)
  ultimately show ?thesis using 1 3(1) 4(1) 4(4) [unfolded m] by blast
qed

end

end
