(* ===== verification/Start_Up.thy ===== *)
theory Start_Up
  imports Batch_Cycle
begin

text \<open>
  The constructor of the library, \<open>setup\<close> (\<open>wrapper/preload.c\<close>), as a whole: the process's number
  and page size, the addresses of the C library's own calls, the configuration on both sides; and
  what the configuration that comes with the sources, \<open>esca.conf\<close>, makes of a server.
\<close>

section \<open>The constructor\<close>

text \<open>The variables of \<open>preload.h\<close> that hold the real calls: addresses, null until they are looked up.\<close>

record lib =
  main_pid :: int
  real_open :: "64 word"
  real_close :: "64 word"
  real_write :: "64 word"
  real_read :: "64 word"
  real_writev :: "64 word"
  real_shutdown :: "64 word"
  real_sendfile :: "64 word"
  real_sendmsg :: "64 word"

text \<open>
  What the constructor finds: the answers of \<open>getpid\<close>, \<open>getpagesize\<close> and \<open>dlsym\<close>, the block \<open>malloc\<close>
  returns, the text of the configuration file if it can be opened, the block \<open>kmalloc\<close> returns to the
  module, and what \<open>copy_from_user\<close> leaves in it.
\<close>

record setup_env =
  getpid :: int
  getpagesize :: int
  dlsym :: "string \<Rightarrow> 64 word"
  conf_block :: "esca_config option"
  conf_file :: "string option"
  kconf_block :: "esca_config option"
  copy_conf :: "esca_config \<Rightarrow> esca_config \<Rightarrow> esca_config"

definition look_up :: "setup_env \<Rightarrow> 64 word \<Rightarrow> string \<Rightarrow> 64 word" where
  "look_up env p name = (if p \<noteq> 0 then p else dlsym env name)"

definition real_calls :: "setup_env \<Rightarrow> lib \<Rightarrow> lib" where
  "real_calls env l = l
     \<lparr>real_open := look_up env (real_open l) ''open'',
      real_close := look_up env (real_close l) ''close'',
      real_write := look_up env (real_write l) ''write'',
      real_read := look_up env (real_read l) ''read'',
      real_writev := look_up env (real_writev l) ''writev'',
      real_shutdown := look_up env (real_shutdown l) ''shutdown'',
      real_sendfile := look_up env (real_sendfile l) ''sendfile'',
      real_sendmsg := look_up env (real_sendmsg l) ''sendmsg''\<rparr>"

definition setup_lib :: "setup_env \<Rightarrow> lib \<times> saio \<Rightarrow> (lib \<times> saio) res" where
  "setup_lib env ls = (case ls of (l, s) \<Rightarrow>
     let l = l\<lparr>main_pid := getpid env\<rparr>;
         s = s\<lparr>pgsize := getpagesize env\<rparr>;
         l = real_calls env l in
     bind_res (setup_conf (conf_block env) (conf_file env)) (\<lambda>(config, g).
     bind_res (sys_esca_init_config (kconf_block env) (copy_conf env config)) (\<lambda>k.
     Inr (l, s\<lparr>glob := g, kglob := k\<rparr>))))"

text \<open>Once all calls have been found, the constructor run again in the same process changes none of them.\<close>

lemma real_calls_twice:
  assumes "\<forall>name. dlsym env name \<noteq> 0"
  shows "real_calls env' (real_calls env l) = real_calls env l"
  using assms by (simp add: real_calls_def look_up_def)

section \<open>The configuration of the sources\<close>

definition shipped_conf :: string where
  "shipped_conf = ''esca_localize = 0'' @ [CHR 0x0A] @ ''max_table_entry = 64'' @ [CHR 0x0A] @
     ''max_table_len = 10'' @ [CHR 0x0A] @ ''max_usr_worker = 1'' @ [CHR 0x0A] @ ''max_ker_worker = 1'' @ [CHR 0x0A] @
     ''default_idle_time = 1500'' @ [CHR 0x0A] @ ''affinity_offset = 0''"

definition shipped_config :: esca_config where
  "shipped_config = \<lparr>esca_localize = 0, max_table_entry = 64, max_table_len = 10, max_usr_worker = 1, max_ker_worker = 1,
     default_idle_time = 1500, affinity_offset = 0\<rparr>"

definition shipped_globals :: globals where
  "shipped_globals = \<lparr>ESCA_LOCALIZE = 0, MAX_TABLE_ENTRY = 64, MAX_TABLE_LEN = 10, MAX_USR_WORKER = 1, MAX_CPU_NUM = 1,
     RATIO = 1, DEFAULT_IDLE_TIME = 1500, AFF_OFF = 0\<rparr>"

lemma shipped_parse: "parse_conf shipped_conf c = Inr shipped_config"
proof (cases c)
  case (fields l e n u k d a)
  show ?thesis unfolding fields by code_simp
qed

lemma shipped_init: "init_config shipped_config = Inr shipped_globals"
  by code_simp

lemma shipped_sys_init: "sys_esca_init_config (Some blk) (\<lambda>_. shipped_config) = Inr shipped_globals"
  by (simp add: sys_esca_init_config_def shipped_config_def shipped_globals_def c_div_nonneg int_ok_def)

lemma shipped_simps [simp]:
  "MAX_TABLE_ENTRY shipped_globals = 64" "MAX_TABLE_LEN shipped_globals = 10" "MAX_USR_WORKER shipped_globals = 1"
  "RATIO shipped_globals = 1" "slots shipped_globals = 640"
  by (simp_all add: shipped_globals_def slots_def)

lemma setup_shipped:
  assumes "conf_block env = Some junk" and "conf_file env = Some shipped_conf" and "kconf_block env = Some blk"
    and "copy_conf env = (\<lambda>c b. c)"
  shows "setup_lib env (l, s) = Inr (real_calls env (l\<lparr>main_pid := getpid env\<rparr>),
    s\<lparr>pgsize := getpagesize env, glob := shipped_globals, kglob := shipped_globals\<rparr>)"
  by (simp add: setup_lib_def setup_conf_def assms shipped_parse shipped_init shipped_sys_init Let_def)

text \<open>What \<open>init_worker\<close> needs of the kernel: a page for the headers, and the pages of the tables pinned.\<close>

definition memory_ok :: "alloc_env \<Rightarrow> saio \<Rightarrow> bool" where
  "memory_ok aenv s \<longleftrightarrow> (\<exists>page. header_page aenv = Some page \<and> (\<forall>k. typed_hdr (mem s page k))) \<and>
     (\<forall>i. (\<exists>b. table_buf aenv i = Some b \<and> (\<forall>p l. length (args (b p l)) = 6)) \<and> 10 \<le> pinned aenv i)"

lemma shipped_bootable:
  assumes "memory_ok aenv s"
  shows "bootable aenv 0 (s\<lparr>pgsize := 4096, glob := shipped_globals, kglob := shipped_globals\<rparr>)"
  using assms by (simp add: bootable_def memory_ok_def layout_ok_def ring_ok_def)

section \<open>Properties\<close>

text \<open>
  C2: the library and the module as they come, from the constructor to the end of a batch: with the
  configuration file of the sources and pages of 4096 bytes both sides read the same variables, the
  server starts, up to 639 calls of a batch return at once, and the one worker performs exactly
  these calls in the order they were made.
\<close>

theorem shipped_nginx_served:
  fixes tab :: "'w systab" and w :: 'w
  assumes "conf_block env = Some junk" and "conf_file env = Some shipped_conf" and "kconf_block env = Some blk"
    and "copy_conf env = (\<lambda>c b. c)" and "getpagesize env = 4096" and "memory_ok aenv s"
    and "list_all (\<lambda>c. fd_ok (ngx_dest c) \<and> req_ok tab (ngx_request arc c)) cs" and "length cs < 640"
  shows "\<exists>l' s0 s1 s2 s3 s4 w'. setup_lib env (l, s) = Inr (l', s0) \<and> kglob s0 = glob s0 \<and>
    init_worker aenv 0 s0 = Inr s1 \<and> batch_start s1 = Inr (0, s2, [0]) \<and>
    run_calls (ngx_oper rc rs arc) cs (s2, w) = Inr (map ngx_ret cs, s3, w) \<and>
    worker_turn arc tab 0 (s3, w) = Inr (s4, w') \<and> perform_all arc tab (map (ngx_request arc) cs) w = Inr w' \<and>
    pending_at s4 0 = [] \<and> batch_flush s4 = Inr (0, s4\<lparr>in_segment := 0, batch_num := 0\<rparr>)"
proof -
  let ?s = "s\<lparr>pgsize := 4096, glob := shipped_globals, kglob := shipped_globals\<rparr>"
  note b = shipped_bootable [OF assms(6)]
  have n: "length cs < slots (glob ?s)" "distinct [0 :: int]" using assms(8) by simp_all
  have t: "set [0] = {0 * RATIO (glob ?s)..<0 * RATIO (glob ?s) + RATIO (glob ?s)}" by auto
  have f: "filter (\<lambda>c. ngx_dest c mod 1 = 0) cs = cs" by (simp add: filter_id_conv)
  have "setup_lib env (l, s) = Inr (real_calls env (l\<lparr>main_pid := getpid env\<rparr>), ?s)"
    using setup_shipped [OF assms(1-4)] assms(5) by simp
  with ngx.batch_served [OF b assms(7) n t, of rc rs w] f show ?thesis
    by (auto simp: bind_res_Inr_iff upto_rec1)
qed

theorem shipped_nginx_served_witness:
  "\<exists>l' s0 s1 s2 s3 s4. setup_lib \<lparr>getpid = 7, getpagesize = 4096, dlsym = \<lambda>n. of_nat (length n),
       conf_block = Some default_config, conf_file = Some shipped_conf, kconf_block = Some default_config, copy_conf = \<lambda>c b. c\<rparr>
       (\<lparr>main_pid = 0, real_open = 0, real_close = 0, real_write = 0, real_read = 0, real_writev = 0, real_shutdown = 0,
         real_sendfile = 0, real_sendmsg = 0\<rparr>, sample_saio) = Inr (l', s0) \<and>
     init_worker (sample_env\<lparr>pinned := \<lambda>_. 10\<rparr>) 0 s0 = Inr s1 \<and> batch_start s1 = Inr (0, s2, [0]) \<and>
     run_calls (ngx_oper (\<lambda>fd w. (-1, w)) (\<lambda>a b c d w. ((-1, None), w)) X86_64) [Close 4, Close 7] (s2, [] :: 64 word list) =
       Inr ([(0, None), (0, None)], s3, []) \<and>
     worker_turn X86_64 sample_tab 0 (s3, []) = Inr (s4, [4, 7]) \<and> pending_at s4 0 = []"
  (is "\<exists>l' s0 s1 s2 s3 s4. setup_lib ?env (?l, _) = _ \<and> init_worker ?aenv _ _ = _ \<and> _ \<and> run_calls (ngx_oper ?rc ?rs _) ?cs _ = _ \<and> _")
proof -
  have m: "memory_ok ?aenv sample_saio"
    by (simp add: memory_ok_def sample_saio_def sample_env_def typed_hdr_def sample_hdr_def sample_entry_def)
  have l: "list_all (\<lambda>c. fd_ok (ngx_dest c) \<and> req_ok sample_tab (ngx_request X86_64 c)) ?cs" by code_simp
  have p: "perform_all X86_64 sample_tab (map (ngx_request X86_64) ?cs) [] = Inr [4, 7]" by code_simp
  have e: "conf_block ?env = Some default_config" "conf_file ?env = Some shipped_conf" "kconf_block ?env = Some default_config"
    "copy_conf ?env = (\<lambda>c b. c)" "getpagesize ?env = 4096" "length ?cs < 640" by simp_all
  from shipped_nginx_served [OF e(1-5) m l e(6), of ?l ?rc ?rs "[]"] show ?thesis
    unfolding p by fastforce
qed

end
