(* ===== verification/Lioo_Module.thy ===== *)
theory Lioo_Module
  imports Shared_Layout
begin

unbundle bit_operations_syntax

text \<open>
  Loading and unloading the module (\<open>lioo_init\<close>, \<open>lioo_exit\<close> and the write-protection switches
  of \<open>module/lioo.c\<close> and \<open>module/lib/util.c\<close>, the symbol resolution of \<open>module/lib/symbol.c\<close>), and
  the function meant to stop the workers (\<open>sys_lioo_exit\<close>).
\<close>

section \<open>The kernel the module changes\<close>

text \<open>The performance-monitor registers of aarch64 the module writes.\<close>

record pmu =
  pmintenset :: "64 word"
  pmcntenset :: "64 word"
  pmuserenr :: "64 word"
  pmcr :: "64 word"
  pmccfiltr :: "64 word"

text \<open>
  Kernel memory by address, in words of eight bytes; the control register \<open>cr0\<close> of x86-64; the
  page-table entry of each page of aarch64; the module's variables.
\<close>

record kernel =
  kmem :: "64 word \<Rightarrow> 64 word"
  cr0 :: "64 word"
  ptes :: "64 word \<Rightarrow> 64 word"
  pmu_of :: "nat \<Rightarrow> pmu"
  ncpus :: nat
  syscall_table_ptr :: "64 word"
  create_io_thread_ptr :: "64 word"
  wake_up_new_task_ptr :: "64 word"
  init_mm_ptr :: "64 word"
  syscall_register_ori :: "64 word"
  syscall_exit_ori :: "64 word"
  syscall_wait_ori :: "64 word"
  syscall_init_conf_ori :: "64 word"

text \<open>
  The link-time addresses of the generated header \<open>systab.h\<close>, the protection bits and the page
  mask of the kernel's headers, and the addresses of the module's four system calls.
\<close>

record symbols =
  scTab :: "64 word"
  sysWQ :: "64 word"
  create_io_thread_base :: "64 word"
  wake_up_new_task_base :: "64 word"
  sysMM :: "64 word"

record kconsts =
  PTE_WRITE :: "64 word"
  PTE_RDONLY :: "64 word"
  PAGE_MASK :: "64 word"

record hooks =
  h_register :: "64 word"
  h_wakeup :: "64 word"
  h_wait :: "64 word"
  h_config :: "64 word"

section \<open>Finding the symbols\<close>

text \<open>\<open>wq\<close> is the run-time address of \<open>system_wq\<close>.\<close>

definition init_not_exported_symbol :: "symbols \<Rightarrow> 64 word \<Rightarrow> kernel \<Rightarrow> kernel" where
  "init_not_exported_symbol sy wq k =
     k\<lparr>syscall_table_ptr := scTab sy + (wq - sysWQ sy),
       create_io_thread_ptr := create_io_thread_base sy + (wq - sysWQ sy),
       wake_up_new_task_ptr := wake_up_new_task_base sy + (wq - sysWQ sy)\<rparr>"

section \<open>Write protection\<close>

definition change_page_range :: "64 word \<Rightarrow> 64 word \<Rightarrow> 64 word \<Rightarrow> 64 word" where
  "change_page_range set_mask clear_mask pte = (pte AND NOT clear_mask) OR set_mask"

text \<open>The range is one page.\<close>

definition change_memory_common :: "64 word \<Rightarrow> 64 word \<Rightarrow> 64 word \<Rightarrow> kernel \<Rightarrow> kernel" where
  "change_memory_common start set_mask clear_mask k =
     k\<lparr>ptes := (ptes k)(start := change_page_range set_mask clear_mask (ptes k start))\<rparr>"

definition set_page_rw :: "kconsts \<Rightarrow> 64 word \<Rightarrow> kernel \<Rightarrow> kernel" where
  "set_page_rw kc addr = change_memory_common addr (PTE_WRITE kc) (PTE_RDONLY kc)"

definition set_page_ro :: "kconsts \<Rightarrow> 64 word \<Rightarrow> kernel \<Rightarrow> kernel" where
  "set_page_ro kc addr = change_memory_common addr (PTE_RDONLY kc) (PTE_WRITE kc)"

definition sc_addr :: "kernel \<Rightarrow> nat \<Rightarrow> 64 word" where
  "sc_addr k nr = syscall_table_ptr k + 8 * of_nat nr"

definition allow_writes :: "kconsts \<Rightarrow> arch \<Rightarrow> kernel \<Rightarrow> kernel" where
  "allow_writes kc arc k = (case arc of
     X86_64 \<Rightarrow> k\<lparr>cr0 := unset_bit 16 (cr0 k)\<rparr>
   | AARCH64 \<Rightarrow> set_page_rw kc (sc_addr k NR_esca_register AND PAGE_MASK kc) k)"

definition disallow_writes :: "kconsts \<Rightarrow> arch \<Rightarrow> kernel \<Rightarrow> kernel" where
  "disallow_writes kc arc k = (case arc of
     X86_64 \<Rightarrow> k\<lparr>cr0 := set_bit 16 (cr0 k)\<rparr>
   | AARCH64 \<Rightarrow> set_page_ro kc (sc_addr k NR_esca_register AND PAGE_MASK kc) k)"

text \<open>
  The system-call table is read-only data: a store to it goes through while \<open>cr0.WP\<close> is clear,
  or while its page is not marked read-only.
\<close>

definition writable :: "kconsts \<Rightarrow> arch \<Rightarrow> kernel \<Rightarrow> 64 word \<Rightarrow> bool" where
  "writable kc arc k addr = (case arc of
     X86_64 \<Rightarrow> \<not> bit (cr0 k) 16
   | AARCH64 \<Rightarrow> ptes k (addr AND PAGE_MASK kc) AND PTE_RDONLY kc = 0)"

definition store_entry :: "kconsts \<Rightarrow> arch \<Rightarrow> nat \<times> 64 word \<Rightarrow> kernel \<Rightarrow> kernel res" where
  "store_entry kc arc e k = (case e of (nr, v) \<Rightarrow>
     bind_res (guard_res (writable kc arc k (sc_addr k nr)) WriteProtected) (\<lambda>_.
     Inr (k\<lparr>kmem := (kmem k)(sc_addr k nr := v)\<rparr>)))"

section \<open>The cycle counter\<close>

text \<open>\<open>pmintenset\<close> and \<open>pmcntenset\<close> are set-registers: a store sets the bits that are one.\<close>

definition enable_cycle_counter_el0 :: "pmu \<Rightarrow> pmu" where
  "enable_cycle_counter_el0 p =
     (let p = p\<lparr>pmintenset := pmintenset p OR push_bit 31 0\<rparr>;
          p = p\<lparr>pmcntenset := pmcntenset p OR push_bit 31 1\<rparr>;
          p = p\<lparr>pmuserenr := push_bit 0 1 OR push_bit 2 1\<rparr>;
          v = pmcr p OR (push_bit 0 1 OR push_bit 2 1);
          p = p\<lparr>pmcr := v\<rparr>
      in p\<lparr>pmccfiltr := push_bit 27 1\<rparr>)"

definition disable_cycle_counter_el0 :: "pmu \<Rightarrow> pmu" where
  "disable_cycle_counter_el0 p =
     (let p = p\<lparr>pmcntenset := pmcntenset p OR push_bit 31 0\<rparr>
      in p\<lparr>pmuserenr := 0\<rparr>)"

definition on_each_cpu :: "(pmu \<Rightarrow> pmu) \<Rightarrow> kernel \<Rightarrow> kernel" where
  "on_each_cpu f k = k\<lparr>pmu_of := (\<lambda>c. if c < ncpus k then f (pmu_of k c) else pmu_of k c)\<rparr>"

section \<open>Loading and unloading\<close>

definition lioo_init :: "symbols \<Rightarrow> kconsts \<Rightarrow> hooks \<Rightarrow> arch \<Rightarrow> 64 word \<Rightarrow> kernel \<Rightarrow> (int \<times> kernel) res" where
  "lioo_init sy kc hk arc wq k =
     (let k = init_not_exported_symbol sy wq k;
          k = (case arc of X86_64 \<Rightarrow> k
               | AARCH64 \<Rightarrow> on_each_cpu enable_cycle_counter_el0 (k\<lparr>init_mm_ptr := sysMM sy + (wq - sysWQ sy)\<rparr>));
          k = allow_writes kc arc k;
          k = k\<lparr>syscall_register_ori := kmem k (sc_addr k NR_esca_register),
                syscall_exit_ori := kmem k (sc_addr k NR_esca_wakeup),
                syscall_wait_ori := kmem k (sc_addr k NR_esca_wait),
                syscall_init_conf_ori := kmem k (sc_addr k NR_esca_config)\<rparr> in
     bind_res (fold_res (store_entry kc arc)
       [(NR_esca_register, h_register hk), (NR_esca_wakeup, h_wakeup hk),
        (NR_esca_wait, h_wait hk), (NR_esca_config, h_config hk)] k) (\<lambda>k.
     Inr (0, disallow_writes kc arc k)))"

definition lioo_exit :: "symbols \<Rightarrow> kconsts \<Rightarrow> arch \<Rightarrow> 64 word \<Rightarrow> kernel \<Rightarrow> kernel res" where
  "lioo_exit sy kc arc wq k =
     (let k = allow_writes kc arc k in
     bind_res (fold_res (store_entry kc arc)
       [(NR_esca_register, syscall_register_ori k), (NR_esca_wakeup, syscall_exit_ori k),
        (NR_esca_wait, syscall_wait_ori k), (NR_esca_config, syscall_init_conf_ori k)] k) (\<lambda>k.
     let k = disallow_writes kc arc k in
     Inr (case arc of X86_64 \<Rightarrow> k
          | AARCH64 \<Rightarrow> on_each_cpu disable_cycle_counter_el0 (k\<lparr>init_mm_ptr := sysMM sy + (wq - sysWQ sy)\<rparr>))))"

text \<open>\<open>kthread_stop\<close> on the workers that were started; the list collects their numbers.\<close>

definition stop_one :: "int \<Rightarrow> saio \<times> int list \<Rightarrow> (saio \<times> int list) res" where
  "stop_one i sl = (case sl of (s, l) \<Rightarrow>
     bind_res (cpu_index i) (\<lambda>_.
     Inr (s\<lparr>worker_task := (worker_task s)(i := False)\<rparr>, if worker_task s i then l @ [i] else l)))"

definition sys_lioo_exit :: "saio \<Rightarrow> (saio \<times> int list) res" where
  "sys_lioo_exit s = fold_res stop_one [0..MAX_CPU_NUM (kglob s) - 1] (s, [])"

section \<open>Opening and closing the table\<close>

definition esca_nrs :: "nat set" where
  "esca_nrs = {NR_esca_register, NR_esca_wakeup, NR_esca_wait, NR_esca_config}"

text \<open>The fields a gate leaves alone.\<close>

definition same_table :: "kernel \<Rightarrow> kernel \<Rightarrow> bool" where
  "same_table k k' \<longleftrightarrow> kmem k' = kmem k \<and> syscall_table_ptr k' = syscall_table_ptr k \<and>
     syscall_register_ori k' = syscall_register_ori k \<and> syscall_exit_ori k' = syscall_exit_ori k \<and>
     syscall_wait_ori k' = syscall_wait_ori k \<and> syscall_init_conf_ori k' = syscall_init_conf_ori k"

text \<open>
  What loading and unloading rely on: between \<open>allow\<close> and \<open>disallow\<close> the four entries can be
  stored to, afterwards they cannot, and storing does not change what can be stored to.
\<close>

locale write_gate =
  fixes ok :: "kernel \<Rightarrow> bool" and allow :: "kernel \<Rightarrow> kernel" and disallow :: "kernel \<Rightarrow> kernel"
    and can :: "kernel \<Rightarrow> 64 word \<Rightarrow> bool"
  assumes opened: "ok k \<Longrightarrow> nr \<in> esca_nrs \<Longrightarrow> can (allow k) (sc_addr k nr)"
    and closed: "ok k \<Longrightarrow> nr \<in> esca_nrs \<Longrightarrow> \<not> can (disallow k) (sc_addr k nr)"
    and ok_cong: "syscall_table_ptr k' = syscall_table_ptr k \<Longrightarrow> ok k' = ok k"
    and can_kmem: "can (k\<lparr>kmem := m\<rparr>) = can k"
    and can_ori: "can (k\<lparr>syscall_register_ori := a, syscall_exit_ori := b, syscall_wait_ori := c,
      syscall_init_conf_ori := d\<rparr>) = can k"
    and allow_frame: "same_table k (allow k)"
    and disallow_frame: "same_table k (disallow k)"
begin

lemma sc_addr_cong: "syscall_table_ptr k' = syscall_table_ptr k \<Longrightarrow> sc_addr k' = sc_addr k"
  by (simp add: sc_addr_def fun_eq_iff)

lemma stores_ok:
  assumes "\<forall>nr \<in> esca_nrs. can k (sc_addr k nr)" and "fst ` set es \<subseteq> esca_nrs"
    and "\<And>e k. st e k = bind_res (guard_res (can k (sc_addr k (fst e))) WriteProtected) (\<lambda>_.
      Inr (k\<lparr>kmem := (kmem k)(sc_addr k (fst e) := snd e)\<rparr>))"
  shows "fold_res st es k = Inr (k\<lparr>kmem := foldl (\<lambda>m e. m(sc_addr k (fst e) := snd e)) (kmem k) es\<rparr>)"
  using assms(1,2)
proof (induction es arbitrary: k)
  case (Cons e es)
  let ?k = "k\<lparr>kmem := (kmem k)(sc_addr k (fst e) := snd e)\<rparr>"
  have a: "sc_addr ?k = sc_addr k" by (rule sc_addr_cong) simp
  have "st e k = Inr ?k" using Cons.prems by (simp add: assms(3))
  moreover have "\<forall>nr \<in> esca_nrs. can ?k (sc_addr ?k nr)" using Cons.prems(1) a by (simp add: can_kmem)
  ultimately show ?case using Cons.IH [of ?k] Cons.prems(2) a by simp
qed simp

lemma stores_fault:
  assumes "e \<in> set es" and "\<not> can k (sc_addr k (fst e))"
    and "\<And>e k. st e k = bind_res (guard_res (can k (sc_addr k (fst e))) WriteProtected) (\<lambda>_.
      Inr (k\<lparr>kmem := (kmem k)(sc_addr k (fst e) := snd e)\<rparr>))"
  shows "fold_res st es k = Inl WriteProtected"
  using assms(1,2)
proof (induction es arbitrary: k)
  case (Cons f es)
  let ?k = "k\<lparr>kmem := (kmem k)(sc_addr k (fst f) := snd f)\<rparr>"
  have a: "sc_addr ?k = sc_addr k" by (rule sc_addr_cong) simp
  show ?case
  proof (cases "can k (sc_addr k (fst f))")
    case True
    then have "e \<in> set es" using Cons.prems by auto
    then show ?thesis using Cons.IH [of ?k] Cons.prems(2) a True by (simp add: assms(3) can_kmem)
  qed (simp add: assms(3))
qed simp

end

text \<open>On aarch64 only the page of the first entry is opened.\<close>

definition gate_ok :: "kconsts \<Rightarrow> arch \<Rightarrow> kernel \<Rightarrow> bool" where
  "gate_ok kc arc k \<longleftrightarrow> arc = AARCH64 \<longrightarrow>
     PTE_WRITE kc AND PTE_RDONLY kc = 0 \<and> PTE_RDONLY kc \<noteq> 0 \<and>
     (\<forall>nr \<in> esca_nrs. sc_addr k nr AND PAGE_MASK kc = sc_addr k NR_esca_register AND PAGE_MASK kc)"

lemmas page_defs = set_page_rw_def set_page_ro_def change_memory_common_def change_page_range_def

lemma rw_bits:
  fixes p :: "64 word"
  assumes "w AND r = 0"
  shows "((p AND NOT r) OR w) AND r = 0"
  using assms by (simp add: bit.conj_disj_distrib2 and.assoc)

lemma ro_bits: "r \<noteq> (0 :: 64 word) \<Longrightarrow> ((p AND NOT w) OR r) AND r \<noteq> 0"
  by (simp add: bit.conj_disj_distrib2 or_eq_0_iff)

interpretation gate: write_gate "gate_ok kc arc" "allow_writes kc arc" "disallow_writes kc arc" "writable kc arc"
  for kc arc
proof (unfold_locales, goal_cases)
  case (1 k nr)
  then show ?case
    by (cases arc) (auto simp: gate_ok_def allow_writes_def writable_def page_defs bit_unset_bit_iff rw_bits)
next
  case (2 k nr)
  then show ?case
    by (cases arc) (auto simp: gate_ok_def disallow_writes_def writable_def page_defs bit_set_bit_iff ro_bits)
next
  case (3 k' k)
  then show ?case by (simp add: gate_ok_def sc_addr_def)
next
  case 4
  then show ?case by (cases arc) (simp_all add: writable_def fun_eq_iff)
next
  case 5
  then show ?case by (cases arc) (simp_all add: writable_def fun_eq_iff)
next
  case (6 k)
  then show ?case by (cases arc) (simp_all add: allow_writes_def same_table_def page_defs)
next
  case (7 k)
  then show ?case by (cases arc) (simp_all add: disallow_writes_def same_table_def page_defs)
qed

lemma store_entry_form:
  "store_entry kc arc e k = bind_res (guard_res (writable kc arc k (sc_addr k (fst e))) WriteProtected) (\<lambda>_.
     Inr (k\<lparr>kmem := (kmem k)(sc_addr k (fst e) := snd e)\<rparr>))"
  by (cases e) (simp add: store_entry_def)

lemmas table_stores = gate.stores_ok [OF _ _ store_entry_form]
lemmas table_fault = gate.stores_fault [OF _ _ store_entry_form]

section \<open>Hooking and unhooking\<close>

lemma sc_addr_inj:
  assumes "nr < 512" and "nr' < 512"
  shows "sc_addr k nr = sc_addr k nr' \<longleftrightarrow> nr = nr'"
proof -
  have "unat (8 * of_nat n :: 64 word) = 8 * n" if "n < 512" for n
    using that by (simp add: unat_word_ariths unat_of_nat)
  then have "(8 * of_nat nr :: 64 word) = 8 * of_nat nr' \<longleftrightarrow> nr = nr'"
    using assms by (metis mult_cancel_left zero_neq_numeral)
  then show ?thesis by (simp add: sc_addr_def)
qed

definition hooked :: "64 word \<Rightarrow> hooks \<Rightarrow> (64 word \<Rightarrow> 64 word) \<Rightarrow> 64 word \<Rightarrow> 64 word" where
  "hooked T hk m = m(T + 8 * 400 := h_register hk, T + 8 * 401 := h_wakeup hk, T + 8 * 402 := h_wait hk,
     T + 8 * 403 := h_config hk)"

definition saved :: "kernel \<Rightarrow> (64 word \<Rightarrow> 64 word) \<Rightarrow> bool" where
  "saved k m \<longleftrightarrow> syscall_register_ori k = m (sc_addr k NR_esca_register) \<and>
     syscall_exit_ori k = m (sc_addr k NR_esca_wakeup) \<and> syscall_wait_ori k = m (sc_addr k NR_esca_wait) \<and>
     syscall_init_conf_ori k = m (sc_addr k NR_esca_config)"

lemma nrs_subset: "{NR_esca_register, NR_esca_wakeup, NR_esca_wait, NR_esca_config} \<subseteq> esca_nrs"
  by (simp add: esca_nrs_def)

text \<open>The state in which \<open>lioo_init\<close> stores to the table.\<close>

definition init_state :: "symbols \<Rightarrow> kconsts \<Rightarrow> arch \<Rightarrow> 64 word \<Rightarrow> kernel \<Rightarrow> kernel" where
  "init_state sy kc arc wq k =
     (let k = init_not_exported_symbol sy wq k;
          k = (case arc of X86_64 \<Rightarrow> k
               | AARCH64 \<Rightarrow> on_each_cpu enable_cycle_counter_el0 (k\<lparr>init_mm_ptr := sysMM sy + (wq - sysWQ sy)\<rparr>));
          k = allow_writes kc arc k
      in k\<lparr>syscall_register_ori := kmem k (sc_addr k NR_esca_register),
            syscall_exit_ori := kmem k (sc_addr k NR_esca_wakeup),
            syscall_wait_ori := kmem k (sc_addr k NR_esca_wait),
            syscall_init_conf_ori := kmem k (sc_addr k NR_esca_config)\<rparr>)"

lemma init_state_facts:
  assumes j_def: "j = init_state sy kc arc wq k"
  shows "syscall_table_ptr j = scTab sy + (wq - sysWQ sy)" and "kmem j = kmem k" and "saved j (kmem k)"
    and "gate_ok kc arc j \<Longrightarrow> nr \<in> esca_nrs \<Longrightarrow> writable kc arc j (sc_addr j nr)"
proof -
  define k1 where "k1 = (case arc of X86_64 \<Rightarrow> init_not_exported_symbol sy wq k
    | AARCH64 \<Rightarrow> on_each_cpu enable_cycle_counter_el0
        ((init_not_exported_symbol sy wq k)\<lparr>init_mm_ptr := sysMM sy + (wq - sysWQ sy)\<rparr>))"
  have k1: "syscall_table_ptr k1 = scTab sy + (wq - sysWQ sy)" "kmem k1 = kmem k"
    by (cases arc; simp add: k1_def init_not_exported_symbol_def on_each_cpu_def)+
  let ?a = "allow_writes kc arc k1"
  have f: "kmem ?a = kmem k1" "syscall_table_ptr ?a = syscall_table_ptr k1"
    using gate.allow_frame [of k1 kc arc] by (simp_all add: same_table_def)
  have j: "j = ?a\<lparr>syscall_register_ori := kmem ?a (sc_addr ?a NR_esca_register),
      syscall_exit_ori := kmem ?a (sc_addr ?a NR_esca_wakeup),
      syscall_wait_ori := kmem ?a (sc_addr ?a NR_esca_wait),
      syscall_init_conf_ori := kmem ?a (sc_addr ?a NR_esca_config)\<rparr>"
    unfolding j_def init_state_def k1_def by (simp only: Let_def)
  have p: "syscall_table_ptr j = syscall_table_ptr k1" and m: "kmem j = kmem k1" by (simp_all add: j f)
  then show "syscall_table_ptr j = scTab sy + (wq - sysWQ sy)" "kmem j = kmem k" using k1 by simp_all
  have sa: "sc_addr j = sc_addr k1" "sc_addr ?a = sc_addr k1" using p f by (simp_all add: sc_addr_def fun_eq_iff)
  show "saved j (kmem k)" unfolding saved_def sa by (simp add: j f k1 sa)
  assume "gate_ok kc arc j" "nr \<in> esca_nrs"
  then have "writable kc arc ?a (sc_addr k1 nr)" using gate.opened gate.ok_cong [OF p] by blast
  then show "writable kc arc j (sc_addr j nr)" unfolding sa by (simp add: j gate.can_ori)
qed

lemma lioo_init_ok:
  assumes "T = scTab sy + (wq - sysWQ sy)" and "gate_ok kc arc (k\<lparr>syscall_table_ptr := T\<rparr>)"
  shows "\<exists>k'. lioo_init sy kc hk arc wq k = Inr (0, k') \<and> syscall_table_ptr k' = T \<and>
    kmem k' = hooked T hk (kmem k) \<and> saved k' (kmem k) \<and> gate_ok kc arc k' \<and>
    (\<forall>nr \<in> esca_nrs. \<not> writable kc arc k' (sc_addr k' nr))"
proof -
  let ?j = "init_state sy kc arc wq k"
  let ?es = "[(NR_esca_register, h_register hk), (NR_esca_wakeup, h_wakeup hk),
    (NR_esca_wait, h_wait hk), (NR_esca_config, h_config hk)]"
  note J = init_state_facts [of ?j sy kc arc wq k, OF refl]
  have p: "syscall_table_ptr ?j = syscall_table_ptr (k\<lparr>syscall_table_ptr := T\<rparr>)" using J(1) assms(1) by simp
  have g: "gate_ok kc arc ?j" using assms(2) gate.ok_cong [OF p] by simp
  define k1 where "k1 = ?j\<lparr>kmem := foldl (\<lambda>m e. m(sc_addr ?j (fst e) := snd e)) (kmem ?j) ?es\<rparr>"
  define k' where "k' = disallow_writes kc arc k1"
  have st: "fold_res (store_entry kc arc) ?es ?j = Inr k1"
    unfolding k1_def by (rule table_stores) (use g J(4) nrs_subset in auto)
  have f: "kmem k' = kmem k1" "syscall_table_ptr k' = syscall_table_ptr ?j" "saved k' (kmem k)"
    using gate.disallow_frame [of k1 kc arc] J(3)
    by (simp_all add: same_table_def k'_def k1_def saved_def sc_addr_def)
  have "lioo_init sy kc hk arc wq k = Inr (0, k')"
    using st by (simp add: lioo_init_def init_state_def k'_def Let_def del: fold_res.simps)
  moreover have T: "syscall_table_ptr k' = T" using f(2) p by simp
  moreover have "kmem k' = hooked T hk (kmem k)"
    using p by (simp add: f(1) k1_def hooked_def J(2) sc_addr_def nr_defs)
  moreover have g1: "gate_ok kc arc k1" using g gate.ok_cong [of k1 ?j] by (simp add: k1_def)
  moreover have k1': "syscall_table_ptr k' = syscall_table_ptr k1" using f(2) by (simp add: k1_def)
  moreover have "\<forall>nr \<in> esca_nrs. \<not> writable kc arc k' (sc_addr k' nr)"
    using gate.closed [OF g1] k1' unfolding k'_def by (simp add: sc_addr_def)
  ultimately show ?thesis using f(3) gate.ok_cong [OF k1'] by blast
qed

lemma hooked_restore:
  assumes "saved k m" and "kmem k = hooked (syscall_table_ptr k) hk m"
  shows "foldl (\<lambda>m e. m(sc_addr k (fst e) := snd e)) (kmem k)
    [(NR_esca_register, syscall_register_ori k), (NR_esca_wakeup, syscall_exit_ori k),
     (NR_esca_wait, syscall_wait_ori k), (NR_esca_config, syscall_init_conf_ori k)] = m"
  using assms by (auto simp: saved_def hooked_def sc_addr_def nr_defs fun_eq_iff)

lemma lioo_exit_ok:
  assumes "gate_ok kc arc k" and "saved k m" and "kmem k = hooked (syscall_table_ptr k) hk m"
  shows "\<exists>k'. lioo_exit sy kc arc wq k = Inr k' \<and> kmem k' = m \<and> syscall_table_ptr k' = syscall_table_ptr k \<and>
    (\<forall>nr \<in> esca_nrs. \<not> writable kc arc k' (sc_addr k' nr))"
proof -
  let ?a = "allow_writes kc arc k"
  let ?es = "[(NR_esca_register, syscall_register_ori ?a), (NR_esca_wakeup, syscall_exit_ori ?a),
    (NR_esca_wait, syscall_wait_ori ?a), (NR_esca_config, syscall_init_conf_ori ?a)]"
  have f: "kmem ?a = kmem k" "syscall_table_ptr ?a = syscall_table_ptr k" "saved ?a m" "sc_addr ?a = sc_addr k"
    using gate.allow_frame [of k kc arc] assms(2) by (simp_all add: same_table_def saved_def sc_addr_def fun_eq_iff)
  define k1 where "k1 = ?a\<lparr>kmem := m\<rparr>"
  have "fold_res (store_entry kc arc) ?es ?a = Inr (?a\<lparr>kmem := foldl (\<lambda>m e. m(sc_addr ?a (fst e) := snd e)) (kmem ?a) ?es\<rparr>)"
    by (rule table_stores) (use gate.opened [OF assms(1)] nrs_subset f(4) in auto)
  then have st: "fold_res (store_entry kc arc) ?es ?a = Inr k1"
    using hooked_restore [OF f(3), of hk] assms(3) f(1,2) by (simp only: k1_def)
  define k2 where "k2 = disallow_writes kc arc k1"
  have g1: "gate_ok kc arc k1" using assms(1) gate.ok_cong [of k1 k] f(2) by (simp add: k1_def)
  have f2: "kmem k2 = m" "syscall_table_ptr k2 = syscall_table_ptr k1" "syscall_table_ptr k2 = syscall_table_ptr k"
    using gate.disallow_frame [of k1 kc arc] f(2) by (simp_all add: same_table_def k2_def k1_def)
  have c: "\<forall>nr \<in> esca_nrs. \<not> writable kc arc k2 (sc_addr k2 nr)"
    using gate.closed [OF g1] f2(2) unfolding k2_def by (simp add: sc_addr_def)
  let ?k' = "case arc of X86_64 \<Rightarrow> k2
    | AARCH64 \<Rightarrow> on_each_cpu disable_cycle_counter_el0 (k2\<lparr>init_mm_ptr := sysMM sy + (wq - sysWQ sy)\<rparr>)"
  have "lioo_exit sy kc arc wq k = Inr ?k'"
    unfolding k2_def using st by (simp add: lioo_exit_def Let_def del: fold_res.simps)
  moreover have "kmem ?k' = m \<and> syscall_table_ptr ?k' = syscall_table_ptr k \<and>
      (\<forall>nr \<in> esca_nrs. \<not> writable kc arc ?k' (sc_addr ?k' nr))"
    using f2 c by (cases arc) (simp_all add: on_each_cpu_def writable_def sc_addr_def)
  ultimately show ?thesis by blast
qed

section \<open>Stopping the workers\<close>

lemma sys_lioo_exit_loop:
  assumes "list_all (\<lambda>i. 0 \<le> i \<and> i < CPU_NUM_LIMIT) is" and "distinct is"
  shows "fold_res stop_one is (s, l) = Inr (s\<lparr>worker_task := (\<lambda>i. worker_task s i \<and> i \<notin> set is)\<rparr>,
    l @ filter (worker_task s) is)"
  using assms
proof (induction "is" arbitrary: s l)
  case (Cons i js)
  define s1 where "s1 = s\<lparr>worker_task := (worker_task s)(i := False)\<rparr>"
  have "filter (worker_task s1) js = filter (worker_task s) js"
    using Cons.prems(2) by (intro filter_cong) (auto simp: s1_def)
  moreover have "s1\<lparr>worker_task := (\<lambda>a. worker_task s1 a \<and> a \<notin> set js)\<rparr> =
      s\<lparr>worker_task := (\<lambda>a. worker_task s a \<and> a \<notin> set (i # js))\<rparr>"
    by (auto simp: s1_def intro: arg_cong [of _ _ "\<lambda>f. s\<lparr>worker_task := f\<rparr>"])
  moreover have "stop_one i (s, l) = Inr (s1, if worker_task s i then l @ [i] else l)"
    using Cons.prems(1) by (simp add: stop_one_def cpu_index_def s1_def)
  ultimately show ?case using Cons.IH [of s1] Cons.prems by simp
qed simp

section \<open>A sample kernel\<close>

definition sample_symbols :: symbols where
  "sample_symbols = \<lparr>scTab = 4096, sysWQ = 65536, create_io_thread_base = 131072,
     wake_up_new_task_base = 135168, sysMM = 139264\<rparr>"

definition sample_kconsts :: kconsts where
  "sample_kconsts = \<lparr>PTE_WRITE = push_bit 51 1, PTE_RDONLY = push_bit 7 1, PAGE_MASK = NOT 4095\<rparr>"

definition sample_hooks :: hooks where
  "sample_hooks = \<lparr>h_register = 11, h_wakeup = 12, h_wait = 13, h_config = 14\<rparr>"

definition sample_kernel :: kernel where
  "sample_kernel = \<lparr>kmem = (\<lambda>a. a), cr0 = push_bit 16 1, ptes = (\<lambda>p. push_bit 7 1),
     pmu_of = (\<lambda>_. \<lparr>pmintenset = 0, pmcntenset = 0, pmuserenr = 0, pmcr = 0, pmccfiltr = 0\<rparr>), ncpus = 2,
     syscall_table_ptr = 0, create_io_thread_ptr = 0, wake_up_new_task_ptr = 0, init_mm_ptr = 0,
     syscall_register_ori = 0, syscall_exit_ori = 0, syscall_wait_ori = 0, syscall_init_conf_ori = 0\<rparr>"

lemma sample_gate_ok: "gate_ok sample_kconsts arc (sample_kernel\<lparr>syscall_table_ptr := 8192\<rparr>)"
  by (simp add: gate_ok_def sample_kconsts_def esca_nrs_def sc_addr_def nr_defs)

section \<open>Properties\<close>

text \<open>
  On a kernel relocated by \<open>slide\<close>, \<open>lioo_init\<close> returns without a protection fault, having
  replaced exactly the four entries of the relocated system-call table by the module's
  functions and remembered the old ones; the entries are write-protected again afterwards. On
  aarch64 this needs the four entries to lie in one page.
\<close>

theorem lioo_init_hooks:
  assumes "wq = sysWQ sy + slide" and "T = scTab sy + slide"
    and "gate_ok kc arc (k\<lparr>syscall_table_ptr := T\<rparr>)"
  shows "\<exists>k'. lioo_init sy kc hk arc wq k = Inr (0, k') \<and> syscall_table_ptr k' = T \<and>
    kmem k' = hooked T hk (kmem k) \<and> saved k' (kmem k) \<and>
    (\<forall>nr \<in> esca_nrs. \<not> writable kc arc k' (sc_addr k' nr))"
proof -
  have "T = scTab sy + (wq - sysWQ sy)" using assms(1,2) by simp
  from lioo_init_ok [OF this assms(3), of hk] show ?thesis by blast
qed

theorem lioo_init_hooks_witness:
  "\<exists>k'. lioo_init sample_symbols sample_kconsts sample_hooks AARCH64 69632 sample_kernel = Inr (0, k') \<and>
    kmem k' (8192 + 8 * 400) = 11 \<and> kmem k' (8192 + 8 * 399) = 8192 + 8 * 399"
proof -
  have "\<exists>k'. lioo_init sample_symbols sample_kconsts sample_hooks AARCH64 69632 sample_kernel = Inr (0, k') \<and>
      syscall_table_ptr k' = 8192 \<and> kmem k' = hooked 8192 sample_hooks (kmem sample_kernel) \<and>
      saved k' (kmem sample_kernel) \<and>
      (\<forall>nr \<in> esca_nrs. \<not> writable sample_kconsts AARCH64 k' (sc_addr k' nr))"
    by (rule lioo_init_hooks [where slide = 4096]) (simp_all add: sample_symbols_def sample_gate_ok)
  then show ?thesis by (auto simp: hooked_def sample_hooks_def sample_kernel_def)
qed

text \<open>
  C35: unloading undoes loading: \<open>lioo_exit\<close> after \<open>lioo_init\<close> returns with kernel memory as it was
  before, and the table write-protected.
\<close>

theorem lioo_init_exit_roundtrip:
  assumes "T = scTab sy + (wq - sysWQ sy)" and "gate_ok kc arc (k\<lparr>syscall_table_ptr := T\<rparr>)"
  shows "\<exists>k' k''. lioo_init sy kc hk arc wq k = Inr (0, k') \<and> lioo_exit sy kc arc wq k' = Inr k'' \<and>
    kmem k'' = kmem k \<and> (\<forall>nr \<in> esca_nrs. \<not> writable kc arc k'' (sc_addr k'' nr))"
proof -
  obtain k' where k': "lioo_init sy kc hk arc wq k = Inr (0, k')" "syscall_table_ptr k' = T"
    "kmem k' = hooked T hk (kmem k)" "saved k' (kmem k)" "gate_ok kc arc k'"
    using lioo_init_ok [OF assms, of hk] by blast
  from lioo_exit_ok [OF k'(5,4), of hk sy wq] k'(1-3) show ?thesis by auto
qed

theorem lioo_init_exit_roundtrip_witness:
  "\<exists>k' k''. lioo_init sample_symbols sample_kconsts sample_hooks X86_64 69632 sample_kernel = Inr (0, k') \<and>
    lioo_exit sample_symbols sample_kconsts X86_64 69632 k' = Inr k'' \<and> kmem k'' = kmem sample_kernel"
proof -
  have "\<exists>k' k''. lioo_init sample_symbols sample_kconsts sample_hooks X86_64 69632 sample_kernel = Inr (0, k') \<and>
      lioo_exit sample_symbols sample_kconsts X86_64 69632 k' = Inr k'' \<and> kmem k'' = kmem sample_kernel \<and>
      (\<forall>nr \<in> esca_nrs. \<not> writable sample_kconsts X86_64 k'' (sc_addr k'' nr))"
    by (rule lioo_init_exit_roundtrip [where T = 8192]) (simp_all add: sample_symbols_def sample_gate_ok)
  then show ?thesis by blast
qed

text \<open>
  C38: on aarch64 \<open>allow_writes\<close> opens the page of the first hooked entry only: when another of
  the four entries lies in a different, read-only page, loading the module faults.
\<close>

theorem lioo_init_page_fault:
  assumes "T = scTab sy + (wq - sysWQ sy)" and "nr \<in> esca_nrs"
    and "(T + 8 * of_nat nr) AND PAGE_MASK kc \<noteq> (T + 8 * of_nat NR_esca_register) AND PAGE_MASK kc"
    and "ptes k ((T + 8 * of_nat nr) AND PAGE_MASK kc) AND PTE_RDONLY kc \<noteq> 0"
  shows "lioo_init sy kc hk AARCH64 wq k = Inl WriteProtected"
proof -
  let ?j = "init_state sy kc AARCH64 wq k"
  let ?es = "[(NR_esca_register, h_register hk), (NR_esca_wakeup, h_wakeup hk),
    (NR_esca_wait, h_wait hk), (NR_esca_config, h_config hk)]"
  have "nr \<in> fst ` set ?es" using assms(2) by (simp add: esca_nrs_def)
  then obtain e where e: "e \<in> set ?es" "fst e = nr" by (rule imageE) auto
  have p: "syscall_table_ptr ?j = T"
    using init_state_facts(1) [of ?j sy kc AARCH64 wq k, OF refl] assms(1) by simp
  have "ptes ?j ((T + 8 * of_nat nr) AND PAGE_MASK kc) = ptes k ((T + 8 * of_nat nr) AND PAGE_MASK kc)"
    using assms(1,3) by (simp add: init_state_def init_not_exported_symbol_def on_each_cpu_def allow_writes_def
        page_defs sc_addr_def Let_def)
  then have "\<not> writable kc AARCH64 ?j (sc_addr ?j (fst e))"
    using assms(4) p e(2) by (simp add: writable_def sc_addr_def)
  from table_fault [OF e(1) this] show ?thesis
    by (simp add: lioo_init_def init_state_def Let_def del: fold_res.simps)
qed

theorem lioo_init_page_fault_witness:
  "lioo_init (sample_symbols\<lparr>scTab := 888\<rparr>) sample_kconsts sample_hooks AARCH64 69632 sample_kernel = Inl WriteProtected"
  by (rule lioo_init_page_fault [where T = 4984 and nr = 401])
    (simp_all add: sample_symbols_def sample_kconsts_def sample_kernel_def esca_nrs_def nr_defs)

text \<open>
  \<open>disable_cycle_counter_el0\<close> takes the counter away from user mode but does not stop it: it
  writes zero to a register in which only ones have an effect, so the enable bit set on loading
  survives unloading.
\<close>

theorem cycle_counter_stays_on:
  "bit (pmcntenset (disable_cycle_counter_el0 (enable_cycle_counter_el0 p))) 31 \<and>
   pmuserenr (disable_cycle_counter_el0 (enable_cycle_counter_el0 p)) = 0 \<and>
   pmcntenset (disable_cycle_counter_el0 q) = pmcntenset q \<and> pmintenset (enable_cycle_counter_el0 q) = pmintenset q"
  by (simp add: enable_cycle_counter_el0_def disable_cycle_counter_el0_def Let_def bit_or_iff bit_push_bit_iff)

text \<open>
  With at most \<open>CPU_NUM_LIMIT\<close> kernel workers configured, \<open>sys_lioo_exit\<close> stops every started
  worker among them once, in order, and forgets it; workers beyond \<open>MAX_CPU_NUM\<close> are left alone.
\<close>

theorem sys_lioo_exit_stops:
  assumes "MAX_CPU_NUM (kglob s) \<le> CPU_NUM_LIMIT"
  shows "sys_lioo_exit s =
    Inr (s\<lparr>worker_task := (\<lambda>i. worker_task s i \<and> \<not> (0 \<le> i \<and> i < MAX_CPU_NUM (kglob s)))\<rparr>,
      filter (worker_task s) [0..MAX_CPU_NUM (kglob s) - 1])"
proof -
  have "list_all (\<lambda>i. 0 \<le> i \<and> i < CPU_NUM_LIMIT) [0..MAX_CPU_NUM (kglob s) - 1]"
    using assms by (auto simp: list_all_iff)
  from sys_lioo_exit_loop [OF this distinct_upto, of s "[]"] show ?thesis
    by (simp add: sys_lioo_exit_def)
qed

theorem sys_lioo_exit_stops_witness:
  "\<exists>s'. sys_lioo_exit (sample_saio\<lparr>worker_task := (\<lambda>i. i = 1 \<or> i = 7)\<rparr>) = Inr (s', [1]) \<and>
    worker_task s' 7 \<and> \<not> worker_task s' 1"
  using sys_lioo_exit_stops [of "sample_saio\<lparr>worker_task := (\<lambda>i. i = 1 \<or> i = 7)\<rparr>"]
  by (simp add: sample_saio_def upto_rec1)

end
