(* ===== verification/System_Calls.thy ===== *)
theory System_Calls
  imports Lioo_Module Batch_Control
begin

text \<open>
  From \<open>syscall\<close> in the library to the functions of the module (\<open>module/lioo.c\<close>): the registers the
  arguments travel in, the table the module has changed, and how each of the four system calls takes
  its arguments out of the frame.
\<close>

section \<open>Entering the kernel\<close>

text \<open>
  Arguments go to the registers of the calling convention one after the other; the registers of
  arguments that are not given keep what they held.
\<close>

definition set_arg :: "arch \<Rightarrow> nat \<times> 64 word \<Rightarrow> pt_regs \<Rightarrow> pt_regs" where
  "set_arg arc ka r = (case ka of (k, a) \<Rightarrow> (case arc of
     X86_64 \<Rightarrow>
       (if k = 0 then r\<lparr>di := a\<rparr> else if k = 1 then r\<lparr>si := a\<rparr> else if k = 2 then r\<lparr>dx := a\<rparr>
        else if k = 3 then r\<lparr>r10 := a\<rparr> else if k = 4 then r\<lparr>r8 := a\<rparr> else if k = 5 then r\<lparr>r9 := a\<rparr> else r)
   | AARCH64 \<Rightarrow> r\<lparr>xregs := (xregs r)[k := a]\<rparr>))"

definition load_frame :: "arch \<Rightarrow> 64 word list \<Rightarrow> pt_regs \<Rightarrow> pt_regs" where
  "load_frame arc as r = fold (set_arg arc) (enumerate 0 as) r"

text \<open>An \<open>unsigned long\<close> assigned to an \<open>int\<close>.\<close>

definition c_int :: "64 word \<Rightarrow> int" where
  "c_int w = sint (ucast w :: 32 word)"

section \<open>The four functions\<close>

text \<open>
  What a call meets in the kernel: the page behind a user address, the pages \<open>get_user_pages\<close> pins,
  \<open>msecs_to_jiffies\<close>, the block \<open>kmalloc\<close> returns and what \<open>copy_from_user\<close> makes of it. A call
  returns the state and the wait queues it has woken.
\<close>

record kenv =
  page_of :: "64 word \<Rightarrow> int"
  pages_pinned :: int
  ms_to_jiffies :: "int \<Rightarrow> 32 word"
  kalloc :: "esca_config option"
  copy_from :: "64 word \<Rightarrow> esca_config \<Rightarrow> esca_config"

definition do_esca_register :: "kenv \<Rightarrow> arch \<Rightarrow> pt_regs \<Rightarrow> saio \<Rightarrow> (saio \<times> int list) res" where
  "do_esca_register env arc r s =
     (let p0 = sysarg arc 0 r; wid = c_int (sysarg arc 2 r) in
     bind_res (sys_esca_register (ms_to_jiffies env) (pages_pinned env)
       (if p0 \<noteq> 0 then Some (page_of env p0) else None) wid s) (\<lambda>s. Inr (s, [])))"

definition do_esca_wakeup :: "arch \<Rightarrow> pt_regs \<Rightarrow> saio \<Rightarrow> (saio \<times> int list) res" where
  "do_esca_wakeup arc r s =
     (let i = c_int (sysarg arc 0 r) in
     bind_res (sys_esca_wakeup i s) (\<lambda>woken. Inr (s, if woken then [i] else [])))"

definition do_esca_wait :: "arch \<Rightarrow> pt_regs \<Rightarrow> saio \<Rightarrow> (saio \<times> int list) res" where
  "do_esca_wait arc r s =
     (let idx = c_int (sysarg arc 0 r) in bind_res (sys_esca_wait idx s) (\<lambda>_. Inr (s, [])))"

definition do_esca_config :: "kenv \<Rightarrow> arch \<Rightarrow> pt_regs \<Rightarrow> saio \<Rightarrow> (saio \<times> int list) res" where
  "do_esca_config env arc r s =
     (let ptr = sysarg arc 0 r in
     bind_res (sys_esca_init_config (kalloc env) (copy_from env ptr)) (\<lambda>k. Inr (s\<lparr>kglob := k\<rparr>, [])))"

text \<open>The kernel calls what the table holds; \<open>other\<close> stands for its own functions.\<close>

definition dispatch ::
  "kenv \<Rightarrow> hooks \<Rightarrow> (64 word \<Rightarrow> pt_regs \<Rightarrow> saio \<Rightarrow> (saio \<times> int list) res) \<Rightarrow> arch \<Rightarrow> kernel \<Rightarrow> nat \<Rightarrow> pt_regs \<Rightarrow> saio \<Rightarrow>
   (saio \<times> int list) res" where
  "dispatch env hk other arc k nr r s =
     (let f = kmem k (sc_addr k nr) in
     if f = h_register hk then do_esca_register env arc r s
     else if f = h_wakeup hk then do_esca_wakeup arc r s
     else if f = h_wait hk then do_esca_wait arc r s
     else if f = h_config hk then do_esca_config env arc r s
     else other f r s)"

text \<open>
  The helpers of \<open>module/syscall.h\<close>. They pass on what they are given: \<open>lioo_register\<close> three
  pointers, \<open>lioo_wait\<close> nothing.
\<close>

definition lioo_register ::
  "kenv \<Rightarrow> hooks \<Rightarrow> (64 word \<Rightarrow> pt_regs \<Rightarrow> saio \<Rightarrow> (saio \<times> int list) res) \<Rightarrow> arch \<Rightarrow> kernel \<Rightarrow> 64 word \<Rightarrow> 64 word \<Rightarrow> 64 word \<Rightarrow>
   pt_regs \<Rightarrow> saio \<Rightarrow> (saio \<times> int list) res" where
  "lioo_register env hk other arc k table e1 e2 r s =
     dispatch env hk other arc k NR_esca_register (load_frame arc [table, e1, e2] r) s"

definition lioo_wait ::
  "kenv \<Rightarrow> hooks \<Rightarrow> (64 word \<Rightarrow> pt_regs \<Rightarrow> saio \<Rightarrow> (saio \<times> int list) res) \<Rightarrow> arch \<Rightarrow> kernel \<Rightarrow> pt_regs \<Rightarrow> saio \<Rightarrow>
   (saio \<times> int list) res" where
  "lioo_wait env hk other arc k r s = dispatch env hk other arc k NR_esca_wait (load_frame arc [] r) s"

definition lioo_init_conf ::
  "kenv \<Rightarrow> hooks \<Rightarrow> (64 word \<Rightarrow> pt_regs \<Rightarrow> saio \<Rightarrow> (saio \<times> int list) res) \<Rightarrow> arch \<Rightarrow> kernel \<Rightarrow> 64 word \<Rightarrow> pt_regs \<Rightarrow> saio \<Rightarrow>
   (saio \<times> int list) res" where
  "lioo_init_conf env hk other arc k conf r s = dispatch env hk other arc k NR_esca_config (load_frame arc [conf] r) s"

section \<open>Arguments\<close>

lemma set_arg_frame: "length (xregs (set_arg arc ka r)) = length (xregs r)"
  by (cases arc; cases ka) (simp_all add: set_arg_def)

lemma sysarg_set:
  assumes "j < 6" and "k < 6" and "6 \<le> length (xregs r)"
  shows "sysarg arc j (set_arg arc (k, a) r) = (if j = k then a else sysarg arc j r)"
proof (cases arc)
  case X86_64
  then show ?thesis
    using less6_cases [OF assms(1)] less6_cases [OF assms(2)] by (auto simp: sysarg_def set_arg_def)
next
  case AARCH64
  have "k < length (xregs r)" using assms(2,3) by simp
  then show ?thesis using AARCH64 by (simp add: sysarg_def set_arg_def nth_list_update)
qed

lemma sysarg_load_from:
  assumes "m + length as \<le> 6" and "6 \<le> length (xregs r)" and "j < 6"
  shows "sysarg arc j (fold (set_arg arc) (enumerate m as) r) = (if m \<le> j \<and> j < m + length as then as ! (j - m) else sysarg arc j r)"
  using assms(1,2)
proof (induction as arbitrary: m r)
  case (Cons a as)
  have m: "m < 6" using Cons.prems by simp
  have l: "6 \<le> length (xregs (set_arg arc (m, a) r))" using Cons.prems(2) by (simp add: set_arg_frame)
  from Cons.IH [OF _ l, of "Suc m"] Cons.prems(1) sysarg_set [OF assms(3) m Cons.prems(2), of arc a]
  show ?case by (auto simp: nth_Cons' Suc_le_eq)
qed auto

lemma sysarg_load:
  assumes "j < length as" and "length as \<le> 6" and "6 \<le> length (xregs r)"
  shows "sysarg arc j (load_frame arc as r) = as ! j"
  using sysarg_load_from [of 0 as r j arc] assms by (simp add: load_frame_def)

lemma c_int_of:
  assumes "int_ok i" and "ucast w = (word_of_int i :: 32 word)"
  shows "c_int w = i"
proof -
  have "signed_take_bit 31 i = i" using assms(1) by (simp add: int_ok_def signed_take_bit_int_eq_self_iff)
  then show ?thesis by (simp add: c_int_def assms(2) sint_sbintrunc' )
qed

section \<open>Properties\<close>

definition hooks_apart :: "hooks \<Rightarrow> bool" where
  "hooks_apart hk \<longleftrightarrow> distinct [h_register hk, h_wakeup hk, h_wait hk, h_config hk]"

lemma hooked_dispatch:
  assumes "syscall_table_ptr k = T" and "kmem k = hooked T hk m" and "hooks_apart hk"
  shows "dispatch env hk other arc k NR_esca_register r s = do_esca_register env arc r s"
    and "dispatch env hk other arc k NR_esca_wakeup r s = do_esca_wakeup arc r s"
    and "dispatch env hk other arc k NR_esca_wait r s = do_esca_wait arc r s"
    and "dispatch env hk other arc k NR_esca_config r s = do_esca_config env arc r s"
proof -
  have "kmem k (sc_addr k NR_esca_register) = h_register hk" "kmem k (sc_addr k NR_esca_wakeup) = h_wakeup hk"
    "kmem k (sc_addr k NR_esca_wait) = h_wait hk" "kmem k (sc_addr k NR_esca_config) = h_config hk"
    by (simp_all add: sc_addr_def assms(1,2) hooked_def nr_defs)
  then show "dispatch env hk other arc k NR_esca_register r s = do_esca_register env arc r s"
    "dispatch env hk other arc k NR_esca_wakeup r s = do_esca_wakeup arc r s"
    "dispatch env hk other arc k NR_esca_wait r s = do_esca_wait arc r s"
    "dispatch env hk other arc k NR_esca_config r s = do_esca_config env arc r s"
    using assms(3) by (auto simp: dispatch_def hooks_apart_def)
qed

lemmas do_defs = do_esca_register_def do_esca_wakeup_def do_esca_wait_def do_esca_config_def Let_def

text \<open>A module that has just been loaded.\<close>

definition loaded :: "symbols \<Rightarrow> kconsts \<Rightarrow> hooks \<Rightarrow> arch \<Rightarrow> 64 word \<Rightarrow> kernel \<Rightarrow> kernel \<Rightarrow> bool" where
  "loaded sy kc hk arc wq k k' \<longleftrightarrow> lioo_init sy kc hk arc wq k = Inr (0, k') \<and>
     gate_ok kc arc (k\<lparr>syscall_table_ptr := scTab sy + (wq - sysWQ sy)\<rparr>) \<and> hooks_apart hk"

lemma loaded_facts:
  assumes "loaded sy kc hk arc wq k k'"
  shows "syscall_table_ptr k' = scTab sy + (wq - sysWQ sy)" and "kmem k' = hooked (scTab sy + (wq - sysWQ sy)) hk (kmem k)"
    and "saved k' (kmem k)" and "gate_ok kc arc k'" and "hooks_apart hk"
proof -
  have g: "gate_ok kc arc (k\<lparr>syscall_table_ptr := scTab sy + (wq - sysWQ sy)\<rparr>)" "lioo_init sy kc hk arc wq k = Inr (0, k')"
    "hooks_apart hk"
    using assms by (simp_all add: loaded_def)
  then show "syscall_table_ptr k' = scTab sy + (wq - sysWQ sy)" "kmem k' = hooked (scTab sy + (wq - sysWQ sy)) hk (kmem k)"
    "saved k' (kmem k)" "gate_ok kc arc k'" "hooks_apart hk"
    using lioo_init_ok [OF refl g(1), of hk] by auto
qed

lemma loaded_dispatch:
  assumes "loaded sy kc hk arc wq k k'"
  shows "dispatch env hk other a k' NR_esca_register r s = do_esca_register env a r s"
    and "dispatch env hk other a k' NR_esca_wakeup r s = do_esca_wakeup a r s"
    and "dispatch env hk other a k' NR_esca_wait r s = do_esca_wait a r s"
    and "dispatch env hk other a k' NR_esca_config r s = do_esca_config env a r s"
  by (rule hooked_dispatch [OF loaded_facts(1,2,5) [OF assms]])+


definition sample_kenv :: kenv where
  "sample_kenv = \<lparr>page_of = \<lambda>a. sint a, pages_pinned = 2, ms_to_jiffies = \<lambda>m. of_int m, kalloc = Some default_config,
     copy_from = \<lambda>p b. default_config\<rparr>"

lemma sample_loaded: "\<exists>k'. loaded sample_symbols sample_kconsts sample_hooks arc 69632 sample_kernel k'"
proof -
  have T: "scTab sample_symbols + (69632 - sysWQ sample_symbols) = 8192" by (simp add: sample_symbols_def)
  have "\<exists>k'. lioo_init sample_symbols sample_kconsts sample_hooks arc 69632 sample_kernel = Inr (0, k')"
    using lioo_init_ok [of 8192 sample_symbols 69632] sample_gate_ok T by metis
  then show ?thesis unfolding loaded_def T by (simp add: sample_gate_ok hooks_apart_def) (simp add: sample_hooks_def)
qed




end
