(* ===== verification/Epoll_Echo.thy ===== *)
theory Epoll_Echo
  imports Wrappers Esca_Config
begin

unbundle bit_operations_syntax

text \<open>
  The epoll echo server (\<open>echo/epoll_echo_server.c\<close>) on top of the library: start-up, one turn of
  its event loop between \<open>batch_start\<close> and \<open>batch_flush\<close>, and what its queued replies hold. The
  socket and epoll calls of the system are parameters; \<open>send\<close> is the wrapper of \<open>wrapper/echo.c\<close>.
\<close>

section \<open>The system's calls\<close>

text \<open>
  Each call takes its arguments and the state of the world and returns its result; \<open>os_epoll_wait\<close>
  also the descriptors of the events it stored, \<open>os_recv\<close> also the bytes it stored.
\<close>

record 'w os =
  os_socket :: "'w \<Rightarrow> int \<times> 'w"
  os_bind :: "int \<Rightarrow> 16 word \<Rightarrow> 'w \<Rightarrow> int \<times> 'w"
  os_listen :: "int \<Rightarrow> int \<Rightarrow> 'w \<Rightarrow> int \<times> 'w"
  os_epoll_create :: "int \<Rightarrow> 'w \<Rightarrow> int \<times> 'w"
  os_epoll_add :: "int \<Rightarrow> int \<Rightarrow> 32 word \<Rightarrow> 'w \<Rightarrow> int \<times> 'w"
  os_epoll_del :: "int \<Rightarrow> int \<Rightarrow> 'w \<Rightarrow> int \<times> 'w"
  os_epoll_wait :: "int \<Rightarrow> int \<Rightarrow> 'w \<Rightarrow> (int \<times> int list) \<times> 'w"
  os_accept4 :: "int \<Rightarrow> 'w \<Rightarrow> int \<times> 'w"
  os_recv :: "int \<Rightarrow> int \<Rightarrow> 'w \<Rightarrow> (int \<times> 8 word list) \<times> 'w"
  os_shutdown :: "int \<Rightarrow> 'w \<Rightarrow> int \<times> 'w"

definition EPOLLIN :: "32 word" where "EPOLLIN = 1"
definition EPOLLET :: "32 word" where "EPOLLET = push_bit 31 1"

section \<open>The server\<close>

definition BACKLOG :: int where "BACKLOG = 512"
definition MAX_EVENTS :: int where "MAX_EVENTS = 1024"
definition MAX_MESSAGE_LEN :: int where "MAX_MESSAGE_LEN = 91280"

text \<open>\<open>strtol\<close> in base ten, saturating at the bounds of a \<open>long\<close>, and the conversion to \<open>int\<close>.\<close>

definition c_strtol :: "string \<Rightarrow> int" where
  "c_strtol s = (case fst (scan_int s) of None \<Rightarrow> 0 | Some v \<Rightarrow> max (- (2 ^ 63)) (min v (2 ^ 63 - 1)))"

definition portno_of :: "string \<Rightarrow> int" where
  "portno_of s = sint (word_of_int (c_strtol s) :: 32 word)"

text \<open>The state: the library's and the module's, the buffer on the stack, the world.\<close>

record 'w server =
  sv_saio :: saio
  sv_buffer :: "8 word list"
  sv_world :: 'w

text \<open>
  The body of the loop over the events: a new connection is accepted and registered; data is
  received into the buffer and sent back from there; an error or the end closes the connection.
\<close>

definition accept_event :: "'w os \<Rightarrow> int \<Rightarrow> int \<Rightarrow> 'w server \<Rightarrow> 'w server res" where
  "accept_event os lfd efd sv =
     (let (c, w) = os_accept4 os lfd (sv_world sv) in
     if c = -1 then Inl (Exited 1)
     else let (r, w) = os_epoll_add os efd c (EPOLLIN OR EPOLLET) w in
     if r = -1 then Inl (Exited 1) else Inr (sv\<lparr>sv_world := w\<rparr>))"

definition recv_into :: "8 word list \<Rightarrow> 8 word list \<Rightarrow> 8 word list" where
  "recv_into b d = d @ drop (length d) b"

definition data_event :: "'w os \<Rightarrow> arch \<Rightarrow> 64 word \<Rightarrow> int \<Rightarrow> int \<Rightarrow> 'w server \<Rightarrow> 'w server res" where
  "data_event os arc buf efd fd sv =
     (let ((n, d), w) = os_recv os fd MAX_MESSAGE_LEN (sv_world sv);
          b = recv_into (sv_buffer sv) d in
     if n \<le> 0 then
       let (_, w) = os_epoll_del os efd fd w; (_, w) = os_shutdown os fd w in
       Inr (sv\<lparr>sv_buffer := b, sv_world := w\<rparr>)
     else bind_res (echo_send arc fd buf (of_int n) 0 (sv_saio sv, w)) (\<lambda>(_, s, w).
       Inr \<lparr>sv_saio = s, sv_buffer = b, sv_world = w\<rparr>))"

definition handle_event :: "'w os \<Rightarrow> arch \<Rightarrow> 64 word \<Rightarrow> int \<Rightarrow> int \<Rightarrow> int \<Rightarrow> 'w server \<Rightarrow> 'w server res" where
  "handle_event os arc buf lfd efd fd sv =
     (if fd = lfd then accept_event os lfd efd sv else data_event os arc buf efd fd sv)"

text \<open>One turn of the event loop.\<close>

definition serve_once :: "'w os \<Rightarrow> arch \<Rightarrow> 64 word \<Rightarrow> int \<Rightarrow> int \<Rightarrow> 'w server \<Rightarrow> 'w server res" where
  "serve_once os arc buf lfd efd sv =
     (let ((n, evs), w) = os_epoll_wait os efd MAX_EVENTS (sv_world sv) in
     if n = -1 then Inl (Exited 1)
     else bind_res (batch_start (sv_saio sv)) (\<lambda>(_, s, _).
       bind_res (fold_res (handle_event os arc buf lfd efd) (take (nat n) evs) (sv\<lparr>sv_saio := s, sv_world := w\<rparr>)) (\<lambda>sv.
       bind_res (batch_flush (sv_saio sv)) (\<lambda>(_, s). Inr (sv\<lparr>sv_saio := s\<rparr>)))))"

text \<open>The loop never ends: its state after \<open>n\<close> turns.\<close>

fun serve :: "'w os \<Rightarrow> arch \<Rightarrow> 64 word \<Rightarrow> int \<Rightarrow> int \<Rightarrow> nat \<Rightarrow> 'w server \<Rightarrow> 'w server res" where
  "serve os arc buf lfd efd 0 sv = Inr sv"
| "serve os arc buf lfd efd (Suc n) sv = bind_res (serve_once os arc buf lfd efd sv) (serve os arc buf lfd efd n)"

text \<open>Everything before the loop; the result is the listening and the epoll descriptor.\<close>

definition start_server :: "'w os \<Rightarrow> alloc_env \<Rightarrow> string list \<Rightarrow> saio \<times> 'w \<Rightarrow> (int \<times> int \<times> 'w server) res" where
  "start_server os env argv sw = (case sw of (s, w) \<Rightarrow>
     if length argv < 2 then Inl (Exited 0)
     else
       let portno = portno_of (argv ! 1);
           (lfd, w) = os_socket os w in
       if lfd < 0 then Inl (Exited 1)
       else let (r, w) = os_bind os lfd (word_of_int portno) w in
       if r < 0 then Inl (Exited 1)
       else let (r, w) = os_listen os lfd BACKLOG w in
       if r < 0 then Inl (Exited 1)
       else let (efd, w) = os_epoll_create os MAX_EVENTS w in
       if efd < 0 then Inl (Exited 1)
       else let (r, w) = os_epoll_add os efd lfd EPOLLIN w in
       if r = -1 then Inl (Exited 1)
       else bind_res (init_worker env 0 s) (\<lambda>s.
         Inr (lfd, efd, \<lparr>sv_saio = s, sv_buffer = replicate (nat MAX_MESSAGE_LEN) 0, sv_world = w\<rparr>)))"

definition epoll_main :: "'w os \<Rightarrow> alloc_env \<Rightarrow> arch \<Rightarrow> 64 word \<Rightarrow> nat \<Rightarrow> string list \<Rightarrow> saio \<times> 'w \<Rightarrow> 'w server res" where
  "epoll_main os env arc buf n argv sw =
     bind_res (start_server os env argv sw) (\<lambda>(lfd, efd, sv). serve os arc buf lfd efd n sv)"

section \<open>A turn with data on some connections\<close>

text \<open>
  The messages the connections of a turn deliver, in the order of the events, and the world after
  them; every one arrives whole and fits the buffer, which is what \<open>recv\<close> documents.
\<close>

fun recvs :: "'w os \<Rightarrow> int list \<Rightarrow> 'w \<Rightarrow> (int \<times> 8 word list) list \<times> 'w" where
  "recvs os [] w = ([], w)"
| "recvs os (fd # fds) w = (let (m, w) = os_recv os fd MAX_MESSAGE_LEN w; (ms, w) = recvs os fds w in (m # ms, w))"

definition message_ok :: "int \<times> 8 word list \<Rightarrow> bool" where
  "message_ok m \<longleftrightarrow> (case m of (n, d) \<Rightarrow> 0 < n \<and> n \<le> MAX_MESSAGE_LEN \<and> int (length d) = n)"

text \<open>The calls of a turn as the wrapper sees them, and the bytes a queued call will send.\<close>

definition reply_calls :: "64 word \<Rightarrow> int list \<Rightarrow> (int \<times> 8 word list) list \<Rightarrow> (int \<times> 64 word \<times> 64 word \<times> int) list" where
  "reply_calls buf fds ms = map (\<lambda>(fd, n, d). (fd, buf, of_int n, 0)) (zip fds ms)"

definition reply_request :: "arch \<Rightarrow> int \<times> 64 word \<times> 64 word \<times> int \<Rightarrow> request" where
  "reply_request arc c = (case c of (fd, buf, n, fl) \<Rightarrow> (ESCA_sendto arc, 6, [of_int fd, buf, n, of_int fl, 0, 0]))"

definition bytes_of :: "64 word \<Rightarrow> 8 word list \<Rightarrow> request \<Rightarrow> 8 word list" where
  "bytes_of buf b r = (case r of (_, _, as) \<Rightarrow> take (unat (as ! 2)) (drop (unat (as ! 1 - buf)) b))"

lemma echo_send_world:
  assumes "echo_send arc fd buf n fl (s, w) = Inr (x, s1, w1)"
  shows "w1 = w" and "echo_send arc fd buf n fl (s, w') = Inr (x, s1, w')"
  using assms by (auto simp: echo_send_def bind_res_Inr_iff split: if_splits)

lemma data_events:
  assumes "lfd \<notin> set fds" and "recvs os fds (sv_world sv) = (ms, w')" and "list_all message_ok ms"
    and "run_calls (\<lambda>(fd, buf, n, fl). echo_send arc fd buf n fl) (reply_calls buf fds ms) (sv_saio sv, w') = Inr (rs, s', w')"
  shows "fold_res (handle_event os arc buf lfd efd) fds sv =
    Inr \<lparr>sv_saio = s', sv_buffer = foldl recv_into (sv_buffer sv) (map snd ms), sv_world = w'\<rparr>"
  using assms
proof (induction fds arbitrary: sv ms rs)
  case Nil
  then show ?case by (cases sv) (simp add: reply_calls_def)
next
  case (Cons fd fds)
  obtain n d w1 where r: "os_recv os fd MAX_MESSAGE_LEN (sv_world sv) = ((n, d), w1)" by (metis prod.exhaust)
  obtain ms1 where ms: "recvs os fds w1 = (ms1, w')" "ms = (n, d) # ms1"
    using Cons.prems(2) r by (auto simp: Let_def split: prod.splits)
  have n: "0 < n" using Cons.prems(3) ms(2) by (simp add: message_ok_def)
  obtain x s1 rs1 where e: "echo_send arc fd buf (of_int n) 0 (sv_saio sv, w') = Inr (x, s1, w')"
    and c: "run_calls (\<lambda>(fd, buf, n, fl). echo_send arc fd buf n fl) (reply_calls buf fds ms1) (s1, w') = Inr (rs1, s', w')"
    using Cons.prems(4) ms(2)
    by (auto simp: reply_calls_def bind_res_Inr_iff dest: echo_send_world(1))
  note e1 = echo_send_world(2) [OF e, of w1]
  let ?sv = "\<lparr>sv_saio = s1, sv_buffer = recv_into (sv_buffer sv) d, sv_world = w1\<rparr>"
  have "handle_event os arc buf lfd efd fd sv = Inr ?sv"
    using Cons.prems(1) n r e1 by (simp add: handle_event_def data_event_def)
  moreover have "fold_res (handle_event os arc buf lfd efd) fds ?sv =
      Inr \<lparr>sv_saio = s', sv_buffer = foldl recv_into (sv_buffer ?sv) (map snd ms1), sv_world = w'\<rparr>"
    using Cons.prems(1,3) ms c by (intro Cons.IH [where rs = rs1]) simp_all
  ultimately show ?case by (simp add: ms(2))
qed

text \<open>What the turn leaves: the calls queued and the buffer.\<close>

lemma serve_once_data:
  fixes tab :: "'w systab" and sv :: "'w server"
  assumes q: "queues_ok tab (sv_saio sv)"
    and fl: "\<forall>j. own (sv_saio sv) j \<longrightarrow> flags (hdr (chan_at (sv_saio sv) j)) AND ESCA_START_WAKEUP = 0"
    and ev: "os_epoll_wait os efd MAX_EVENTS (sv_world sv) = ((int (length fds), fds), w1)" "lfd \<notin> set fds"
    and rc: "recvs os fds w1 = (ms, w2)" "list_all message_ok ms"
    and fit: "fits (sv_saio sv) (\<lambda>(fd, buf, n, fl). fd) (reply_calls buf fds ms)"
    and fd: "list_all fd_ok fds" and tab: "tab (ESCA_sendto arc) \<noteq> None"
  shows "\<exists>sv'. serve_once os arc buf lfd efd sv = Inr sv' \<and> sv_world sv' = w2 \<and>
    sv_buffer sv' = foldl recv_into (sv_buffer sv) (map snd ms) \<and> queues_ok tab (sv_saio sv') \<and>
    (\<exists>m. sv_saio sv' = (sv_saio sv)\<lparr>in_segment := 0, batch_num := 0, mem := m\<rparr>) \<and>
    (\<forall>t. own (sv_saio sv) t \<longrightarrow> pending_at (sv_saio sv') t = pending_at (sv_saio sv) t @
       map (reply_request arc) (calls_for (sv_saio sv) (\<lambda>(fd, buf, n, fl). fd) t (reply_calls buf fds ms)))"
proof -
  let ?s = "sv_saio sv" and ?s1 = "(sv_saio sv)\<lparr>in_segment := 1\<rparr>" and ?d = "\<lambda>(fd, buf, n, fl). fd"
  let ?cs = "reply_calls buf fds ms"
  have a: "attached ?s" using q by (simp add: queues_ok_def)
  obtain ws where bs: "batch_start ?s = Inr (0, ?s1, ws)" using batch_start_ok [OF a fl] by blast
  note cg = queues_ok_cong [of ?s1 ?s, simplified]
  have fit1: "fits ?s1 ?d ?cs" using fit by (simp add: fits_def cg same_process [of ?s1 ?s])
  have ok: "list_all (\<lambda>c. fd_ok (?d c) \<and> req_ok tab (reply_request arc c)) ?cs"
    using fd tab by (auto simp: list_all_iff reply_calls_def reply_request_def req_ok_def dest: set_zip_leftD)
  have rq: "reply_request arc = (\<lambda>(fd, buf, n, fl). (ESCA_sendto arc, 6, [of_int fd, buf, n, of_int fl, 0, 0]))"
    by (simp add: fun_eq_iff reply_request_def)
  obtain s2 rs where c: "run_calls (\<lambda>(fd, buf, n, fl). echo_send arc fd buf n fl) ?cs (?s1, w2) = Inr (rs, s2, w2)"
    and b: "batched tab ?s1 ?d (reply_request arc) ?cs s2"
    using echo.inside_sequence [of ?s1 tab arc ?cs w2] q cg(1) fit1 ok unfolding rq by auto
  have h: "fold_res (handle_event os arc buf lfd efd) fds (sv\<lparr>sv_saio := ?s1, sv_world := w1\<rparr>) =
      Inr \<lparr>sv_saio = s2, sv_buffer = foldl recv_into (sv_buffer sv) (map snd ms), sv_world = w2\<rparr>"
    using data_events [OF ev(2), of os "sv\<lparr>sv_saio := ?s1, sv_world := w1\<rparr>"] rc c by simp
  obtain m where s2: "s2 = ?s1\<lparr>batch_num := batch_num ?s1 + int (length ?cs), mem := m\<rparr>" "queues_ok tab s2"
    using b by (auto simp: batched_def)
  let ?s3 = "s2\<lparr>in_segment := 0, batch_num := 0\<rparr>"
  have f: "batch_flush s2 = Inr (0, ?s3)" using s2(2) by (intro batch_flush_ok) (simp add: queues_ok_def)
  note c3 = queues_ok_cong [of ?s3 s2, simplified]
  have "serve_once os arc buf lfd efd sv =
      Inr \<lparr>sv_saio = ?s3, sv_buffer = foldl recv_into (sv_buffer sv) (map snd ms), sv_world = w2\<rparr>"
    using ev(1) bs h f by (simp add: serve_once_def)
  moreover have "\<forall>t. own ?s t \<longrightarrow> pending_at ?s3 t = pending_at ?s t @ map (reply_request arc) (calls_for ?s ?d t ?cs)"
    using b by (simp add: batched_def c3(2) cg(2,3) same_process(3) [of ?s1 ?s])
  moreover have "?s3 = ?s\<lparr>in_segment := 0, batch_num := 0, mem := m\<rparr>" by (simp add: s2(1))
  moreover have "queues_ok tab ?s3" using s2(2) by (simp add: c3(1))
  ultimately show ?thesis by auto
qed

lemma last_reply:
  assumes "ms \<noteq> []" and "message_ok (last ms)" and "unat m = length (snd (last ms))"
  shows "bytes_of buf (foldl recv_into b (map snd ms)) (reply_request arc (fd, buf, m, fl)) = snd (last ms)"
proof -
  have "map snd ms = map snd (butlast ms) @ [snd (last ms)]"
    using assms(1) by (metis append_butlast_last_id list.simps(8,9) map_append)
  then show ?thesis by (simp only: foldl_append) (simp add: bytes_of_def reply_request_def recv_into_def assms(3))
qed

lemma message_size:
  assumes "message_ok (n, d)"
  shows "unat (of_int n :: 64 word) = length d"
proof -
  have "0 < n" "n < 2 ^ 64" "int (length d) = n" using assms by (simp_all add: message_ok_def MAX_MESSAGE_LEN_def)
  then show ?thesis by (simp add: unat_eq_nat_uint uint_word_of_int)
qed

lemma recvs_length: "recvs os fds w = (ms, w') \<Longrightarrow> length ms = length fds"
  by (induction fds arbitrary: w ms) (auto simp: Let_def split: prod.splits)

section \<open>A sample server\<close>

text \<open>Two connections, each delivering four bytes that name it.\<close>

definition sample_os :: "unit os" where
  "sample_os = \<lparr>os_socket = (\<lambda>w. (3, w)), os_bind = (\<lambda>_ _ w. (0, w)), os_listen = (\<lambda>_ _ w. (0, w)),
     os_epoll_create = (\<lambda>_ w. (4, w)), os_epoll_add = (\<lambda>_ _ _ w. (0, w)), os_epoll_del = (\<lambda>_ _ w. (0, w)),
     os_epoll_wait = (\<lambda>_ _ w. ((2, [6, 7]), w)), os_accept4 = (\<lambda>_ w. (6, w)),
     os_recv = (\<lambda>fd _ w. ((4, replicate 4 (of_int fd)), w)), os_shutdown = (\<lambda>_ w. (0, w))\<rparr>"

definition sample_server :: "unit server" where
  "sample_server = \<lparr>sv_saio = sample_ready, sv_buffer = replicate (nat MAX_MESSAGE_LEN) 0, sv_world = ()\<rparr>"

lemma sample_server_simps [simp]:
  "sv_saio sample_server = sample_ready" "sv_world sample_server = ()" "sv_buffer sample_server = replicate (nat MAX_MESSAGE_LEN) 0"
  "os_epoll_wait sample_os e m w = ((2, [6, 7]), w)" "os_recv sample_os fd m w = ((4, replicate 4 (of_int fd)), w)"
  by (simp_all add: sample_server_def sample_os_def)

lemma sample_ready_ok: "queues_ok any_tab sample_ready" "length cs < 128 \<Longrightarrow> fits sample_ready dest cs"
  "own sample_ready j \<Longrightarrow> flags (hdr (chan_at sample_ready j)) AND ESCA_START_WAKEUP = 0"
  "own sample_ready t \<Longrightarrow> pending_at sample_ready t = []"
proof -
  note c = queues_ok_cong [of sample_open sample_ready, unfolded sample_open_def, simplified, folded sample_open_def]
  show "queues_ok any_tab sample_ready" using sample_open_ok(1) by (simp add: c(1))
  show "own sample_ready t \<Longrightarrow> pending_at sample_ready t = []" using sample_open_ok(2) by (simp add: c(2,3) flip: c)
  show "fits sample_ready dest cs" if "length cs < 128"
    using sample_fits [OF that, of dest]
    by (simp add: fits_def c same_process(3) [of sample_open sample_ready] del: sample_open_simps(5))
  show "own sample_ready j \<Longrightarrow> flags (hdr (chan_at sample_ready j)) AND ESCA_START_WAKEUP = 0"
    by (auto simp: sample_chan_def flag_vals)
qed

lemma sample_replies:
  "reply_calls 4096 [6, 7] [(4, replicate 4 6), (4, replicate 4 7)] = [(6, 4096, 4, 0), (7, 4096, 4, 0)]"
  "list_all message_ok [(4, replicate 4 6), (4, replicate 4 7)]"
  by (simp_all add: reply_calls_def message_ok_def MAX_MESSAGE_LEN_def)

section \<open>Properties\<close>

text \<open>
  C27: a turn of the event loop in which connections deliver data queues one reply for each, on the
  table of its descriptor and in the order of the events, addressed to the server's one buffer
  and of the length received; it ends the batch, and the reply to the last message holds that
  message.
\<close>

theorem epoll_turn_queues_replies:
  fixes tab :: "'w systab" and sv :: "'w server"
  assumes "queues_ok tab (sv_saio sv)"
    and "\<forall>j. own (sv_saio sv) j \<longrightarrow> flags (hdr (chan_at (sv_saio sv) j)) AND ESCA_START_WAKEUP = 0"
    and "os_epoll_wait os efd MAX_EVENTS (sv_world sv) = ((int (length fds), fds), w1)" and "lfd \<notin> set fds"
    and "recvs os fds w1 = (ms, w2)" and "list_all message_ok ms" and "fds \<noteq> []"
    and "fits (sv_saio sv) (\<lambda>(fd, buf, n, fl). fd) (reply_calls buf fds ms)"
    and "list_all fd_ok fds" and "tab (ESCA_sendto arc) \<noteq> None"
  shows "\<exists>sv'. serve_once os arc buf lfd efd sv = Inr sv' \<and> sv_world sv' = w2 \<and> queues_ok tab (sv_saio sv') \<and>
    in_segment (sv_saio sv') = 0 \<and> batch_num (sv_saio sv') = 0 \<and>
    (\<forall>t. own (sv_saio sv) t \<longrightarrow> pending_at (sv_saio sv') t = pending_at (sv_saio sv) t @
       map (reply_request arc) (calls_for (sv_saio sv) (\<lambda>(fd, buf, n, fl). fd) t (reply_calls buf fds ms))) \<and>
    bytes_of buf (sv_buffer sv') (reply_request arc (last (reply_calls buf fds ms))) = snd (last ms)"
proof -
  have l: "length ms = length fds" using assms(5) by (rule recvs_length)
  then have ne: "ms \<noteq> []" using assms(7) by auto
  obtain n d where m: "last ms = (n, d)" by force
  have ok: "message_ok (n, d)" using assms(6) ne last_in_set [OF ne] m by (simp add: list_all_iff)
  have "last (reply_calls buf fds ms) = (last fds, buf, of_int n, 0)"
    using l ne assms(7) m by (simp add: reply_calls_def last_map last_zip)
  then have "bytes_of buf (foldl recv_into b (map snd ms)) (reply_request arc (last (reply_calls buf fds ms))) = snd (last ms)" for b
    using last_reply [OF ne, of "of_int n"] m ok message_size [OF ok] by simp
  then show ?thesis using serve_once_data [OF assms(1-6,8-10)] by fastforce
qed

theorem epoll_turn_queues_replies_witness:
  "\<exists>sv'. serve_once sample_os X86_64 4096 3 4 sample_server = Inr sv' \<and>
     pending_at (sv_saio sv') 0 = [(44, 6, [6, 4096, 4, 0, 0, 0])] \<and>
     pending_at (sv_saio sv') 1 = [(44, 6, [7, 4096, 4, 0, 0, 0])]"
proof -
  have "\<exists>sv'. serve_once sample_os X86_64 4096 3 4 sample_server = Inr sv' \<and> sv_world sv' = () \<and>
    queues_ok (any_tab :: unit systab) (sv_saio sv') \<and> in_segment (sv_saio sv') = 0 \<and> batch_num (sv_saio sv') = 0 \<and>
    (\<forall>t. own (sv_saio sample_server) t \<longrightarrow> pending_at (sv_saio sv') t = pending_at (sv_saio sample_server) t @
       map (reply_request X86_64) (calls_for (sv_saio sample_server) (\<lambda>(fd, buf, n, fl). fd) t
         (reply_calls 4096 [6, 7] [(4, replicate 4 6), (4, replicate 4 7)]))) \<and>
    bytes_of 4096 (sv_buffer sv') (reply_request X86_64 (last (reply_calls 4096 [6, 7] [(4, replicate 4 6), (4, replicate 4 7)]))) =
      snd (last [(4 :: int, replicate 4 6), (4, replicate 4 7)])"
    by (rule epoll_turn_queues_replies [where tab = any_tab and ?w1.0 = "()"])
      (use sample_ready_ok(1,3) sample_replies in \<open>simp_all add: any_tab_def fd_ok_def int_ok_def sample_ready_ok(2)\<close>)
  then show ?thesis
    using sample_ready_ok(4)
    by (auto simp: sample_replies calls_for_def table_of_def reply_request_def ESCA_sendto_def)
qed



end
