(* ===== verification/Echo_Cycle.thy ===== *)
theory Echo_Cycle
  imports Epoll_Echo Batch_Cycle
begin

text \<open>
  An echo from end to end: a turn of the epoll server's event loop in which one connection delivers
  a message, and the worker that sends the reply from the server's buffer.
\<close>

section \<open>What the worker sends\<close>

text \<open>
  The system's \<open>sendto\<close>, as far as an echo needs it: it takes the bytes at the address it is given,
  here in the server's buffer, and sends them to the descriptor. The log lists what was sent.
\<close>

definition echo_tab :: "arch \<Rightarrow> 64 word \<Rightarrow> 8 word list \<Rightarrow> (int \<times> 8 word list) list systab" where
  "echo_tab arc buf b num = (if num = ESCA_sendto arc
     then Some (\<lambda>r log. (sysarg arc 2 r,
       log @ [(sint (ucast (sysarg arc 0 r) :: 32 word), take (unat (sysarg arc 2 r)) (drop (unat (sysarg arc 1 r - buf)) b))]))
     else None)"

lemma perform_reply:
  assumes "fd_ok fd"
  shows "perform_all arc (echo_tab arc buf b) [reply_request arc (fd, buf, n, 0)] log = Inr (log @ [(fd, take (unat n) b)])"
proof -
  have "signed_take_bit 31 fd = fd" using assms by (simp add: fd_ok_def int_ok_def signed_take_bit_int_eq_self_iff)
  then have f: "sint (ucast (word_of_int fd :: 64 word) :: 32 word) = fd"
    by (simp add: ucast_down_wi is_down sint_sbintrunc')
  have "sysarg arc k (indirect_call_regs arc 6 [word_of_int fd, buf, n, 0, 0, 0]) = [word_of_int fd, buf, n, 0, 0, 0] ! k" if "k < 6" for k
    using that sysarg_x86 [of 6 k] sysarg_aarch64 [of 6 k] by (cases arc) simp_all
  then show ?thesis
    by (simp add: perform_all_def perform_def reply_request_def echo_tab_def indirect_call_def f)
qed

text \<open>The state of the queues depends on which calls have a handler only, and not at all while nothing is pending.\<close>

lemma queues_ok_tab:
  assumes "queues_ok tab s" and "\<And>num. tab num \<noteq> None \<Longrightarrow> tab' num \<noteq> None"
  shows "queues_ok tab' s"
  using assms by (fastforce simp: queues_ok_def queue_inv_def req_ok_def)

lemma queues_ok_idle:
  assumes "queues_ok tab s" and "\<forall>t. own s t \<longrightarrow> pending_at s t = []"
  shows "queues_ok tab' s"
  using assms by (auto simp: queues_ok_def queue_inv_def pending_at_def pending_def)

section \<open>Properties\<close>

text \<open>
  C28: a message that is alone in its turn is echoed: the turn returns, the worker's next pass sends
  exactly the bytes received, to the connection they came from and once, and its table is empty again.
\<close>

theorem epoll_message_echoed:
  fixes sv :: "'w server" and tab :: "'w systab"
  assumes "queues_ok tab (sv_saio sv)"
    and "\<forall>j. own (sv_saio sv) j \<longrightarrow> flags (hdr (chan_at (sv_saio sv) j)) AND ESCA_START_WAKEUP = 0 \<and> pending_at (sv_saio sv) j = []"
    and "kglob (sv_saio sv) = glob (sv_saio sv)" and "batch_num (sv_saio sv) = 0" and "1 < slots (glob (sv_saio sv))"
    and "os_epoll_wait os efd MAX_EVENTS (sv_world sv) = ((1, [fd]), w1)" and "fd \<noteq> lfd"
    and "os_recv os fd MAX_MESSAGE_LEN w1 = ((n, d), w2)" and "message_ok (n, d)" and "fd_ok fd"
  shows "\<exists>sv' s'. serve_once os arc buf lfd efd sv = Inr sv' \<and> sv_world sv' = w2 \<and>
    worker_turn arc (echo_tab arc buf (sv_buffer sv')) (table_of (sv_saio sv) fd) (sv_saio sv', log) = Inr (s', log @ [(fd, d)]) \<and>
    pending_at s' (table_of (sv_saio sv) fd) = []"
proof -
  let ?s = "sv_saio sv" and ?c = "(fd, buf, of_int n, 0)"
  let ?t = "table_of (sv_saio sv) fd"
  have rc: "recvs os [fd] w1 = ([(n, d)], w2)" "reply_calls buf [fd] [(n, d)] = [?c]"
    using assms(8) by (simp_all add: reply_calls_def)
  have fl: "\<forall>j. own ?s j \<longrightarrow> flags (hdr (chan_at ?s j)) AND ESCA_START_WAKEUP = 0" "\<forall>t. own ?s t \<longrightarrow> pending_at ?s t = []"
    using assms(2) by simp_all
  let ?only = "\<lambda>num. if num = ESCA_sendto arc then Some (\<lambda>r w. (0, w)) else None :: 'w handler option"
  have only: "queues_ok ?only ?s" using assms(1) fl(2) by (rule queues_ok_idle)
  have fits: "fits ?s (\<lambda>(fd, buf, n, fl). fd) (reply_calls buf [fd] [(n, d)])"
    unfolding rc(2) by (rule open_fits [OF assms(1) fl(2) assms(4)]) (use assms(5) in simp)
  obtain sv' m where sv': "serve_once os arc buf lfd efd sv = Inr sv'" "sv_world sv' = w2"
    "sv_buffer sv' = recv_into (sv_buffer sv) d" "queues_ok ?only (sv_saio sv')"
    "sv_saio sv' = ?s\<lparr>in_segment := 0, batch_num := 0, mem := m\<rparr>"
    "\<forall>t. own ?s t \<longrightarrow> pending_at (sv_saio sv') t = map (reply_request arc) (calls_for ?s (\<lambda>(fd, buf, n, fl). fd) t [?c])"
    using serve_once_data [OF only fl(1), of os efd "[fd]" w1 lfd "[(n, d)]" w2 buf arc] assms(6,7,9,10) rc fits fl(2)
    by auto
  have o: "own ?s ?t" using assms(1,10) own_table_of by (auto simp: queues_ok_def)
  then have o': "own (sv_saio sv') ?t" by (simp add: sv'(5) own_def)
  have p: "pending_at (sv_saio sv') ?t = [reply_request arc ?c]"
    using sv'(6) o by (simp add: calls_for_def)
  let ?tab = "echo_tab arc buf (sv_buffer sv')"
  have q: "queues_ok ?tab (sv_saio sv')" by (rule queues_ok_tab [OF sv'(4)]) (simp add: echo_tab_def split: if_splits)
  have k: "kglob (sv_saio sv') = glob (sv_saio sv')" using assms(3) by (simp add: sv'(5))
  obtain s' w' where s': "worker_turn arc ?tab ?t (sv_saio sv', log) = Inr (s', w')" "served (sv_saio sv') {?t} s'"
    "perform_all arc ?tab [reply_request arc ?c] log = Inr w'"
    using worker_turn_ok [OF q k o', of arc log] p by auto
  have "w' = log @ [(fd, d)]"
    using s'(3) perform_reply [of fd arc buf "sv_buffer sv'" "of_int n" log] assms(10) message_size [OF assms(9)]
    by (simp add: sv'(3) recv_into_def fd_ok_def)
  with s'(1,2) sv'(1,2) o' show ?thesis by (auto simp: served_def)
qed

theorem epoll_message_echoed_witness:
  "\<exists>sv' s'. serve_once (sample_os\<lparr>os_epoll_wait := \<lambda>_ _ w. ((1, [7]), w)\<rparr>) X86_64 4096 3 4 sample_server = Inr sv' \<and>
     worker_turn X86_64 (echo_tab X86_64 4096 (sv_buffer sv')) 1 (sv_saio sv', []) = Inr (s', [(7, [7, 7, 7, 7])]) \<and>
     pending_at s' 1 = []"
proof -
  let ?os = "sample_os\<lparr>os_epoll_wait := \<lambda>_ _ w. ((1, [7]), w)\<rparr>"
  have t: "table_of (sv_saio sample_server) 7 = 1" by (simp add: table_of_def)
  have k: "kglob sample_ready = sample_globals" by (simp add: sample_ready_def sample_saio_def)
  have "\<exists>sv' s'. serve_once ?os X86_64 4096 3 4 sample_server = Inr sv' \<and> sv_world sv' = () \<and>
    worker_turn X86_64 (echo_tab X86_64 4096 (sv_buffer sv')) (table_of (sv_saio sample_server) 7) (sv_saio sv', []) =
      Inr (s', [] @ [(7, replicate 4 7)]) \<and> pending_at s' (table_of (sv_saio sample_server) 7) = []"
    by (rule epoll_message_echoed [where tab = any_tab and ?w1.0 = "()" and n = 4])
      (use sample_ready_ok k in \<open>simp_all add: message_ok_def MAX_MESSAGE_LEN_def fd_ok_def int_ok_def\<close>)
  then show ?thesis unfolding t by (auto simp: numeral_eq_Suc)
qed

end
