(* ===== verification/Processes.thy ===== *)
theory Processes
  imports Batch_Cycle
begin

text \<open>
  Several processes on one module: each has its own variables, its own pages of headers and its own
  set of workers, and all share the memory and the module's variables. What one process does, from
  \<open>init_worker\<close> on, is confined to its own part.
\<close>

section \<open>Switching between processes\<close>

text \<open>The state in which process \<open>a\<close> goes on after \<open>b\<close> has run: its own variables, the shared ones of \<open>b\<close>.\<close>

definition switch_to :: "saio \<Rightarrow> saio \<Rightarrow> saio" where
  "switch_to a b = a\<lparr>mem := mem b, kglob := kglob b, ktable := ktable b, submitted := submitted b,
     worker_task := worker_task b\<rparr>"

text \<open>The pages of headers a process has pointers to.\<close>

definition pages :: "saio \<Rightarrow> int set" where
  "pages s = {pg. \<exists>t k. utable s t = Some (pg, k)}"

section \<open>What a process does\<close>

text \<open>The calls of a server between and in its batches, and the turns of its workers.\<close>

datatype proc_act = BatchStart | BatchFlush | Toggle | Call ngx_call | WorkerTurn int

fun proc_step ::
  "'w real_close \<Rightarrow> 'w real_sendfile \<Rightarrow> arch \<Rightarrow> 'w systab \<Rightarrow> proc_act \<Rightarrow> saio \<times> 'w \<Rightarrow> (saio \<times> 'w) res" where
  "proc_step rc rs arc tab BatchStart (s, w) = bind_res (batch_start s) (\<lambda>(_, s, _). Inr (s, w))"
| "proc_step rc rs arc tab BatchFlush (s, w) = bind_res (batch_flush s) (\<lambda>(_, s). Inr (s, w))"
| "proc_step rc rs arc tab Toggle (s, w) = Inr (toggle_region s, w)"
| "proc_step rc rs arc tab (Call c) (s, w) = bind_res (ngx_oper rc rs arc c (s, w)) (\<lambda>(_, s, w). Inr (s, w))"
| "proc_step rc rs arc tab (WorkerTurn t) (s, w) = (if own s t then worker_turn arc tab t (s, w) else Inl Blocked)"

section \<open>Confinement\<close>

definition confined :: "saio \<Rightarrow> saio \<Rightarrow> bool" where
  "confined s s' \<longleftrightarrow> glob s' = glob s \<and> kglob s' = kglob s \<and> this_worker_id s' = this_worker_id s \<and> pgsize s' = pgsize s \<and>
     utable s' = utable s \<and> ktable s' = ktable s \<and> (\<forall>q m. q \<notin> pages s \<longrightarrow> mem s' q m = mem s q m) \<and>
     (\<forall>i. \<not> own s i \<longrightarrow> submitted s' i = submitted s i)"

lemma confined_refl [simp]: "confined s s"
  by (simp add: confined_def)

lemma confined_trans: "confined s1 s2 \<Longrightarrow> confined s2 s3 \<Longrightarrow> confined s1 s3"
  by (simp add: confined_def pages_def own_def)

lemma confined_put: "utable s t = Some p \<Longrightarrow> confined s (put_hdr p ch s)"
  by (cases p) (auto simp: confined_def put_hdr_def pages_def)

lemma confined_local:
  "confined s (s\<lparr>in_segment := i\<rparr>)" "confined s (s\<lparr>batch_num := n\<rparr>)" "confined s (s\<lparr>in_segment := i, batch_num := n\<rparr>)"
  by (simp_all add: confined_def)

lemma utable_atD: "utable_at s t = Inr p \<Longrightarrow> utable s t = Some p"
  by (cases "utable s t") (auto simp: utable_at_def bind_res_Inr_iff deref_def)

lemma confined_wake: "wake_table j (s, ws) = Inr (s', ws') \<Longrightarrow> confined s s'"
proof -
  assume a: "wake_table j (s, ws) = Inr (s', ws')"
  obtain p ch where p: "utable_at s j = Inr p" "hdr_at s p = Inr ch" using a by (auto simp: wake_table_def bind_res_Inr_iff)
  note u = utable_atD [OF p(1)]
  show ?thesis
  proof (cases "flags (hdr ch) AND ESCA_WORKER_NEED_WAKEUP \<noteq> 0")
    case True
    let ?s = "put_hdr p (set_flags (flags (hdr ch) OR ESCA_START_WAKEUP) ch) s"
    obtain ch2 where "s' = put_hdr p ch2 ?s"
      using a p True by (auto simp: wake_table_def bind_res_Inr_iff Let_def split: if_splits)
    moreover have "utable ?s j = Some p" using u by simp
    ultimately show ?thesis using confined_put [OF u] confined_put [of ?s j p] confined_trans by blast
  qed (use a p in \<open>auto simp: wake_table_def\<close>)
qed

lemma confined_wakes: "fold_res wake_table js (s, ws) = Inr (s', ws') \<Longrightarrow> confined s s'"
proof (induction js arbitrary: s ws)
  case (Cons j js)
  then obtain s1 ws1 where "wake_table j (s, ws) = Inr (s1, ws1)" "fold_res wake_table js (s1, ws1) = Inr (s', ws')"
    by (auto simp: bind_res_Inr_iff)
  with Cons.IH confined_wake confined_trans show ?case by blast
qed simp

lemma confined_offload: "offload fd num as s = Inr s' \<Longrightarrow> confined s s'"
proof -
  assume "offload fd num as s = Inr s'"
  then obtain idx where "enqueue idx num as (s\<lparr>batch_num := batch_num s + 1\<rparr>) = Inr s'"
    by (auto simp: offload_def count_batch_def bind_res_Inr_iff)
  then obtain p ch where "utable_at (s\<lparr>batch_num := batch_num s + 1\<rparr>) idx = Inr p" "s' = put_hdr p ch (s\<lparr>batch_num := batch_num s + 1\<rparr>)"
    by (auto simp: enqueue_def bind_res_Inr_iff)
  then show ?thesis using confined_put [OF utable_atD] confined_local(2) confined_trans by blast
qed

lemma confined_call: "ngx_oper rc rs arc c (s, w) = Inr (r, s', w') \<Longrightarrow> confined s s'"
  by (cases c) (auto simp: ngx_defs bind_res_Inr_iff case_prod_beta Let_def split: if_splits dest: confined_offload)

lemma worker_loop_sub:
  "worker_loop arc tab g cur l = Inr l' \<Longrightarrow> k \<noteq> cur \<Longrightarrow> wl_sub l' k = wl_sub l k"
proof (induction arc tab g cur l arbitrary: l' rule: worker_loop.induct)
  case (1 arc tab g cur l)
  show ?case
  proof (cases "wl_sub l cur = 0")
    case True
    then show ?thesis using "1.prems" by (simp add: worker_loop.simps)
  next
    case False
    then obtain l1 where l1: "worker_step arc tab g cur l = Inr l1" "worker_loop arc tab g cur l1 = Inr l'"
      using "1.prems"(1) by (subst (asm) worker_loop.simps) (auto simp: bind_res_Inr_iff)
    have "wl_sub l1 k = wl_sub l k"
      using l1(1) "1.prems"(2)
      by (cases "worker_next g (wl_i l, wl_j l)") (auto simp: worker_step_def bind_res_Inr_iff Let_def split: prod.splits)
    then show ?thesis using "1.IH" [OF False l1(1,2) "1.prems"(2)] by simp
  qed
qed

lemma confined_turn:
  assumes "attached s" and "own s t" and "worker_turn arc tab t (s, w) = Inr (s', w')"
  shows "confined s s'"
proof -
  obtain p where p: "ktable_at s t = Inr p" "utable s t = Some p" by (rule own_access [OF assms(1,2)])
  obtain ch l where l: "worker_pass arc tab (kglob s) t ch (submitted s) w = Inr l"
    "s' = (put_hdr p (wl_ch l) s)\<lparr>submitted := wl_sub l\<rparr>"
    using assms(3) p(1) by (auto simp: worker_turn_def bind_res_Inr_iff)
  have "wl_sub l i = submitted s i" if "i \<noteq> t" for i
    using l(1) worker_loop_sub [of arc tab "kglob s" t _ _ i] that
    by (auto simp: worker_pass_def bind_res_Inr_iff Let_def)
  then show ?thesis using confined_put [OF p(2), of "wl_ch l"] assms(2) l(2) by (auto simp: confined_def pages_def own_def)
qed

lemma confined_attached: "confined s s' \<Longrightarrow> attached s' = attached s"
  by (rule attached_cong(1)) (simp_all add: confined_def)

lemma confined_step:
  assumes "attached s" and "proc_step rc rs arc tab a (s, w) = Inr (s', w')"
  shows "confined s s'"
proof (cases a)
  case BatchStart
  then obtain ws where "fold_res wake_table [this_worker_id s * RATIO (glob s)..this_worker_id s * RATIO (glob s) + RATIO (glob s) - 1]
      (s\<lparr>in_segment := 1\<rparr>, []) = Inr (s', ws)"
    using assms(2) by (auto simp: batch_start_def bind_res_Inr_iff Let_def)
  then show ?thesis using confined_wakes confined_local(1) confined_trans by blast
next
  case BatchFlush
  then show ?thesis
    using assms(2) confined_local by (auto simp: batch_flush_def bind_res_Inr_iff Let_def split: if_splits)
next
  case Toggle
  then show ?thesis using assms(2) confined_local(1) by (auto simp: toggle_region_def)
next
  case (Call c)
  then show ?thesis using assms(2) by (auto simp: bind_res_Inr_iff simp del: ngx_oper.simps intro: confined_call)
next
  case (WorkerTurn t)
  then show ?thesis using assms by (auto split: if_splits intro: confined_turn)
qed

lemma confined_run:
  assumes "attached s" and "fold_res (proc_step rc rs arc tab) as (s, w) = Inr (s', w')"
  shows "confined s s'"
  using assms
proof (induction as arbitrary: s w)
  case (Cons a as)
  then obtain s1 w1 where 1: "proc_step rc rs arc tab a (s, w) = Inr (s1, w1)" "fold_res (proc_step rc rs arc tab) as (s1, w1) = Inr (s', w')"
    by (auto simp: bind_res_Inr_iff simp del: proc_step.simps)
  have c: "confined s s1" using Cons.prems(1) 1(1) by (rule confined_step)
  moreover have "confined s1 s'" using Cons.IH [OF _ 1(2)] confined_attached [OF c] Cons.prems(1) by simp
  ultimately show ?case by (rule confined_trans)
qed simp

section \<open>Two processes\<close>

lemma sets_disjoint:
  assumes "glob b = glob a" and "this_worker_id b \<noteq> this_worker_id a" and "own a t"
  shows "\<not> own b t"
proof
  let ?R = "RATIO (glob a)"
  assume "own b t"
  then have b: "this_worker_id b * ?R \<le> t" "t < (this_worker_id b + 1) * ?R" by (simp_all add: own_def assms(1) distrib_right)
  have a: "this_worker_id a * ?R \<le> t" "t < (this_worker_id a + 1) * ?R" using assms(3) by (simp_all add: own_def distrib_right)
  have "this_worker_id b * ?R < (this_worker_id a + 1) * ?R" "this_worker_id a * ?R < (this_worker_id b + 1) * ?R"
    using a b by linarith+
  moreover have "0 < ?R" using a by (simp add: distrib_right)
  ultimately have "this_worker_id b < this_worker_id a + 1" "this_worker_id a < this_worker_id b + 1"
    by (simp_all add: mult_less_cancel_right)
  then show False using assms(2) by simp
qed

lemma started_frame:
  assumes "bootable env idx b" and "header_page env = Some page" and "utable b = (\<lambda>_. None)"
  shows "\<exists>b1. init_worker env idx b = Inr b1 \<and> attached b1 \<and> glob b1 = glob b \<and> kglob b1 = kglob b \<and> this_worker_id b1 = idx \<and>
    pages b1 \<subseteq> {page} \<and> (\<forall>q m. q \<noteq> page \<longrightarrow> mem b1 q m = mem b q m) \<and>
    (\<forall>i. \<not> own b1 i \<longrightarrow> ktable b1 i = ktable b i \<and> submitted b1 i = submitted b i)"
proof -
  let ?R = "RATIO (glob b)"
  have B: "0 \<le> idx" "idx < MAX_USR_WORKER (glob b)" "1 \<le> ?R" "MAX_USR_WORKER (glob b) * ?R \<le> CPU_NUM_LIMIT"
    "kglob b = glob b" "layout_ok (pgsize b) (glob b)" "?R * sizeof_table \<le> pgsize b"
    "\<forall>i. (\<exists>t. table_buf env i = Some t \<and> (\<forall>p l. length (args (t p l)) = 6)) \<and> MAX_TABLE_LEN (glob b) \<le> pinned env i"
    "\<forall>k. typed_hdr (mem b page k)"
    using assms(1,2) unfolding bootable_def by auto
  obtain b1 where b1: "init_worker env idx b = Inr b1" "this_worker_id b1 = idx" "glob b1 = glob b" "kglob b1 = glob b"
    and ins: "\<And>i. idx * ?R \<le> i \<Longrightarrow> i < idx * ?R + ?R \<Longrightarrow> utable b1 i = Some (page, i - idx * ?R)"
    and out: "\<And>i. \<not> (idx * ?R \<le> i \<and> i < idx * ?R + ?R) \<Longrightarrow> utable b1 i = utable b i \<and> ktable b1 i = ktable b i \<and> submitted b1 i = submitted b i"
    and m: "\<And>q m. q \<noteq> page \<Longrightarrow> mem b1 q m = mem b q m"
    using init_worker_ok [OF B(1-7) assms(2) B(8,9)] by blast
  have "attached b1" using bootable_ready [OF assms(1), of "\<lambda>_. None"] b1(1) by (auto simp: queues_ok_def)
  moreover have "pages b1 \<subseteq> {page}"
  proof
    fix pg assume "pg \<in> pages b1"
    then obtain i k where i: "utable b1 i = Some (pg, k)" by (auto simp: pages_def)
    show "pg \<in> {page}"
    proof (cases "idx * ?R \<le> i \<and> i < idx * ?R + ?R")
      case True
      then show ?thesis using ins [of i] i by simp
    next
      case False
      then show ?thesis using out [OF False] i assms(3) by simp
    qed
  qed
  ultimately show ?thesis using b1 out m B(5) by (auto simp: own_def)
qed

text \<open>
  C8: a process that starts under another number, with its headers in a page of its own, and then
  makes any calls and has its workers run, in any order, leaves every table of a process that is
  already running, its pending calls and its counters as they were.
\<close>

theorem processes_isolated:
  fixes tab' :: "'w systab"
  assumes "queues_ok tab a" and "glob b = glob a" and "switch_to b a = b" and "utable b = (\<lambda>_. None)"
    and "bootable env idx b" and "idx \<noteq> this_worker_id a" and "header_page env = Some page" and "page \<notin> pages a"
    and "init_worker env idx b = Inr b1" and "fold_res (proc_step rc rs arc tab') as (b1, w) = Inr (b2, w')"
  shows "queues_ok tab (switch_to a b2) \<and> (\<forall>t. own a t \<longrightarrow> chan_at (switch_to a b2) t = chan_at a t \<and>
    pending_at (switch_to a b2) t = pending_at a t \<and> submitted b2 t = submitted a t)"
proof -
  have b1: "attached b1" "glob b1 = glob a" "kglob b1 = kglob b" "this_worker_id b1 = idx" "pages b1 \<subseteq> {page}"
    "\<And>q m. q \<noteq> page \<Longrightarrow> mem b1 q m = mem b q m"
    "\<And>i. \<not> own b1 i \<Longrightarrow> ktable b1 i = ktable b i \<and> submitted b1 i = submitted b i"
    using started_frame [OF assms(5,7,4)] assms(2,9) by auto
  have c: "confined b1 b2" using b1(1) assms(10) by (rule confined_run)
  have sh: "mem b = mem a" "ktable b = ktable a" "submitted b = submitted a"
    using arg_cong [OF assms(3), of mem] arg_cong [OF assms(3), of ktable] arg_cong [OF assms(3), of submitted]
    by (simp_all add: switch_to_def)
  have no: "\<not> own b1 t" if "own a t" for t using sets_disjoint [OF b1(2) _ that] b1(4) assms(6) by simp
  have pg: "fst (the (utable a t)) \<noteq> page \<and> fst (the (utable a t)) \<notin> pages b1" if "own a t" for t
  proof -
    obtain q k where "utable a t = Some (q, k)" using assms(1) \<open>own a t\<close> by (auto simp: queues_ok_def attached_def)
    moreover from this have "q \<in> pages a" by (auto simp: pages_def)
    ultimately show ?thesis using assms(8) b1(5) by auto
  qed
  let ?a = "switch_to a b2"
  have ch: "chan_at ?a t = chan_at a t" if "own a t" for t
    using pg [OF that] c b1(6) by (simp add: chan_at_def switch_to_def confined_def sh)
  have kt: "ktable ?a t = ktable a t" "submitted b2 t = submitted a t" if "own a t" for t
    using c no [OF that] b1(7) by (simp_all add: switch_to_def confined_def sh)
  have ow: "own ?a = own a" "glob ?a = glob a" by (simp_all add: switch_to_def own_def fun_eq_iff)
  have "attached ?a"
    using assms(1) kt(1) ow unfolding queues_ok_def attached_def by (simp add: switch_to_def)
  then show ?thesis using assms(1) ch kt(2) ow by (simp add: queues_ok_def pending_at_def)
qed

text \<open>Two processes with two workers each: the first has page 3, the second page 4.\<close>

definition two_globals :: globals where
  "two_globals = sample_globals\<lparr>MAX_USR_WORKER := 2, MAX_CPU_NUM := 4\<rparr>"

definition two_saio :: saio where
  "two_saio = sample_saio\<lparr>glob := two_globals, kglob := two_globals\<rparr>"

theorem processes_isolated_witness:
  "\<exists>a b1 b2. init_worker sample_env 0 two_saio = Inr a \<and>
     init_worker (sample_env\<lparr>header_page := Some 4\<rparr>) 1 (switch_to two_saio a) = Inr b1 \<and>
     fold_res (proc_step (\<lambda>fd w. (-1, w)) (\<lambda>x y z n w. ((-1, None), w)) X86_64 any_tab) [Toggle] (b1, ()) = Inr (b2, ()) \<and>
     queues_ok (any_tab :: unit systab) (switch_to a b2) \<and> pending_at (switch_to a b2) 1 = []"
proof -
  have l: "layout_ok 4096 two_globals" by (simp add: two_globals_def layout_ok_def ring_ok_def sample_globals_def)
  have bt: "bootable sample_env 0 two_saio"
    using l by (simp add: bootable_def two_saio_def sample_saio_def sample_env_def typed_hdr_def sample_hdr_def sample_entry_def
        two_globals_def sample_globals_def)
  obtain a where a: "init_worker sample_env 0 two_saio = Inr a" "queues_ok (any_tab :: unit systab) a" "glob a = two_globals"
    "kglob a = two_globals" "this_worker_id a = 0" "\<And>t. own a t \<Longrightarrow> pending_at a t = []"
    using bootable_ready [OF bt, of any_tab] by (auto simp: two_saio_def)
  obtain a' where "init_worker sample_env 0 two_saio = Inr a'" "pages a' \<subseteq> {3}" "\<And>q m. q \<noteq> 3 \<Longrightarrow> mem a' q m = mem two_saio q m"
    using started_frame [OF bt, of 3] by (auto simp: sample_env_def two_saio_def sample_saio_def)
  with a(1) have p: "4 \<notin> pages a" "\<And>m. mem a 4 m = mem two_saio 4 m" by auto
  let ?b = "switch_to two_saio a" and ?env = "sample_env\<lparr>header_page := Some 4\<rparr>"
  have b: "glob ?b = glob a" "switch_to ?b a = ?b" "utable ?b = (\<lambda>_. None)" "header_page ?env = Some 4"
    using a(3) by (simp_all add: switch_to_def two_saio_def sample_saio_def)
  have bb: "bootable ?env 1 ?b"
    using l p(2) a(3,4) by (simp add: bootable_def switch_to_def two_saio_def sample_saio_def sample_env_def typed_hdr_def
        sample_hdr_def sample_entry_def two_globals_def sample_globals_def)
  obtain b1 where b1: "init_worker ?env 1 ?b = Inr b1" using started_frame [OF bb b(4,3)] by blast
  have st: "fold_res (proc_step (\<lambda>fd w. (-1, w)) (\<lambda>x y z n w. ((-1, None), w)) X86_64 any_tab) [Toggle] (b1, ()) =
    Inr (toggle_region b1, ())" by simp
  have i: "1 \<noteq> this_worker_id a" using a(5) by simp
  have "own a 1" using a(3,5) by (simp add: own_def two_globals_def)
  with processes_isolated [OF a(2) b(1-3) bb i b(4) p(1) b1 st] a(1,6) b1 st show ?thesis by auto
qed

end
