(* ===== verification/Uring_Echo.thy ===== *)
theory Uring_Echo
  imports Epoll_Echo "HOL-Library.Multiset"
begin

unbundle bit_operations_syntax

text \<open>
  The io_uring echo server (\<open>echo/io_uring_echo_server.c\<close>): the tag it attaches to every request,
  the requests it prepares, its reaction to each completion, and the buffers it lends to the
  kernel. The submission queue of liburing is a list of bounded length, whose vacant entry
  \<open>io_uring_get_sqe\<close> returns, or NULL when there is none; what the kernel completes, and how, is the
  environment of the step relation below.
\<close>

section \<open>Tags\<close>

definition uring_ACCEPT :: "16 word" where "uring_ACCEPT = 0"
definition uring_READ :: "16 word" where "uring_READ = 1"
definition uring_WRITE :: "16 word" where "uring_WRITE = 2"
definition uring_PROV_BUF :: "16 word" where "uring_PROV_BUF = 3"

record conn_info =
  ci_fd :: "32 word"
  ci_type :: "16 word"
  ci_bid :: "16 word"

text \<open>The copy of the structure into the eight bytes of \<open>user_data\<close> and back, little-endian.\<close>

definition pack_info :: "conn_info \<Rightarrow> 64 word" where
  "pack_info c = ucast (ci_fd c) OR push_bit 32 (ucast (ci_type c)) OR push_bit 48 (ucast (ci_bid c))"

definition unpack_info :: "64 word \<Rightarrow> conn_info" where
  "unpack_info w = \<lparr>ci_fd = ucast w, ci_type = ucast (drop_bit 32 w), ci_bid = ucast (drop_bit 48 w)\<rparr>"

lemma unpack_pack [simp]: "unpack_info (pack_info c) = c"
proof -
  have "ucast (pack_info c) = ci_fd c" "ucast (drop_bit 32 (pack_info c)) = ci_type c"
    "ucast (drop_bit 48 (pack_info c)) = ci_bid c"
    by (rule bit_word_eqI; auto simp: pack_info_def bit_simps dest: bit_imp_le_length)+
  then show ?thesis by (simp add: unpack_info_def)
qed

section \<open>Requests\<close>

definition MAX_CONNECTIONS :: nat where "MAX_CONNECTIONS = 4096"
definition BUFFERS_COUNT :: nat where "BUFFERS_COUNT = MAX_CONNECTIONS"
definition uring_BACKLOG :: int where "uring_BACKLOG = 512"
definition uring_MESSAGE_LEN :: int where "uring_MESSAGE_LEN = 91280"
definition group_id :: int where "group_id = 1337"

text \<open>
  A request: accepting on a socket; receiving into a buffer the kernel selects from a group; sending
  from a buffer; lending a buffer to a group. Then its tag.
\<close>

datatype uop =
    OpAccept int
  | OpRecv int int int
  | OpSend int nat int
  | OpProvide nat int

type_synonym sqe = "uop \<times> 64 word"

text \<open>
  The four functions that prepare a request in the next vacant entry of a queue of \<open>cap\<close> entries;
  \<open>bids\<close> are converted to \<open>__u16\<close> where the parameter has that type.
\<close>

definition get_sqe :: "nat \<Rightarrow> sqe \<Rightarrow> sqe list \<Rightarrow> sqe list res" where
  "get_sqe cap q sq = (if length sq < cap then Inr (sq @ [q]) else Inl NullDeref)"

definition add_accept :: "nat \<Rightarrow> int \<Rightarrow> sqe list \<Rightarrow> sqe list res" where
  "add_accept cap fd = get_sqe cap (OpAccept fd,
     pack_info \<lparr>ci_fd = of_int fd, ci_type = uring_ACCEPT, ci_bid = 0\<rparr>)"

definition add_socket_read :: "nat \<Rightarrow> int \<Rightarrow> int \<Rightarrow> int \<Rightarrow> sqe list \<Rightarrow> sqe list res" where
  "add_socket_read cap fd gid msize = get_sqe cap (OpRecv fd gid msize,
     pack_info \<lparr>ci_fd = of_int fd, ci_type = uring_READ, ci_bid = 0\<rparr>)"

definition add_socket_write :: "nat \<Rightarrow> int \<Rightarrow> 16 word \<Rightarrow> int \<Rightarrow> sqe list \<Rightarrow> sqe list res" where
  "add_socket_write cap fd bid msize = get_sqe cap (OpSend fd (unat bid) msize,
     pack_info \<lparr>ci_fd = of_int fd, ci_type = uring_WRITE, ci_bid = bid\<rparr>)"

definition add_provide_buf :: "nat \<Rightarrow> 16 word \<Rightarrow> int \<Rightarrow> sqe list \<Rightarrow> sqe list res" where
  "add_provide_buf cap bid gid = get_sqe cap (OpProvide (unat bid) gid,
     pack_info \<lparr>ci_fd = 0, ci_type = uring_PROV_BUF, ci_bid = 0\<rparr>)"

section \<open>Completions\<close>

record cqe =
  user_data :: "64 word"
  cres :: int
  cflags :: "32 word"

definition ENOBUFS :: int where "ENOBUFS = 105"

text \<open>
  The reaction to one completion: the prepared requests and the list of sockets closed change. A
  descriptor comes back from the tag as an \<open>unsigned\<close> and is passed on as an \<open>int\<close>.
\<close>

definition tag_fd :: "conn_info \<Rightarrow> int" where
  "tag_fd c = sint (ci_fd c)"

definition cqe_bid :: "cqe \<Rightarrow> 16 word" where
  "cqe_bid e = ucast (drop_bit 16 (cflags e))"

definition handle_cqe :: "nat \<Rightarrow> int \<Rightarrow> cqe \<Rightarrow> sqe list \<times> int list \<Rightarrow> (sqe list \<times> int list) res" where
  "handle_cqe cap lfd e st = (case st of (sq, closed) \<Rightarrow>
     let c = unpack_info (user_data e) in
     if cres e = - ENOBUFS then Inl (Exited 1)
     else if ci_type c = uring_PROV_BUF then
       (if cres e < 0 then Inl (Exited 1) else Inr (sq, closed))
     else if ci_type c = uring_ACCEPT then
       bind_res (if cres e \<ge> 0 then add_socket_read cap (cres e) group_id uring_MESSAGE_LEN sq else Inr sq) (\<lambda>sq.
       bind_res (add_accept cap lfd sq) (\<lambda>sq. Inr (sq, closed)))
     else if ci_type c = uring_READ then
       (if cres e \<le> 0 then
          bind_res (add_provide_buf cap (cqe_bid e) group_id sq) (\<lambda>sq. Inr (sq, closed @ [tag_fd c]))
        else bind_res (add_socket_write cap (tag_fd c) (cqe_bid e) (cres e) sq) (\<lambda>sq. Inr (sq, closed)))
     else if ci_type c = uring_WRITE then
       bind_res (add_provide_buf cap (ci_bid c) group_id sq) (\<lambda>sq.
       bind_res (add_socket_read cap (tag_fd c) group_id uring_MESSAGE_LEN sq) (\<lambda>sq. Inr (sq, closed)))
     else Inr (sq, closed))"

text \<open>The body of the event loop: all completions present, in order.\<close>

definition handle_all :: "nat \<Rightarrow> int \<Rightarrow> cqe list \<Rightarrow> sqe list \<times> int list \<Rightarrow> (sqe list \<times> int list) res" where
  "handle_all cap lfd = fold_res (handle_cqe cap lfd)"

section \<open>Start-up\<close>

text \<open>
  What the calls before the event loop return: the socket, \<open>bind\<close>, \<open>listen\<close>, the initialisation of the
  ring and its features, the probe with its answer on lending buffers, and the completion of the
  first loan of all buffers.
\<close>

record uenv =
  u_socket :: int
  u_bind :: "int \<Rightarrow> 16 word \<Rightarrow> int"
  u_listen :: "int \<Rightarrow> int \<Rightarrow> int"
  u_init :: int
  u_features :: "32 word"
  u_probe :: "bool option"
  u_provide :: int

definition IORING_FEAT_FAST_POLL :: "32 word" where "IORING_FEAT_FAST_POLL = push_bit 5 1"

definition start_uring :: "uenv \<Rightarrow> nat \<Rightarrow> string list \<Rightarrow> (int \<times> sqe list) res" where
  "start_uring env cap argv =
     (if length argv < 2 then Inl (Exited 0)
      else
        let portno = portno_of (argv ! 1); lfd = u_socket env in
        if u_bind env lfd (word_of_int portno) < 0 then Inl (Exited 1)
        else if u_listen env lfd uring_BACKLOG < 0 then Inl (Exited 1)
        else if u_init env < 0 then Inl (Exited 1)
        else if u_features env AND IORING_FEAT_FAST_POLL = 0 then Inl (Exited 0)
        else if u_probe env \<noteq> Some True then Inl (Exited 0)
        else if u_provide env < 0 then Inl (Exited 1)
        else bind_res (add_accept cap lfd []) (\<lambda>sq. Inr (lfd, sq)))"

section \<open>The server and the kernel\<close>

text \<open>
  The requests prepared and those submitted, the buffers lent to the group, the completions not
  yet seen, the sockets closed. The last field records a receive that failed before a buffer was
  selected for it.
\<close>

record ustate =
  prepared :: "sqe list"
  inflight :: "sqe list"
  pool :: "nat list"
  cq :: "cqe list"
  closed_fds :: "int list"
  bare :: bool

definition F_BUFFER :: "32 word" where "F_BUFFER = 1"

text \<open>The flags of a completion that carries buffer \<open>b\<close>.\<close>

definition buffer_flags :: "nat \<Rightarrow> 32 word" where
  "buffer_flags b = push_bit 16 (of_nat b) OR F_BUFFER"

definition complete :: "64 word \<Rightarrow> int \<Rightarrow> 32 word \<Rightarrow> ustate \<Rightarrow> ustate" where
  "complete ud r f u = u\<lparr>cq := cq u @ [\<lparr>user_data = ud, cres = r, cflags = f\<rparr>]\<rparr>"

text \<open>
  The server submits what it has prepared and reacts to the completions; the kernel completes a
  submitted request: an accept or a send with any result, a receive with a buffer of the group,
  whatever its result, without one when the group is empty or when it fails earlier, a loan by
  adding the buffer.
\<close>

inductive ustep :: "nat \<Rightarrow> int \<Rightarrow> ustate \<Rightarrow> ustate \<Rightarrow> bool" for cap lfd where
  submit: "ustep cap lfd u (u\<lparr>inflight := inflight u @ prepared u, prepared := []\<rparr>)"
| turn: "handle_all cap lfd (cq u) (prepared u, closed_fds u) = Inr (sq, cl) \<Longrightarrow>
    ustep cap lfd u (u\<lparr>prepared := sq, closed_fds := cl, cq := []\<rparr>)"
| k_accept: "inflight u = xs @ (OpAccept fd, ud) # ys \<Longrightarrow>
    ustep cap lfd u (complete ud r 0 (u\<lparr>inflight := xs @ ys\<rparr>))"
| k_send: "inflight u = xs @ (OpSend fd b n, ud) # ys \<Longrightarrow>
    ustep cap lfd u (complete ud r 0 (u\<lparr>inflight := xs @ ys\<rparr>))"
| k_recv: "inflight u = xs @ (OpRecv fd gid n, ud) # ys \<Longrightarrow> pool u = bs @ b # bs' \<Longrightarrow> r \<noteq> - ENOBUFS \<Longrightarrow>
    ustep cap lfd u (complete ud r (buffer_flags b) (u\<lparr>inflight := xs @ ys, pool := bs @ bs'\<rparr>))"
| k_nobufs: "inflight u = xs @ (OpRecv fd gid n, ud) # ys \<Longrightarrow> pool u = [] \<Longrightarrow>
    ustep cap lfd u (complete ud (- ENOBUFS) 0 (u\<lparr>inflight := xs @ ys\<rparr>))"
| k_fail: "inflight u = xs @ (OpRecv fd gid n, ud) # ys \<Longrightarrow> r < 0 \<Longrightarrow> r \<noteq> - ENOBUFS \<Longrightarrow>
    ustep cap lfd u (complete ud r 0 (u\<lparr>inflight := xs @ ys, bare := True\<rparr>))"
| k_provide: "inflight u = xs @ (OpProvide b gid, ud) # ys \<Longrightarrow> 0 \<le> r \<Longrightarrow>
    ustep cap lfd u (complete ud r 0 (u\<lparr>inflight := xs @ ys, pool := pool u @ [b]\<rparr>))"

inductive ureach :: "nat \<Rightarrow> int \<Rightarrow> ustate \<Rightarrow> bool" for cap lfd where
  start: "add_accept cap lfd [] = Inr sq \<Longrightarrow>
    ureach cap lfd \<lparr>prepared = sq, inflight = [], pool = [0..<BUFFERS_COUNT], cq = [], closed_fds = [], bare = False\<rparr>"
| step: "ureach cap lfd u \<Longrightarrow> ustep cap lfd u u' \<Longrightarrow> ureach cap lfd u'"

section \<open>Who has which buffer\<close>

fun op_bids :: "uop \<Rightarrow> nat multiset" where
  "op_bids (OpSend fd b n) = {#b#}"
| "op_bids (OpProvide b gid) = {#b#}"
| "op_bids _ = {#}"

definition sqe_bids :: "sqe list \<Rightarrow> nat multiset" where
  "sqe_bids sq = (\<Sum>q \<in># mset sq. op_bids (fst q))"

text \<open>A completion hands a buffer back to the server: the one of a receive or of a send.\<close>

definition cqe_bids :: "cqe \<Rightarrow> nat multiset" where
  "cqe_bids e =
     (if ci_type (unpack_info (user_data e)) = uring_WRITE then {#unat (ci_bid (unpack_info (user_data e)))#}
      else if ci_type (unpack_info (user_data e)) = uring_READ \<and> cflags e AND F_BUFFER \<noteq> 0 then {#unat (cqe_bid e)#}
      else {#})"

definition owned :: "ustate \<Rightarrow> nat multiset" where
  "owned u = sqe_bids (prepared u) + sqe_bids (inflight u) + mset (pool u) + (\<Sum>e \<in># mset (cq u). cqe_bids e)"

text \<open>A request's tag fits the request, and a completed receive names its buffer or none was there.\<close>

definition sqe_ok :: "sqe \<Rightarrow> bool" where
  "sqe_ok q = (case q of (op, ud) \<Rightarrow> (case op of
     OpAccept fd \<Rightarrow> ci_type (unpack_info ud) = uring_ACCEPT
   | OpRecv fd gid n \<Rightarrow> ci_type (unpack_info ud) = uring_READ
   | OpSend fd b n \<Rightarrow> ci_type (unpack_info ud) = uring_WRITE \<and> unat (ci_bid (unpack_info ud)) = b
   | OpProvide b gid \<Rightarrow> ci_type (unpack_info ud) = uring_PROV_BUF))"

definition cqe_ok :: "cqe \<Rightarrow> bool" where
  "cqe_ok e \<longleftrightarrow> ci_type (unpack_info (user_data e)) = uring_READ \<longrightarrow> cflags e AND F_BUFFER \<noteq> 0 \<or> cres e = - ENOBUFS"

definition uinv :: "ustate \<Rightarrow> bool" where
  "uinv u \<longleftrightarrow> list_all sqe_ok (prepared u) \<and> list_all sqe_ok (inflight u) \<and>
     (\<not> bare u \<longrightarrow> list_all cqe_ok (cq u) \<and> owned u = mset [0..<BUFFERS_COUNT])"

lemmas uring_types = uring_ACCEPT_def uring_READ_def uring_WRITE_def uring_PROV_BUF_def

lemmas add_defs = add_accept_def add_socket_read_def add_socket_write_def add_provide_buf_def

lemma sqe_bids_simps [simp]: "sqe_bids [] = {#}" "sqe_bids (q # sq) = op_bids (fst q) + sqe_bids sq"
  "sqe_bids (sq @ sq') = sqe_bids sq + sqe_bids sq'"
  by (simp_all add: sqe_bids_def)

lemma get_sqe_Inr: "get_sqe cap q sq = Inr sq' \<longleftrightarrow> length sq < cap \<and> sq' = sq @ [q]"
  by (auto simp: get_sqe_def)

text \<open>Reacting to a completion passes its buffer on to a request, and tags the request.\<close>

lemma handle_cqe_bids:
  assumes "handle_cqe cap lfd e (sq, cl) = Inr (sq', cl')" and "cqe_ok e"
  shows "sqe_bids sq' = sqe_bids sq + cqe_bids e"
  using assms
  by (auto simp: handle_cqe_def cqe_bids_def cqe_ok_def Let_def add_defs get_sqe_Inr bind_res_Inr_iff uring_types ENOBUFS_def
      split: if_splits)

lemma handle_cqe_ok:
  assumes "handle_cqe cap lfd e (sq, cl) = Inr (sq', cl')" and "list_all sqe_ok sq"
  shows "list_all sqe_ok sq'"
  using assms
  by (auto simp: handle_cqe_def Let_def add_defs get_sqe_Inr bind_res_Inr_iff sqe_ok_def split: if_splits)

lemma handle_all_ok:
  assumes "handle_all cap lfd es (sq, cl) = Inr (sq', cl')" and "list_all sqe_ok sq"
  shows "list_all sqe_ok sq'"
    and "list_all cqe_ok es \<Longrightarrow> sqe_bids sq' = sqe_bids sq + (\<Sum>e \<in># mset es. cqe_bids e)"
  using assms
proof (induction es arbitrary: sq cl)
  case Nil
  { case 1 then show ?case by (simp add: handle_all_def) next case 2 then show ?case by (simp add: handle_all_def) }
next
  case (Cons e es)
  { case 1
    then obtain sq1 cl1 where "handle_cqe cap lfd e (sq, cl) = Inr (sq1, cl1)" "handle_all cap lfd es (sq1, cl1) = Inr (sq', cl')"
      by (auto simp: handle_all_def bind_res_Inr_iff)
    with Cons.IH(1) handle_cqe_ok 1(2) show ?case by blast
  next case 2
    then obtain sq1 cl1 where s: "handle_cqe cap lfd e (sq, cl) = Inr (sq1, cl1)" "handle_all cap lfd es (sq1, cl1) = Inr (sq', cl')"
      by (auto simp: handle_all_def bind_res_Inr_iff)
    have "list_all sqe_ok sq1" using s(1) 2(3) by (rule handle_cqe_ok)
    from Cons.IH(2) [OF _ s(2) this] handle_cqe_bids [OF s(1)] 2(1) show ?case by simp }
qed

lemma buffer_flags_bid:
  assumes "b < BUFFERS_COUNT"
  shows "unat (cqe_bid \<lparr>user_data = ud, cres = r, cflags = buffer_flags b\<rparr>) = b" and "buffer_flags b AND F_BUFFER \<noteq> 0"
proof -
  have b: "b < 2 ^ 16" using assms by (simp add: BUFFERS_COUNT_def MAX_CONNECTIONS_def)
  have "cqe_bid \<lparr>user_data = ud, cres = r, cflags = buffer_flags b\<rparr> = of_nat b"
    by (rule bit_word_eqI) (auto simp: cqe_bid_def buffer_flags_def F_BUFFER_def bit_simps)
  then show "unat (cqe_bid \<lparr>user_data = ud, cres = r, cflags = buffer_flags b\<rparr>) = b"
    using b by (simp add: unat_of_nat)
  have "bit (buffer_flags b AND F_BUFFER) 0" by (simp add: buffer_flags_def F_BUFFER_def bit_simps)
  then show "buffer_flags b AND F_BUFFER \<noteq> 0" by auto
qed

lemma pool_bids: "owned u = mset [0..<BUFFERS_COUNT] \<Longrightarrow> b \<in> set (pool u) \<Longrightarrow> b < BUFFERS_COUNT"
proof -
  assume o: "owned u = mset [0..<BUFFERS_COUNT]" and b: "b \<in> set (pool u)"
  have "b \<in># owned u" using b by (simp add: owned_def)
  then show ?thesis unfolding o by simp
qed

lemma uinv_step:
  assumes "ustep cap lfd u u'" and "uinv u"
  shows "uinv u'"
  using assms
proof (induction rule: ustep.induct)
  case (submit u)
  then show ?case by (auto simp: uinv_def owned_def ac_simps)
next
  case (turn u sq cl)
  then show ?case using handle_all_ok [OF turn(1)] by (auto simp: uinv_def owned_def ac_simps)
next
  case (k_recv u xs fd gid n ud ys bs b bs' r)
  have "b < BUFFERS_COUNT" if "\<not> bare u" using k_recv(2,4) that by (intro pool_bids [of u]) (simp_all add: uinv_def)
  with k_recv show ?case
    using buffer_flags_bid [of b]
    by (auto simp: uinv_def owned_def complete_def sqe_ok_def cqe_ok_def cqe_bids_def uring_types)
qed (auto simp: uinv_def owned_def complete_def sqe_ok_def cqe_ok_def cqe_bids_def uring_types ENOBUFS_def)

lemma ureach_uinv: "ureach cap lfd u \<Longrightarrow> uinv u"
proof (induction rule: ureach.induct)
  case (start sq)
  then show ?case by (auto simp: uinv_def owned_def add_defs get_sqe_Inr sqe_ok_def)
next
  case (step u u')
  then show ?case using uinv_step by blast
qed

section \<open>Full submission queues\<close>

definition write_done :: "cqe \<Rightarrow> bool" where
  "write_done e \<longleftrightarrow> ci_type (unpack_info (user_data e)) = uring_WRITE \<and> cres e \<noteq> - ENOBUFS"

lemma handle_write:
  assumes "write_done e"
  shows "length sq + 2 \<le> cap \<Longrightarrow> \<exists>sq'. handle_cqe cap lfd e (sq, cl) = Inr (sq', cl) \<and> length sq' = length sq + 2"
    and "cap < length sq + 2 \<Longrightarrow> handle_cqe cap lfd e (sq, cl) = Inl NullDeref"
  using assms by (auto simp: handle_cqe_def write_done_def uring_types Let_def add_defs get_sqe_def)

lemma handle_writes:
  assumes "list_all write_done es"
  shows "(length sq + 2 * length es \<le> cap \<longrightarrow> (\<exists>sq'. handle_all cap lfd es (sq, cl) = Inr (sq', cl) \<and> length sq' = length sq + 2 * length es)) \<and>
    (cap < length sq + 2 * length es \<longrightarrow> es \<noteq> [] \<longrightarrow> handle_all cap lfd es (sq, cl) = Inl NullDeref)"
  using assms
proof (induction es arbitrary: sq)
  case Nil
  then show ?case by (simp add: handle_all_def)
next
  case (Cons e es)
  have e: "write_done e" and es: "list_all write_done es" using Cons.prems by simp_all
  show ?case
  proof (cases "length sq + 2 \<le> cap")
    case True
    obtain sq1 where "handle_cqe cap lfd e (sq, cl) = Inr (sq1, cl)" "length sq1 = length sq + 2"
      using handle_write(1) [OF e True] by blast
    with Cons.IH [OF es, of sq1] True show ?thesis by (cases es) (auto simp: handle_all_def)
  next
    case False
    then have "handle_cqe cap lfd e (sq, cl) = Inl NullDeref" using handle_write(2) [OF e, of cap sq] by simp
    with False show ?thesis by (simp add: handle_all_def)
  qed
qed

section \<open>A failed receive\<close>

lemma ureach_by:
  assumes "ureach cap lfd u" and "ustep cap lfd u v" and "v = w"
  shows "ureach cap lfd w"
  using assms by (auto intro: ureach.step)

abbreviation acc_req :: sqe where
  "acc_req \<equiv> (OpAccept 3, pack_info \<lparr>ci_fd = 3, ci_type = uring_ACCEPT, ci_bid = 0\<rparr>)"

abbreviation read_req :: "int \<Rightarrow> sqe" where
  "read_req fd \<equiv> (OpRecv fd group_id uring_MESSAGE_LEN, pack_info \<lparr>ci_fd = of_int fd, ci_type = uring_READ, ci_bid = 0\<rparr>)"

abbreviation send_req :: "int \<Rightarrow> sqe" where
  "send_req fd \<equiv> (OpSend fd 0 10, pack_info \<lparr>ci_fd = of_int fd, ci_type = uring_WRITE, ci_bid = 0\<rparr>)"

abbreviation prov_req :: sqe where
  "prov_req \<equiv> (OpProvide 0 group_id, pack_info \<lparr>ci_fd = 0, ci_type = uring_PROV_BUF, ci_bid = 0\<rparr>)"

abbreviation lent :: "sqe list \<Rightarrow> sqe list \<Rightarrow> cqe list \<Rightarrow> ustate" where
  "lent sq fl c \<equiv> \<lparr>prepared = sq, inflight = fl, pool = [0..<BUFFERS_COUNT], cq = c, closed_fds = [], bare = False\<rparr>"

lemmas turn_simps = handle_all_def handle_cqe_def Let_def add_defs get_sqe_def uring_types ENOBUFS_def

text \<open>One more connection accepted and its receive submitted.\<close>

lemma one_connection:
  assumes "ureach 2048 3 (lent [] (fl @ [acc_req]) [])" and "0 \<le> fd"
  shows "ureach 2048 3 (lent [] (fl @ [read_req fd, acc_req]) [])"
proof -
  let ?e = "\<lparr>user_data = snd acc_req, cres = fd, cflags = 0\<rparr>"
  have 1: "ureach 2048 3 (lent [] fl [?e])"
    by (rule ureach_by [OF assms(1) ustep.k_accept [of _ fl 3 "snd acc_req" "[]" 2048 3 fd]]) (simp_all add: complete_def)
  have "handle_all 2048 3 [?e] ([], []) = Inr ([read_req fd, acc_req], [])"
    using assms(2) by (simp add: turn_simps)
  then have 2: "ureach 2048 3 (lent [read_req fd, acc_req] fl [])"
    by (intro ureach_by [OF 1 ustep.turn [of 2048 3 "lent [] fl [?e]" "[read_req fd, acc_req]" "[]"]]) simp_all
  show ?thesis by (rule ureach_by [OF 2 ustep.submit]) simp
qed

text \<open>Three connections; the first one's receive fails without a buffer.\<close>

abbreviation after_fail :: "sqe list \<Rightarrow> sqe list \<Rightarrow> nat list \<Rightarrow> cqe list \<Rightarrow> int list \<Rightarrow> ustate" where
  "after_fail sq fl p c cl \<equiv> \<lparr>prepared = sq, inflight = fl, pool = p, cq = c, closed_fds = cl, bare = True\<rparr>"

lemma three_connections: "ureach 2048 3 (lent [] [read_req 5, read_req 6, read_req 7, acc_req] [])"
proof -
  have "ureach 2048 3 (lent [acc_req] [] [])" by (rule ureach.start) (simp add: add_defs get_sqe_def)
  from ureach_by [OF this ustep.submit] have "ureach 2048 3 (lent [] ([] @ [acc_req]) [])" by simp
  from one_connection [OF this, of 5] have "ureach 2048 3 (lent [] ([read_req 5] @ [acc_req]) [])" by simp
  from one_connection [OF this, of 6] have "ureach 2048 3 (lent [] ([read_req 5, read_req 6] @ [acc_req]) [])" by simp
  from one_connection [OF this, of 7] show ?thesis by simp
qed

lemma buffer_twice:
  "ureach 2048 3 (after_fail [] [read_req 6, read_req 7, acc_req] ([0..<BUFFERS_COUNT] @ [0]) [] [5])"
proof -
  let ?e = "\<lparr>user_data = snd (read_req 5), cres = -104, cflags = 0\<rparr>"
  let ?f = "\<lparr>user_data = snd prov_req, cres = 0, cflags = 0\<rparr>"
  let ?fl = "[read_req 6, read_req 7, acc_req]" and ?p = "[0..<BUFFERS_COUNT]"
  have 1: "ureach 2048 3 (after_fail [] ?fl ?p [?e] [])"
    by (rule ureach_by [OF three_connections
        ustep.k_fail [of _ "[]" 5 group_id uring_MESSAGE_LEN "snd (read_req 5)" ?fl "-104" 2048 3]])
      (simp_all add: complete_def ENOBUFS_def)
  have "handle_all 2048 3 [?e] ([], []) = Inr ([prov_req], [5])"
    by (simp add: turn_simps cqe_bid_def tag_fd_def)
  then have 2: "ureach 2048 3 (after_fail [prov_req] ?fl ?p [] [5])"
    by (intro ureach_by [OF 1 ustep.turn [of 2048 3 "after_fail [] ?fl ?p [?e] []" "[prov_req]" "[5]"]]) simp_all
  from ureach_by [OF 2 ustep.submit] have 3: "ureach 2048 3 (after_fail [] (?fl @ [prov_req]) ?p [] [5])" by simp
  have 4: "ureach 2048 3 (after_fail [] ?fl (?p @ [0]) [?f] [5])"
    by (rule ureach_by [OF 3 ustep.k_provide [of _ ?fl 0 group_id "snd prov_req" "[]" 0 2048 3]])
      (simp_all add: complete_def)
  have "handle_all 2048 3 [?f] ([], [5]) = Inr ([], [5])" by (simp add: turn_simps)
  then show ?thesis
    by (intro ureach_by [OF 4 ustep.turn [of 2048 3 "after_fail [] ?fl (?p @ [0]) [?f] [5]" "[]" "[5]"]]) simp_all
qed

section \<open>Properties\<close>

text \<open>
  C30: while no receive has failed before a buffer was selected for it, every buffer is in one place:
  lent to the kernel, named by a completion, or in one request. No two requests share a buffer.
\<close>

theorem uring_buffers_conserved:
  assumes "ureach cap lfd u" and "\<not> bare u"
  shows "owned u = mset [0..<BUFFERS_COUNT]"
  using ureach_uinv [OF assms(1)] assms(2) by (simp add: uinv_def)

theorem uring_buffers_conserved_witness:
  "owned (lent [] [read_req 5, read_req 6, read_req 7, acc_req] []) = mset [0..<BUFFERS_COUNT]"
  by (rule uring_buffers_conserved [OF three_connections]) simp

text \<open>
  C31: a receive that fails without a buffer completes with no flags, and the server lends out buffer
  zero a second time: two connections can then have sends in flight from the same buffer.
\<close>

theorem uring_buffer_shared:
  "\<exists>u. ureach 2048 3 u \<and> send_req 6 \<in> set (inflight u) \<and> send_req 7 \<in> set (inflight u)"
proof -
  let ?e = "\<lambda>fd. \<lparr>user_data = snd (read_req fd), cres = 10, cflags = buffer_flags 0\<rparr>"
  let ?p = "[1..<BUFFERS_COUNT]"
  have "0 < BUFFERS_COUNT" by (simp add: BUFFERS_COUNT_def MAX_CONNECTIONS_def)
  then have p: "[0..<BUFFERS_COUNT] = 0 # ?p" using upt_conv_Cons [of 0 BUFFERS_COUNT] by simp
  have 1: "ureach 2048 3 (after_fail [] [read_req 7, acc_req] (?p @ [0]) [?e 6] [5])"
    by (rule ureach_by [OF buffer_twice ustep.k_recv [of _ "[]" 6 group_id uring_MESSAGE_LEN "snd (read_req 6)"
        "[read_req 7, acc_req]" "[]" 0 "?p @ [0]" 10 2048 3]])
      (simp_all add: complete_def ENOBUFS_def p)
  have 2: "ureach 2048 3 (after_fail [] [acc_req] ?p [?e 6, ?e 7] [5])"
    by (rule ureach_by [OF 1 ustep.k_recv [of _ "[]" 7 group_id uring_MESSAGE_LEN "snd (read_req 7)"
        "[acc_req]" ?p 0 "[]" 10 2048 3]])
      (simp_all add: complete_def ENOBUFS_def)
  have b: "cqe_bid (?e fd) = 0" for fd
    by (rule bit_word_eqI) (auto simp: cqe_bid_def buffer_flags_def F_BUFFER_def bit_simps)
  have h: "handle_all 2048 3 [?e 6, ?e 7] ([], [5]) = Inr ([send_req 6, send_req 7], [5])"
    using b [of 6] b [of 7] by (simp add: turn_simps tag_fd_def)
  have 3: "ureach 2048 3 (after_fail [send_req 6, send_req 7] [acc_req] ?p [] [5])"
    by (rule ureach_by [OF 2 ustep.turn [where sq = "[send_req 6, send_req 7]" and cl = "[5]"]]) (use h in simp_all)
  have "ureach 2048 3 (after_fail [] [acc_req, send_req 6, send_req 7] ?p [] [5])"
    by (rule ureach_by [OF 3 ustep.submit]) simp
  then show ?thesis by (rule exI [of _ "after_fail [] [acc_req, send_req 6, send_req 7] ?p [] [5]", OF conjI]) simp
qed



text \<open>
  A tag survives the way through the kernel: descriptor, type and buffer come back as they were
  put in.
\<close>

theorem uring_tag_roundtrip:
  assumes "int_ok fd"
  shows "unpack_info (pack_info \<lparr>ci_fd = of_int fd, ci_type = t, ci_bid = b\<rparr>) = \<lparr>ci_fd = of_int fd, ci_type = t, ci_bid = b\<rparr> \<and>
    tag_fd (unpack_info (pack_info \<lparr>ci_fd = of_int fd, ci_type = t, ci_bid = b\<rparr>)) = fd"
proof -
  have "sint (word_of_int fd :: 32 word) = signed_take_bit 31 fd" by transfer simp
  moreover have "signed_take_bit 31 fd = fd"
    using assms unfolding int_ok_def by (simp only: signed_take_bit_int_eq_self_iff)
  ultimately show ?thesis by (simp add: tag_fd_def)
qed

theorem uring_tag_roundtrip_witness:
  "tag_fd (unpack_info (pack_info \<lparr>ci_fd = of_int 7, ci_type = uring_READ, ci_bid = 9\<rparr>)) = 7"
  using uring_tag_roundtrip [of 7] by (simp add: int_ok_def)

end
