(* ===== verification/Rps_Bench.thy ===== *)
theory Rps_Bench
  imports Epoll_Echo
begin

text \<open>
  The benchmark client (\<open>echo/rps.c\<close>): its options, its message, its threads and the sum of their
  successes. What \<open>getopt_long\<close> recognises, whether \<open>malloc\<close> and the socket calls succeed and what
  \<open>recv\<close> returns are parameters.
\<close>

section \<open>Options\<close>

definition MAX_THREAD :: int where "MAX_THREAD = 1000"

record rps_conf =
  conf_port :: int
  conf_conn :: int
  conf_size :: int
  conf_dur :: int

definition rps_defaults :: rps_conf where
  "rps_defaults = \<lparr>conf_port = 12345, conf_conn = 100, conf_size = 1000, conf_dur = 5\<rparr>"

text \<open>\<open>atoi\<close> is \<open>strtol\<close> converted to \<open>int\<close>. The options come in the order \<open>getopt_long\<close> returns them.\<close>

definition c_atoi :: "string \<Rightarrow> int" where
  "c_atoi s = sint (word_of_int (c_strtol s) :: 32 word)"

fun parse_opts :: "(char \<times> string) list \<Rightarrow> rps_conf \<Rightarrow> rps_conf res" where
  "parse_opts [] c = Inr c"
| "parse_opts ((o', arg) # opts) c =
     (if o' = CHR ''p'' then parse_opts opts (c\<lparr>conf_port := c_atoi arg\<rparr>)
      else if o' = CHR ''c'' then
        (if c_atoi arg > MAX_THREAD then Inl (Exited 0) else parse_opts opts (c\<lparr>conf_conn := c_atoi arg\<rparr>))
      else if o' = CHR ''d'' then parse_opts opts (c\<lparr>conf_dur := c_atoi arg\<rparr>)
      else if o' = CHR ''s'' then parse_opts opts (c\<lparr>conf_size := c_atoi arg\<rparr>)
      else Inl (Exited 0))"

section \<open>The message\<close>

text \<open>\<open>init\<close>: with no room for it the last store falls before the allocation.\<close>

definition init_msg :: "bool \<Rightarrow> int \<Rightarrow> 8 word list res" where
  "init_msg alloc_ok n =
     bind_res (guard_res alloc_ok NullDeref) (\<lambda>_.
     let m = replicate (nat n) (97 :: 8 word) in
     bind_res (guard_res (0 \<le> n - 1) OutOfBounds) (\<lambda>_. Inr (m[nat (n - 1) := 0])))"

definition c_strlen :: "8 word list \<Rightarrow> nat" where
  "c_strlen m = length (takeWhile (\<lambda>b. b \<noteq> 0) m)"

section \<open>Threads\<close>

text \<open>
  Where a thread of \<open>bench_worker\<close> is: waiting for the others; connecting; in its loop, with its
  successes so far; about to lock; holding the lock and having loaded the total; having stored it;
  gone.
\<close>

datatype tpc = TWait | TConn | TLoop "64 word" | TLock "64 word" | TAdd "64 word" "64 word" | TStored "64 word" | TGone "64 word"

record bstate =
  ready :: bool
  shut :: bool
  total_success :: "64 word"
  holder :: "nat option"
  thr :: "nat \<Rightarrow> tpc"
  nthr :: nat

text \<open>
  A step of a thread, with what its call of the system returns, and the two stores of \<open>bench\<close> that
  release and stop the threads.
\<close>

datatype bact = Thread nat int | Release | Stop

definition thread_step :: "nat \<Rightarrow> int \<Rightarrow> bstate \<Rightarrow> bstate res" where
  "thread_step i r s = (case thr s i of
     TWait \<Rightarrow> if ready s then Inr (s\<lparr>thr := (thr s)(i := TConn)\<rparr>) else Inl Blocked
   | TConn \<Rightarrow> if r = -1 then Inl (Exited (-1)) else Inr (s\<lparr>thr := (thr s)(i := TLoop 0)\<rparr>)
   | TLoop n \<Rightarrow>
       if shut s then Inr (s\<lparr>thr := (thr s)(i := TLock n)\<rparr>)
       else Inr (s\<lparr>thr := (thr s)(i := TLoop (if r < 0 then n else n + 1))\<rparr>)
   | TLock n \<Rightarrow>
       if holder s = None then Inr (s\<lparr>holder := Some i, thr := (thr s)(i := TAdd n (total_success s))\<rparr>) else Inl Blocked
   | TAdd n v \<Rightarrow> Inr (s\<lparr>total_success := v + n, thr := (thr s)(i := TStored n)\<rparr>)
   | TStored n \<Rightarrow> Inr (s\<lparr>holder := None, thr := (thr s)(i := TGone n)\<rparr>)
   | TGone n \<Rightarrow> Inl Blocked)"

fun bstep :: "bact \<Rightarrow> bstate \<Rightarrow> bstate res" where
  "bstep (Thread i r) s = (if i < nthr s then thread_step i r s else Inl Blocked)"
| "bstep Release s = Inr (s\<lparr>ready := True\<rparr>)"
| "bstep Stop s = Inr (s\<lparr>shut := True\<rparr>)"

definition binit :: "nat \<Rightarrow> bstate" where
  "binit n = \<lparr>ready = False, shut = False, total_success = 0, holder = None, thr = (\<lambda>_. TWait), nthr = n\<rparr>"

inductive breach :: "nat \<Rightarrow> bstate \<Rightarrow> bool" for n where
  start: "breach n (binit n)"
| step: "breach n s \<Longrightarrow> bstep a s = Inr s' \<Longrightarrow> breach n s'"

section \<open>Main\<close>

text \<open>
  \<open>create_worker\<close> sets the elements of \<open>pt\<close> for the threads it creates; the others stay zero, which
  names no thread, and \<open>pthread_join\<close> follows it as a pointer.
\<close>

definition create_one :: "(int \<Rightarrow> bool) \<Rightarrow> int \<Rightarrow> (int \<Rightarrow> bool) \<Rightarrow> (int \<Rightarrow> bool) res" where
  "create_one create_ok i pt =
     bind_res (guard_res (i < MAX_THREAD) OutOfBounds) (\<lambda>_.
     if create_ok i then Inr (pt(i := True)) else Inl (Exited (-1)))"

definition create_worker :: "(int \<Rightarrow> bool) \<Rightarrow> int \<Rightarrow> (int \<Rightarrow> bool) res" where
  "create_worker create_ok thread_qty = fold_res (create_one create_ok) [0..thread_qty - 1] (\<lambda>_. False)"

definition join_one :: "(int \<Rightarrow> bool) \<Rightarrow> int \<Rightarrow> unit \<Rightarrow> unit res" where
  "join_one pt x u = guard_res (pt x) NullDeref"

definition join_all :: "(int \<Rightarrow> bool) \<Rightarrow> unit res" where
  "join_all pt = fold_res (join_one pt) [0..MAX_THREAD - 1] ()"

text \<open>\<open>bench\<close> around the run of the threads, which the steps above describe.\<close>

definition bench :: "(int \<Rightarrow> bool) \<Rightarrow> rps_conf \<Rightarrow> unit res" where
  "bench create_ok c = bind_res (create_worker create_ok (conf_conn c)) join_all"

definition rps_main :: "bool \<Rightarrow> (int \<Rightarrow> bool) \<Rightarrow> (char \<times> string) list \<Rightarrow> (rps_conf \<times> 8 word list) res" where
  "rps_main alloc_ok create_ok opts =
     bind_res (parse_opts opts rps_defaults) (\<lambda>c.
     bind_res (init_msg alloc_ok (conf_size c)) (\<lambda>m.
     bind_res (bench create_ok c) (\<lambda>_. Inr (c, m))))"

section \<open>The sum\<close>

fun counted :: "tpc \<Rightarrow> 64 word" where
  "counted (TStored n) = n"
| "counted (TGone n) = n"
| "counted _ = 0"

definition tally :: "nat \<Rightarrow> (nat \<Rightarrow> tpc) \<Rightarrow> 64 word" where
  "tally n f = (\<Sum>i < n. counted (f i))"

definition critical :: "tpc \<Rightarrow> bool" where
  "critical p \<longleftrightarrow> (\<exists>n v. p = TAdd n v) \<or> (\<exists>n. p = TStored n)"

text \<open>
  The total is the sum over the threads that have stored; the lock is held by the one thread inside;
  what a thread inside has loaded is still the total.
\<close>

definition binv :: "nat \<Rightarrow> bstate \<Rightarrow> bool" where
  "binv n s \<longleftrightarrow> nthr s = n \<and> total_success s = tally n (thr s) \<and>
     (\<forall>i < n. critical (thr s i) \<longleftrightarrow> holder s = Some i) \<and>
     (\<forall>i < n. \<forall>m v. thr s i = TAdd m v \<longrightarrow> v = total_success s)"

lemma tally_update:
  assumes "i < n"
  shows "tally n (f(i := p)) = tally n f - counted (f i) + counted p"
proof -
  have "tally n (f(i := p)) = counted p + (\<Sum>j \<in> {..<n} - {i}. counted ((f(i := p)) j))"
    unfolding tally_def using assms by (subst sum.remove [of _ i]) auto
  also have "(\<Sum>j \<in> {..<n} - {i}. counted ((f(i := p)) j)) = (\<Sum>j \<in> {..<n} - {i}. counted (f j))"
    by (rule sum.cong) auto
  also have "\<dots> = tally n f - counted (f i)"
    unfolding tally_def using assms by (simp add: sum.remove [of "{..<n}" i])
  finally show ?thesis by (simp only: add.commute)
qed

lemma critical_simps [simp]:
  "critical (TAdd n v)" "critical (TStored n)" "\<not> critical TWait" "\<not> critical TConn" "\<not> critical (TLoop n)"
  "\<not> critical (TLock n)" "\<not> critical (TGone n)"
  by (simp_all add: critical_def)

lemma binv_step:
  assumes "binv n s" and "bstep a s = Inr s'"
  shows "binv n s'"
proof (cases a)
  case (Thread i r)
  have i: "i < n" and st: "thread_step i r s = Inr s'"
    using assms by (auto simp: Thread binv_def split: if_splits)
  have inv: "nthr s = n" "total_success s = tally n (thr s)" "\<And>j. j < n \<Longrightarrow> critical (thr s j) \<longleftrightarrow> holder s = Some j"
    "\<And>j m v. j < n \<Longrightarrow> thr s j = TAdd m v \<Longrightarrow> v = tally n (thr s)"
    using assms(1) by (auto simp: binv_def)
  note S = tally_update [OF i [folded inv(1)], of "thr s"]
  have h: "critical (thr s i) \<longleftrightarrow> holder s = Some i" using inv(3) i by blast
  show ?thesis
  proof (cases "thr s i")
    case (TAdd m v)
    then have out: "\<And>j. j < n \<Longrightarrow> j \<noteq> i \<Longrightarrow> \<not> critical (thr s j)" using h inv(3) by auto
    then have "\<And>j m v. j < n \<Longrightarrow> j \<noteq> i \<Longrightarrow> thr s j \<noteq> TAdd m v" by fastforce
    then show ?thesis
      using st TAdd h i inv(1-3) inv(4) [OF i TAdd] by (auto simp: thread_step_def binv_def S split: if_splits)
  next
    case (TStored m)
    then have "holder s = Some i" using h by simp
    then show ?thesis using st TStored i inv by (auto simp: thread_step_def binv_def S split: if_splits)
  next
    case (TLock m)
    then show ?thesis using st i inv by (auto simp: thread_step_def binv_def S split: if_splits)
  qed (use st i inv h in \<open>auto simp: thread_step_def binv_def S split: if_splits\<close>)
qed (use assms in \<open>auto simp: binv_def\<close>)

lemma breach_binv: "breach n s \<Longrightarrow> binv n s"
proof (induction rule: breach.induct)
  case start
  then show ?case by (simp add: binit_def binv_def tally_def)
qed (rule binv_step)

section \<open>Joining\<close>

lemma create_loop: "fold_res (create_one ok) xs p = Inr pt \<Longrightarrow> pt x \<longleftrightarrow> p x \<or> x \<in> set xs"
proof (induction xs arbitrary: p)
  case (Cons a xs)
  then obtain q where q: "create_one ok a p = Inr q" "fold_res (create_one ok) xs q = Inr pt" by (auto simp: bind_res_Inr_iff)
  from q(1) have "q x \<longleftrightarrow> p x \<or> x = a" by (auto simp: create_one_def bind_res_Inr_iff split: if_splits)
  then show ?case using Cons.IH [OF q(2)] by auto
qed simp

lemma create_all: "\<forall>i \<in> set xs. i < MAX_THREAD \<Longrightarrow> \<exists>pt. fold_res (create_one (\<lambda>_. True)) xs p = Inr pt"
  by (induction xs arbitrary: p) (simp_all add: create_one_def)

lemma join_loop: "fold_res (join_one pt) xs () = Inr () \<longleftrightarrow> (\<forall>x \<in> set xs. pt x)"
  by (induction xs) (auto simp: join_one_def guard_res_def)

lemma create_worker_pt: "create_worker ok q = Inr pt \<Longrightarrow> pt x \<longleftrightarrow> 0 \<le> x \<and> x < q"
  unfolding create_worker_def by (drule create_loop [where x = x]) auto

lemma create_worker_fits: "q \<le> MAX_THREAD \<Longrightarrow> \<exists>pt. create_worker (\<lambda>_. True) q = Inr pt"
  unfolding create_worker_def by (rule create_all) auto

lemma bench_joins:
  assumes "bench ok c = Inr ()"
  shows "MAX_THREAD \<le> conf_conn c"
proof -
  obtain pt where pt: "create_worker ok (conf_conn c) = Inr pt" "join_all pt = Inr ()"
    using assms by (auto simp: bench_def bind_res_Inr_iff)
  have "MAX_THREAD - 1 \<in> set [0..MAX_THREAD - 1]" by (simp add: MAX_THREAD_def)
  then have "pt (MAX_THREAD - 1)" using pt(2) unfolding join_all_def join_loop by blast
  then show ?thesis using create_worker_pt [OF pt(1)] by simp
qed

lemma bench_full:
  assumes "conf_conn c = MAX_THREAD"
  shows "bench (\<lambda>_. True) c = Inr ()"
proof -
  obtain pt where pt: "create_worker (\<lambda>_. True) MAX_THREAD = Inr pt" using create_worker_fits by blast
  have "\<forall>x \<in> set [0..MAX_THREAD - 1]. pt x" using create_worker_pt [OF pt] by auto
  then have "join_all pt = Inr ()" unfolding join_all_def join_loop .
  then show ?thesis using pt assms by (simp add: bench_def)
qed

lemma parse_opts_conn: "parse_opts opts c = Inr c' \<Longrightarrow> conf_conn c \<le> MAX_THREAD \<Longrightarrow> conf_conn c' \<le> MAX_THREAD"
  by (induction opts c rule: parse_opts.induct) (auto split: if_splits)

lemma defaults_conn: "conf_conn rps_defaults \<le> MAX_THREAD"
  by (simp add: rps_defaults_def MAX_THREAD_def)

lemma c_strlen_filled: "c_strlen (replicate k 97 @ [0]) = k"
  by (induction k) (simp_all add: c_strlen_def)

lemma init_msg_strlen:
  assumes "init_msg ok n = Inr m"
  shows "0 < n" "length m = nat n" "c_strlen m = nat n - 1"
proof -
  show n: "0 < n" using assms by (auto simp: init_msg_def bind_res_Inr_iff guard_res_Inr_iff)
  then obtain k where k: "nat n = Suc k" by (metis gr0_implies_Suc zero_less_nat_eq)
  have kk: "nat (n - 1) = k" using k n by simp
  have m: "m = replicate k 97 @ [0]"
    using assms n by (auto simp: init_msg_def bind_res_Inr_iff k kk replicate_append_same [symmetric] list_update_append)
  show "length m = nat n" using m k by simp
  show "c_strlen m = nat n - 1" using m k by (simp add: c_strlen_filled)
qed

section \<open>Properties\<close>

text \<open>
  C33: when every thread of the benchmark is gone, the reported total is the sum of the successes the
  threads counted, in every interleaving (no update of the total is lost).
\<close>

theorem rps_total_is_sum:
  assumes "breach n s" and "\<forall>i < n. thr s i = TGone (won i)"
  shows "total_success s = (\<Sum>i < n. won i)"
  using breach_binv [OF assms(1)] assms(2) by (auto simp: binv_def tally_def)

theorem rps_total_is_sum_witness:
  "\<exists>s. breach 2 s \<and> thr s 0 = TGone 1 \<and> thr s 1 = TGone 2 \<and> total_success s = 3"
proof -
  let ?as = "[Release, Thread 0 3, Thread 1 3, Thread 0 3, Thread 1 4, Thread 0 5, Thread 1 5, Thread 0 (-1), Thread 1 5, Stop,
    Thread 0 0, Thread 1 0, Thread 1 0, Thread 1 0, Thread 1 0, Thread 0 0, Thread 0 0, Thread 0 0]"
  have run: "fold_res bstep as s = Inr s' \<Longrightarrow> breach 2 s \<Longrightarrow> breach 2 s'" for as s s'
    by (induction as arbitrary: s) (auto simp: bind_res_Inr_iff intro: breach.step simp del: bstep.simps)
  have "\<exists>s. fold_res bstep ?as (binit 2) = Inr s \<and> thr s 0 = TGone 1 \<and> thr s 1 = TGone 2"
    by (simp add: binit_def thread_step_def)
  then obtain s where s: "fold_res bstep ?as (binit 2) = Inr s" "thr s 0 = TGone 1" "thr s 1 = TGone 2" by blast
  have r: "breach 2 s" by (rule run [OF s(1) breach.start])
  have "\<forall>i < 2. thr s i = TGone (if i = 0 then 1 else 2)" using s(2,3) by (auto simp: less_2_cases_iff)
  from rps_total_is_sum [OF r this] show ?thesis using r s by (auto simp: numeral_2_eq_2)
qed

text \<open>
  C34: the benchmark gets past joining its threads only when it was asked for exactly \<open>MAX_THREAD\<close>
  connections, and then its requests are one byte shorter than the size asked for; with fewer, the
  defaults included, it joins threads that were never created.
\<close>

theorem rps_returns_only_with_all_threads:
  assumes "rps_main alloc_ok create_ok opts = Inr (c, m)"
  shows "conf_conn c = MAX_THREAD \<and> length m = nat (conf_size c) \<and> c_strlen m = nat (conf_size c) - 1"
proof -
  have 1: "parse_opts opts rps_defaults = Inr c" "init_msg alloc_ok (conf_size c) = Inr m" "bench create_ok c = Inr ()"
    using assms by (auto simp: rps_main_def bind_res_Inr_iff)
  show ?thesis
    using parse_opts_conn [OF 1(1) defaults_conn] bench_joins [OF 1(3)] init_msg_strlen [OF 1(2)] by simp
qed

theorem rps_returns_only_with_all_threads_witness:
  "\<exists>c m. rps_main True (\<lambda>_. True) [(CHR ''c'', ''1000''), (CHR ''s'', ''4'')] = Inr (c, m) \<and> conf_conn c = MAX_THREAD \<and> c_strlen m = 3"
proof -
  let ?c = "\<lparr>conf_port = 12345, conf_conn = 1000, conf_size = 4, conf_dur = 5\<rparr>"
  have "parse_opts [(CHR ''c'', ''1000''), (CHR ''s'', ''4'')] rps_defaults = Inr ?c" by code_simp
  moreover have "init_msg True 4 = Inr [97, 97, 97, 0]" by code_simp
  moreover have "bench (\<lambda>_. True) ?c = Inr ()" by (rule bench_full) (simp add: MAX_THREAD_def)
  ultimately have r: "rps_main True (\<lambda>_. True) [(CHR ''c'', ''1000''), (CHR ''s'', ''4'')] = Inr (?c, [97, 97, 97, 0])"
    by (simp add: rps_main_def)
  from rps_returns_only_with_all_threads [OF this] r show ?thesis by force
qed

end
