(* ===== verification/Spec2Isabelle.thy ===== *)
theory Spec2Isabelle
  imports Lighty_Writev Store_Buffer Worker_Thread Start_Up System_Calls
    Echo_Cycle Processes Uring_Echo Rps_Bench
begin

text \<open>
  \<^bold>\<open>SAIO\<close> batches the system calls of a server without changing its logic. A preloaded library replaces
  calls such as \<open>close\<close> or \<open>sendfile\<close>: inside a batch the replacement writes the call into a table
  shared with the kernel and returns at once; kernel threads of a module perform the calls. The
  repository has the library (\<open>src/wrapper\<close>), the module (\<open>src/module\<close>) and three programs to measure
  them with (\<open>src/echo\<close>).

  \<^bold>\<open>How the parts work together.\<close> The constructor of the library reads the configuration and passes it
  to the module. A server process calls \<open>init_worker\<close>, which allocates headers and tables and
  registers them; each registration starts a kernel worker. The event loop calls \<open>batch_start\<close>, which
  wakes sleeping workers, and \<open>batch_flush\<close>. Between the two every replaced call fills the entry at the
  tail of the table its file descriptor selects, \<open>update_index\<close> moves the tail, and the entry is marked
  busy. A worker polls the entry at the head, counts what is between head and tail, performs it and
  publishes the new head; after some idle time it sleeps.

  \<^bold>\<open>The theories\<close>, each after those it uses; file names are relative to \<open>src\<close>.

  \<^item> \<open>Saio_Prelude\<close>: results that may stop (\<open>stop\<close>: null pointer, out of bounds, division by zero,
    signed overflow, unresolved symbol, write protection, blocking, \<open>exit\<close>), loops over them with their
    invariant rule, C's division, conversions, shared lemmas.
  \<^item> \<open>Esca_Types\<close> (\<open>module/include/esca.h\<close>, \<open>x86_syscall.h\<close>, \<open>aarch64_syscall.h\<close>, \<open>module/syscall.h\<close>):
    entries, headers, configuration, flags, call numbers; a header with the memory behind its
    pointers is a \<open>chan\<close>.
  \<^item> \<open>Esca_Config\<close> (\<open>setup\<close>, \<open>init_config\<close> of \<open>wrapper/preload.c\<close>, \<open>sys_esca_init_config\<close> of
    \<open>module/lioo.c\<close>): the parser ends on every file and stops in two ways only, a printed
    configuration is read back, library and module compute the same variables.
  \<^item> \<open>Ring_Index\<close> (\<open>update_index\<close>, the worker's index arithmetic): both sides walk the same ring
    (locale \<open>cyclic_walk\<close>, interpreted for each side); what the full test sees and misses.
  \<^item> \<open>Shared_Layout\<close> (\<open>init_worker\<close>, \<open>sys_esca_register\<close>): start-up, and when both sides address the
    same entry.
  \<^item> \<open>Indirect_Call\<close> (\<open>indirect_call\<close>): the argument registers on both architectures.
  \<^item> \<open>Kernel_Worker\<close> (\<open>worker\<close>): a pass over the pending entries, and the queue that passes and
    submissions implement (locale \<open>call_queue\<close>).
  \<^item> \<open>Batch_Control\<close> (\<open>batch_start\<close>, \<open>batch_flush\<close>, \<open>toggle_region\<close>, \<open>sys_esca_wakeup\<close>,
    \<open>sys_esca_wait\<close>, \<open>wrapper/dummy.c\<close>).
  \<^item> \<open>Wrappers\<close> (\<open>wrapper/ngx.c\<close>, \<open>ngx_ktls.c\<close>, \<open>redis.c\<close>, \<open>echo.c\<close>, \<open>lighty.c\<close>): the replaced calls, with
    the contract of a target as the locales \<open>batched_calls\<close> and \<open>transparent_calls\<close>, interpreted for
    nginx, redis, the echo server and lighttpd.
  \<^item> \<open>Pools\<close> (\<open>ngx_tls.c\<close>, \<open>mcached.c\<close>) and \<open>Lighty_Writev\<close> (the \<open>writev\<close> of \<open>lighty.c\<close>, behind its
    switch): wrappers that copy buffers, vectors and message headers.
  \<^item> \<open>Batch_Cycle\<close>: the states the components leave are the ones the next component needs; this theory
    ends with a whole batch, proved once for every target.
  \<^item> \<open>Start_Up\<close> (the constructor \<open>setup\<close> of \<open>wrapper/preload.c\<close>, \<open>esca.conf\<close>): the real calls are looked
    up, both sides configured; with the shipped file, a batch from the constructor to its end.
  \<^item> \<open>Processes\<close>: two processes on one module, each with its own workers, do not disturb each other.
  \<^item> \<open>Ring_Protocol\<close>, \<open>Ring_Safety\<close>, \<open>Ring_Hazards\<close>: one process and one worker on a table, interleaved at
    single loads and stores. While neither of two hazards has happened the ring refines a FIFO queue;
    a process that leaves two entries free on a single table meets none; the worker's steps drain
    the ring. Then the runs in which the ring fails.
  \<^item> \<open>Store_Buffer\<close> (the barriers of \<open>module/include/esca.h\<close>): the same protocol with stores delayed in
    a buffer on each side. In-order buffers (x86-64) keep the queue; on aarch64 the plain stores of
    the tail may overtake those of the entry, and a run shows a stale entry performed.
  \<^item> \<open>Worker_Sleep\<close>: the worker going to sleep against \<open>batch_start\<close>, interleaved likewise, with the
    clock and signals.
  \<^item> \<open>Worker_Thread\<close> (\<open>worker\<close>): the thread from its start to its end, around the pass of
    \<open>Kernel_Worker\<close> and the polling of \<open>Worker_Sleep\<close>; its affinity, and how long it stays awake.
  \<^item> \<open>Lioo_Module\<close> (\<open>lioo_init\<close>, \<open>lioo_exit\<close>, \<open>sys_lioo_exit\<close>, \<open>module/lib\<close>): hooks in the system call table
    and their removal, write protection (locale \<open>write_gate\<close>), cycle counters.
  \<^item> \<open>System_Calls\<close> (the prologues of the four functions of \<open>module/lioo.c\<close>, the helpers of
    \<open>module/syscall.h\<close>): a system call of the library as the register frame the module takes apart.
  \<^item> \<open>Epoll_Echo\<close>, \<open>Uring_Echo\<close>, \<open>Rps_Bench\<close> (\<open>echo\<close>): the echo server on the library, the one on
    io_uring with the kernel's completions as environment, and the client with its threads;
    \<open>Echo_Cycle\<close> follows a message from the connection to the worker that sends it back.

  \<^bold>\<open>Reading the model.\<close> The fields of \<open>saio\<close> are the global variables of library and module and the memory
  they share; a function of the code is a function from state to \<open>res\<close>, \<open>Inl\<close> where the code would
  stop or block. Code in several threads is a step function with an inductive set of reachable
  states; fields called \<open>overrun\<close>, \<open>torn\<close>, \<open>lost\<close> and \<open>bare\<close> only record that something happened. Integers
  of the code that can wrap are words; \<open>int\<close> variables are integers with the overflow as a stop.
  Names are those of the code, with the file's target in front where several files use one name.

  \<^bold>\<open>Assumptions.\<close> Memory is sequentially consistent except in \<open>Store_Buffer\<close>, where stores are
  delayed and loads are in program order; a load or store of one variable is atomic. The
  system calls behind the wrappers, the handlers of the kernel (\<open>systab\<close>), allocation, page pinning,
  sockets, epoll, liburing, threads and \<open>getopt_long\<close> are parameters, with what is used of them as
  hypotheses. A batch makes fewer calls than a ring holds where a property says so: \<open>ring_ok\<close> bounds
  \<open>MAX_TABLE_LEN\<close> by the array in the header and the ring by the range of a \<open>short\<close>; nothing in the code
  checks this. No definition needs fuel: loops recurse over lists or a decreasing count; the event
  loop of the echo server is its state after any number of turns.

  \<^bold>\<open>Not modelled.\<close> Printing and logging, such as the report of the configuration at start-up and the
  summary of the client; the \<open>scall\<close> macros of \<open>module/syscall.h\<close>, which build a value of a type
  declared nowhere and are used nowhere; loads out of order; the headers that only declare symbols
  and prototypes; the patches, scripts and configurations for other programs.
\<close>

section \<open>Across the components\<close>

text \<open>
  C1: a process started by \<open>init_worker\<close> opens a batch, which wakes all its kernel workers, and makes
  fewer calls than a ring holds; every call returns at once with its result of success and nothing is
  performed yet; the workers then, in whatever order they run, perform each table's share of the
  calls in the order they were made, leave nothing pending, and \<open>batch_flush\<close> closes the batch.
\<close>

theorem nginx_batch_served:
  fixes tab :: "'w systab" and w :: 'w
  assumes "bootable env idx s" and "list_all (\<lambda>c. fd_ok (ngx_dest c) \<and> req_ok tab (ngx_request arc c)) cs"
    and "length cs < slots (glob s)"
    and "distinct ts" and "set ts = {idx * RATIO (glob s)..<idx * RATIO (glob s) + RATIO (glob s)}"
  shows "\<exists>s1 s2 s3 s4 w'. init_worker env idx s = Inr s1 \<and>
    batch_start s1 = Inr (0, s2, [idx * RATIO (glob s)..idx * RATIO (glob s) + RATIO (glob s) - 1]) \<and>
    run_calls (ngx_oper rc rs arc) cs (s2, w) = Inr (map ngx_ret cs, s3, w) \<and>
    fold_res (worker_turn arc tab) ts (s3, w) = Inr (s4, w') \<and>
    perform_all arc tab (concat (map (\<lambda>t. map (ngx_request arc)
      (filter (\<lambda>c. idx * RATIO (glob s) + ngx_dest c mod RATIO (glob s) = t) cs)) ts)) w = Inr w' \<and>
    list_all (\<lambda>t. pending_at s4 t = []) ts \<and>
    batch_flush s4 = Inr (0, s4\<lparr>in_segment := 0, batch_num := 0\<rparr>)"
  using assms by (rule ngx.batch_served)

theorem nginx_batch_served_witness:
  "\<exists>s1 s2 s3 s4. init_worker sample_env 0 sample_saio = Inr s1 \<and> batch_start s1 = Inr (0, s2, [0, 1]) \<and>
     run_calls (ngx_oper (\<lambda>fd w. (-1, w)) (\<lambda>a b c d w. ((-1, None), w)) X86_64) [Close 4, Close 7, Close 8] (s2, [] :: 64 word list) =
       Inr ([(0, None), (0, None), (0, None)], s3, []) \<and>
     fold_res (worker_turn X86_64 sample_tab) [1, 0] (s3, []) = Inr (s4, [7, 4, 8]) \<and> pending_at s4 0 = []"
  (is "\<exists>s1 s2 s3 s4. _ \<and> _ \<and> run_calls (ngx_oper ?rc ?rs _) ?cs _ = _ \<and> _")
proof -
  have b: "bootable sample_env 0 sample_saio"
    by (simp add: bootable_def sample_saio_def sample_env_def layout_ok_def typed_hdr_def sample_hdr_def sample_entry_def)
  have g: "glob sample_saio = sample_globals" by (simp add: sample_saio_def)
  have o: "set [1, 0] = {0 * RATIO sample_globals..<0 * RATIO sample_globals + RATIO sample_globals}" by auto
  have t: "[0 * RATIO sample_globals..0 * RATIO sample_globals + RATIO sample_globals - 1] = [0, 1]" by (simp add: upto_rec1)
  have l: "list_all (\<lambda>c. fd_ok (ngx_dest c) \<and> req_ok sample_tab (ngx_request X86_64 c)) ?cs" by code_simp
  have p: "perform_all X86_64 sample_tab (concat (map (\<lambda>t. map (ngx_request X86_64)
      (filter (\<lambda>c. 0 * RATIO sample_globals + ngx_dest c mod RATIO sample_globals = t) ?cs)) [1, 0])) [] = Inr [7, 4, 8]" by code_simp
  have n: "length ?cs < slots sample_globals" "distinct [1, 0 :: int]" by simp_all
  from nginx_batch_served [OF b l, unfolded g, OF n o, of ?rc ?rs "[]"] show ?thesis
    unfolding p t by fastforce
qed

end
